(* ===== verification/Prelude.thy ===== *)
theory Prelude
  imports Main "HOL-Library.Word"
begin

text \<open>
  What the component theories share: the C types of the target (an ILP32 core such as the
  Cortex-M the firmware is built for: \<open>int\<close>, \<open>long\<close>, \<open>size_t\<close> and pointers have 32 bits),
  the errno values, byte memories and byte buffers with the two accesses the C code makes
  (\<open>memcpy\<close> out of and into them), and the lemmas on lists and words that several components
  use. The collections \<open>mem_simps\<close> and \<open>word_nat\<close> carry the component proofs.
\<close>

unbundle bit_operations_syntax

section \<open>C types and return codes\<close>

type_synonym u8 = "8 word"
type_synonym u16 = "16 word"
type_synonym u32 = "32 word"

text \<open>
  Return codes are C \<open>int\<close>s: zero or a count on success, a negated errno value on failure.
\<close>

abbreviation (input) ENOENT :: int where "ENOENT \<equiv> 2"
abbreviation (input) EIO :: int where "EIO \<equiv> 5"
abbreviation (input) E2BIG :: int where "E2BIG \<equiv> 7"
abbreviation (input) EBADF :: int where "EBADF \<equiv> 9"
abbreviation (input) ENOMEM :: int where "ENOMEM \<equiv> 12"
abbreviation (input) EACCES :: int where "EACCES \<equiv> 13"
abbreviation (input) EFAULT :: int where "EFAULT \<equiv> 14"
abbreviation (input) EBUSY :: int where "EBUSY \<equiv> 16"
abbreviation (input) EEXIST :: int where "EEXIST \<equiv> 17"
abbreviation (input) ENODEV :: int where "ENODEV \<equiv> 19"
abbreviation (input) EINVAL :: int where "EINVAL \<equiv> 22"
abbreviation (input) ENFILE :: int where "ENFILE \<equiv> 23"
abbreviation (input) EFBIG :: int where "EFBIG \<equiv> 27"
abbreviation (input) ENOSYS :: int where "ENOSYS \<equiv> 38"
abbreviation (input) ENODATA :: int where "ENODATA \<equiv> 61"

named_theorems mem_simps "reading and writing byte memories and buffers"
named_theorems word_nat "arithmetic of words through nat"

section \<open>Byte memories\<close>

text \<open>
  A storage medium is a function from addresses to bytes; a buffer is a list of bytes.
\<close>

type_synonym mem = "nat \<Rightarrow> u8"

definition mem_read :: "mem \<Rightarrow> nat \<Rightarrow> nat \<Rightarrow> u8 list" where
  "mem_read m off n = map m [off..<off + n]"

definition mem_write :: "mem \<Rightarrow> nat \<Rightarrow> u8 list \<Rightarrow> mem" where
  "mem_write m off bs =
     (\<lambda>a. if off \<le> a \<and> a < off + length bs then bs ! (a - off) else m a)"

lemma length_mem_read [simp]: "length (mem_read m off n) = n"
  by (simp add: mem_read_def)

lemma nth_mem_read [mem_simps]: "i < n \<Longrightarrow> mem_read m off n ! i = m (off + i)"
  by (simp add: mem_read_def)

lemma mem_read_0 [simp]: "mem_read m off 0 = []"
  by (simp add: mem_read_def)

lemma mem_read_Suc: "mem_read m off (Suc n) = m off # mem_read m (Suc off) n"
  by (rule nth_equalityI) (auto simp: mem_read_def nth_Cons simp del: upt_Suc split: nat.splits)

lemma mem_read_append [mem_simps]:
  "mem_read m off (n + k) = mem_read m off n @ mem_read m (off + n) k"
  by (rule nth_equalityI) (auto simp: mem_read_def nth_append)

lemma mem_read_cong:
  "(\<And>a. off \<le> a \<Longrightarrow> a < off + n \<Longrightarrow> m a = m' a) \<Longrightarrow> mem_read m off n = mem_read m' off n"
  by (simp add: mem_read_def)

lemma mem_read_eq_iff:
  "mem_read m off n = mem_read m' off' n \<longleftrightarrow> (\<forall>i<n. m (off + i) = m' (off' + i))"
  by (auto simp: list_eq_iff_nth_eq nth_mem_read)

lemma mem_write_Nil [simp]: "mem_write m off [] = m"
  by (auto simp: mem_write_def fun_eq_iff)

lemma mem_write_in [mem_simps]:
  "off \<le> a \<Longrightarrow> a < off + length bs \<Longrightarrow> mem_write m off bs a = bs ! (a - off)"
  by (simp add: mem_write_def)

lemma mem_write_out [mem_simps]:
  "a < off \<or> off + length bs \<le> a \<Longrightarrow> mem_write m off bs a = m a"
  by (auto simp: mem_write_def)

lemma mem_write_append [mem_simps]:
  "mem_write m off (bs @ cs) = mem_write (mem_write m off bs) (off + length bs) cs"
  by (auto simp: mem_write_def fun_eq_iff nth_append)

lemma mem_read_write_same [mem_simps]:
  "n = length bs \<Longrightarrow> mem_read (mem_write m off bs) off n = bs"
  by (auto simp: list_eq_iff_nth_eq mem_simps)

lemma mem_read_write_disjoint [mem_simps]:
  "off' + n \<le> off \<or> off + length bs \<le> off' \<Longrightarrow>
   mem_read (mem_write m off bs) off' n = mem_read m off' n"
  by (rule mem_read_cong) (auto simp: mem_write_def)

lemma mem_write_read_id [mem_simps]: "mem_write m off (mem_read m off n) = m"
  by (auto simp: mem_write_def mem_simps fun_eq_iff)

section \<open>Byte buffers\<close>

text \<open>
  \<open>buf_write xs off bs\<close> is the buffer after \<open>memcpy(xs + off, bs, length bs)\<close>,
  \<open>buf_read xs off n\<close> the bytes that \<open>memcpy(dst, xs + off, n)\<close> copies. Both are used with
  ranges inside the buffer only; the lemmas carry that as their premise.
\<close>

definition buf_read :: "'a list \<Rightarrow> nat \<Rightarrow> nat \<Rightarrow> 'a list" where
  "buf_read xs off n = take n (drop off xs)"

definition buf_write :: "'a list \<Rightarrow> nat \<Rightarrow> 'a list \<Rightarrow> 'a list" where
  "buf_write xs off bs = take off xs @ bs @ drop (off + length bs) xs"

lemma length_buf_read [simp]: "off + n \<le> length xs \<Longrightarrow> length (buf_read xs off n) = n"
  by (simp add: buf_read_def)

lemma nth_buf_read [mem_simps]:
  "off + n \<le> length xs \<Longrightarrow> i < n \<Longrightarrow> buf_read xs off n ! i = xs ! (off + i)"
  by (simp add: buf_read_def)

lemma length_buf_write [simp]:
  "off + length bs \<le> length xs \<Longrightarrow> length (buf_write xs off bs) = length xs"
  by (simp add: buf_write_def)

lemma nth_buf_write [mem_simps]:
  assumes "off + length bs \<le> length xs" "i < length xs"
  shows "buf_write xs off bs ! i =
    (if off \<le> i \<and> i < off + length bs then bs ! (i - off) else xs ! i)"
  using assms by (auto simp: buf_write_def nth_append)

lemma buf_write_all [simp]: "length bs = length xs \<Longrightarrow> buf_write xs 0 bs = bs"
  by (simp add: buf_write_def)

section \<open>Structures in memory\<close>

text \<open>
  A structure without padding is the concatenation of its members in little-endian order; \<open>ws\<close> are
  the sizes of the members.
\<close>

fun le_bytes :: "nat \<Rightarrow> nat \<Rightarrow> u8 list" where
  "le_bytes 0 x = []"
| "le_bytes (Suc n) x = of_nat x # le_bytes n (x div 256)"

fun le_nat :: "u8 list \<Rightarrow> nat" where
  "le_nat [] = 0"
| "le_nat (b # bs) = unat b + 256 * le_nat bs"

fun pack :: "nat list \<Rightarrow> nat list \<Rightarrow> u8 list" where
  "pack (w # ws) (x # xs) = le_bytes w x @ pack ws xs"
| "pack ws xs = []"

fun unpack :: "nat list \<Rightarrow> u8 list \<Rightarrow> nat list" where
  "unpack [] bs = []"
| "unpack (w # ws) bs = le_nat (take w bs) # unpack ws (drop w bs)"

lemma length_le_bytes [simp]: "length (le_bytes n x) = n"
  by (induction n arbitrary: x) auto

lemma le_nat_le_bytes: "x < 256 ^ n \<Longrightarrow> le_nat (le_bytes n x) = x"
proof (induction n arbitrary: x)
  case (Suc n)
  have "x div 256 < 256 ^ n" using Suc.prems by (simp add: div_less_iff_less_mult)
  moreover have "unat (of_nat x :: u8) = x mod 256" by (simp add: unat_of_nat)
  ultimately show ?case using Suc.IH by simp
qed simp

lemma length_pack: "length xs = length ws \<Longrightarrow> length (pack ws xs) = sum_list ws"
  by (induction ws xs rule: pack.induct) auto

lemma length_unpack [simp]: "length (unpack ws bs) = length ws"
  by (induction ws arbitrary: bs) auto

lemma unpack_pack: "list_all2 (\<lambda>w x. x < 256 ^ w) ws xs \<Longrightarrow> unpack ws (pack ws xs) = xs"
  by (induction ws xs rule: list_all2_induct) (auto simp: le_nat_le_bytes)

section \<open>Words\<close>

lemma unat_less_2p32 [simp]: "unat (x :: u32) < 4294967296"
  using unsigned_less [of x] by simp

lemma unat_add_u32 [word_nat]: "unat (x + y) = (unat x + unat y) mod 4294967296" for x y :: u32
  by (simp add: unat_word_ariths)

lemma unat_sub_u32 [word_nat]: "unat (x - y) = (unat x + 4294967296 - unat y) mod 4294967296"
  for x y :: u32
proof (cases "y \<le> x")
  case True
  then have "unat y \<le> unat x" by (simp add: word_le_nat_alt)
  then have "unat x + 4294967296 - unat y = (unat x - unat y) + 4294967296" by simp
  then have "(unat x + 4294967296 - unat y) mod 4294967296 = (unat x - unat y) mod 4294967296"
    by (metis mod_add_self2)
  also have "\<dots> = unat x - unat y"
    using unat_less_2p32 [of x] by (intro mod_less) linarith
  finally show ?thesis using True by (simp add: unat_sub)
next
  case False
  then have "unat x < unat y" by (simp add: word_le_nat_alt)
  then show ?thesis
    using False unat_less_2p32 [of y] by (simp add: unat_sub_if_size word_size)
qed

text \<open>The power-of-two mask, as the C code writes it: \<open>x & (2^k - 1)\<close> is \<open>x mod 2^k\<close>.\<close>

lemma unat_and_mask: "unat (x AND mask k) = unat x mod 2 ^ k" for x :: "'a::len word"
  by (simp add: unsigned_take_bit_eq flip: take_bit_eq_mask) (simp add: take_bit_eq_mod)

lemma unat_mask_u32: "k \<le> 32 \<Longrightarrow> unat (mask k :: u32) = mask k"
  using unsigned_of_nat [of "mask k", where 'a = nat and 'b = 32] by (simp add: of_nat_mask_eq)

lemma unat_exp_u32: "k < 32 \<Longrightarrow> unat (2 ^ k :: u32) = 2 ^ k"
  using unsigned_of_nat [of "2 ^ k", where 'a = nat and 'b = 32]
    power_strict_increasing [of k 32 "2 :: nat"]
  by (simp add: take_bit_eq_mod)

lemma mod_2p32_mod_2pow: "k \<le> 32 \<Longrightarrow> a mod 4294967296 mod 2 ^ k = a mod 2 ^ k" for a :: nat
  using mod_mod_cancel [of "2 ^ k" "2 ^ 32" a] le_imp_power_dvd [of k 32 "2 :: nat"] by simp

end
