(* ===== verification/Bitops.thy ===== *)
theory Bitops
  imports Prelude
begin

text \<open>
  The bitmap searches of \<open>lib/bitops.c\<close> over arrays of \<open>unsigned long\<close> (32 bits). A bitmap is
  the list of its words; a read past its end is the value None. The C code has every search
  twice, on the words and on their complements: here the search takes the view of a word (the
  word itself or its complement) as its first argument, and the C functions are its two
  instances. Indices stay below \<open>2^31\<close>, where C's \<open>int\<close> and \<open>unsigned long\<close> agree.
\<close>

section \<open>Definitions\<close>

text \<open>\<open>__builtin_ffsl\<close> and \<open>flsl\<close> are one plus the index of the first or last set bit, or 0.\<close>

definition ffsl :: "u32 \<Rightarrow> int" where
  "ffsl w = (if w = 0 then 0 else 1 + int (length (takeWhile (\<lambda>i. \<not> bit w i) [0..<32])))"

definition flsl :: "u32 \<Rightarrow> int" where
  "flsl w = (if w = 0 then 0
             else 32 - int (length (takeWhile (\<lambda>i. \<not> bit w i) (rev [0..<32]))))"

definition ffsl_index :: "u32 \<Rightarrow> int" where
  "ffsl_index w = ffsl w - 1"

definition flsl_index :: "u32 \<Rightarrow> int" where
  "flsl_index w = flsl w - 1"

definition BITMAP_LAST_WORD_MASK :: "nat \<Rightarrow> u32" where
  "BITMAP_LAST_WORD_MASK n = drop_bit (32 - n) (NOT 0)"

definition word_at :: "u32 list \<Rightarrow> int \<Rightarrow> u32 option" where
  "word_at addr pos = (if 0 \<le> pos \<and> nat pos < length addr then Some (addr ! nat pos) else None)"

text \<open>The \<open>for\<close> loop over whole words and the partial last word, shared by four searches.\<close>

fun scan_words :: "(u32 \<Rightarrow> u32) \<Rightarrow> u32 list \<Rightarrow> nat \<Rightarrow> int \<Rightarrow> int option" where
  "scan_words v addr sz b =
     (if sz \<ge> 32 then
        (case addr of
           [] \<Rightarrow> None
         | w # ws \<Rightarrow>
             if v w = 0 then scan_words v ws (sz - 32) (b + 32)
             else Some (b + ffsl_index (v w)))
      else if sz \<noteq> 0 then
        (case addr of
           [] \<Rightarrow> None
         | w # ws \<Rightarrow>
             (let m = v w AND BITMAP_LAST_WORD_MASK sz
              in if m \<noteq> 0 then Some (b + ffsl_index m) else Some (b + int sz)))
      else Some b)"

definition find_first_bit :: "u32 list \<Rightarrow> nat \<Rightarrow> int option" where
  "find_first_bit addr sz = scan_words (\<lambda>w. w) addr sz 0"

definition find_first_zero_bit :: "u32 list \<Rightarrow> nat \<Rightarrow> int option" where
  "find_first_zero_bit addr sz = scan_words (\<lambda>w. NOT w) addr sz 0"

definition find_next :: "(u32 \<Rightarrow> u32) \<Rightarrow> u32 list \<Rightarrow> nat \<Rightarrow> nat \<Rightarrow> int option" where
  "find_next v addr sz offset =
     (if offset \<ge> sz then Some (int sz)
      else
        let pos = offset div 32; offs = offset mod 32; b = 32 * pos
        in if offs \<noteq> 0 then
             (case word_at addr (int pos) of
                None \<Rightarrow> None
              | Some w \<Rightarrow>
                  let m = v w AND NOT (BITMAP_LAST_WORD_MASK offs)
                  in if m \<noteq> 0 then Some (int b + ffsl_index m)
                     else if sz - b \<le> 32 then Some (int sz)
                     else scan_words v (drop (pos + 1) addr) (sz - (b + 32)) (int b + 32))
           else scan_words v (drop pos addr) (sz - b) (int b))"

definition find_next_bit :: "u32 list \<Rightarrow> nat \<Rightarrow> nat \<Rightarrow> int option" where
  "find_next_bit = find_next (\<lambda>w. w)"

definition find_next_zero_bit :: "u32 list \<Rightarrow> nat \<Rightarrow> nat \<Rightarrow> int option" where
  "find_next_zero_bit = find_next (\<lambda>w. NOT w)"

text \<open>
  The backward loop of \<open>find_last_bit\<close>: \<open>while (--pos)\<close> tests the decremented position, and
  the result is computed from \<open>mask\<close>, which is 0 there. Below position 0 it reads before
  the array.
\<close>

fun last_loop :: "u32 list \<Rightarrow> nat \<Rightarrow> u32 \<Rightarrow> int \<Rightarrow> int \<Rightarrow> nat \<Rightarrow> int option" where
  "last_loop addr sz m b pos 0 = None"
| "last_loop addr sz m b pos (Suc fuel) =
     (let pos' = pos - 1
      in if pos' = 0 then Some (int sz)
         else (case word_at addr pos' of
                 None \<Rightarrow> None
               | Some w \<Rightarrow>
                   if w \<noteq> 0 then Some (b - 32 + flsl_index m)
                   else last_loop addr sz m (b - 32) pos' fuel))"

definition find_last_bit :: "u32 list \<Rightarrow> nat \<Rightarrow> int option" where
  "find_last_bit addr sz =
     (let pos = sz div 32; offs = sz mod 32; b = 32 * pos
      in if offs \<noteq> 0 then
           (case word_at addr (int pos) of
              None \<Rightarrow> None
            | Some w \<Rightarrow>
                let m = w AND BITMAP_LAST_WORD_MASK offs
                in if m \<noteq> 0 then Some (int b + flsl_index m)
                   else last_loop addr sz m (int b) (int pos) (pos + 1))
         else last_loop addr sz 0 (int b) (int pos) (pos + 1))"

text \<open>
  What the searches promise: \<open>bm_bit v addr i\<close> is bit \<open>i\<close> of the viewed bitmap, and
  \<open>first_from v addr lo sz r\<close> says that \<open>r\<close> is its first set bit in \<open>[lo, sz)\<close>, or \<open>sz\<close>.
\<close>

definition bm_bit :: "(u32 \<Rightarrow> u32) \<Rightarrow> u32 list \<Rightarrow> nat \<Rightarrow> bool" where
  "bm_bit v addr i = bit (v (addr ! (i div 32))) (i mod 32)"

definition first_from :: "(u32 \<Rightarrow> u32) \<Rightarrow> u32 list \<Rightarrow> nat \<Rightarrow> nat \<Rightarrow> nat \<Rightarrow> bool" where
  "first_from v addr lo sz r \<longleftrightarrow>
     lo \<le> r \<and> r \<le> sz \<and> (\<forall>i\<in>{lo..<r}. \<not> bm_bit v addr i) \<and> (r < sz \<longrightarrow> bm_bit v addr r)"

declare scan_words.simps [simp del]

section \<open>Lemmas\<close>

lemma word_nz_bit: "w \<noteq> 0 \<Longrightarrow> \<exists>i<32. bit w i" for w :: u32
  using bit_imp_le_length [of w] by (auto simp: bit_eq_iff)

lemma ffsl_index_first:
  assumes "w \<noteq> 0"
  obtains k where "k < 32" "ffsl_index w = int k" "bit w k" "\<forall>i<k. \<not> bit w i"
proof -
  let ?k = "length (takeWhile (\<lambda>i. \<not> bit w i) [0..<32])"
  obtain j where j: "j < 32" "bit w j" using word_nz_bit [OF assms] by blast
  have "\<not> (\<forall>x \<in> set [0..<32]. \<not> bit w x)" using j by auto
  then have "?k \<noteq> length [0..<32]"
    by (metis takeWhile_eq_all_conv takeWhile_eq_take take_all order.refl)
  then have k: "?k < 32"
    using length_takeWhile_le [of "\<lambda>i. \<not> bit w i" "[0..<32]"] by simp
  then have "bit w ?k"
    using nth_length_takeWhile [of "\<lambda>i. \<not> bit w i" "[0..<32]"] by simp
  moreover have "\<forall>i<?k. \<not> bit w i"
  proof (intro allI impI)
    fix i assume i: "i < ?k"
    then have "\<not> bit w (takeWhile (\<lambda>i. \<not> bit w i) [0..<32] ! i)"
      using nth_mem set_takeWhileD by metis
    then show "\<not> bit w i" using takeWhile_nth [OF i] i k by simp
  qed
  ultimately show thesis using that k assms by (simp add: ffsl_index_def ffsl_def)
qed

lemma bit_LAST_WORD_MASK [simp]:
  "n \<le> 32 \<Longrightarrow> bit (BITMAP_LAST_WORD_MASK n) i \<longleftrightarrow> i < n"
  by (auto simp: BITMAP_LAST_WORD_MASK_def bit_drop_bit_eq bit_not_iff bit_mask_iff)

lemma bm_bit_Cons:
  "bm_bit v (w # ws) i = (if i < 32 then bit (v w) i else bm_bit v ws (i - 32))"
  by (auto simp: bm_bit_def nth_Cons' div_less le_div_geq le_mod_geq)

lemma bm_bit_drop: "p \<le> length ws \<Longrightarrow> bm_bit v (drop p ws) i = bm_bit v ws (32 * p + i)"
  by (simp add: bm_bit_def)

lemma first_from_Cons_skip:
  assumes "v w = 0" "first_from v ws 0 (sz - 32) r" "32 \<le> sz"
  shows "first_from v (w # ws) 0 sz (r + 32)"
  using assms by (auto simp: first_from_def bm_bit_Cons less_diff_conv2)

text \<open>The word loop finds the first set bit of what is left of the bitmap, and reads only it.\<close>

lemma scan_words_first:
  assumes "sz \<le> 32 * length ws"
  shows "\<exists>r. scan_words v ws sz b = Some (b + int r) \<and> first_from v ws 0 sz r"
  using assms
proof (induction v ws sz b rule: scan_words.induct)
  case (1 v addr sz b)
  show ?case
  proof (cases addr)
    case Nil
    then show ?thesis
      using 1(2) by (simp add: scan_words.simps [of v "[]"] first_from_def)
  next
    case (Cons w ws)
    consider (skip) "32 \<le> sz" "v w = 0" | (hit) "32 \<le> sz" "v w \<noteq> 0"
      | (part) "sz < 32" "v w AND BITMAP_LAST_WORD_MASK sz \<noteq> 0"
      | (none) "sz < 32" "v w AND BITMAP_LAST_WORD_MASK sz = 0"
      by linarith
    then show ?thesis
    proof cases
      case skip
      then have "\<exists>r. scan_words v ws (sz - 32) (b + 32) = Some (b + 32 + int r)
                   \<and> first_from v ws 0 (sz - 32) r"
        using 1 Cons by auto
      then obtain r where r: "scan_words v ws (sz - 32) (b + 32) = Some (b + int (r + 32))"
        "first_from v ws 0 (sz - 32) r" by (auto simp: algebra_simps)
      then have "scan_words v addr sz b = Some (b + int (r + 32))"
        using skip Cons by (simp add: scan_words.simps [of v "w # ws"])
      then show ?thesis
        using first_from_Cons_skip [of v w ws sz r] skip r(2) Cons by blast
    next
      case hit
      obtain k where k: "k < 32" "ffsl_index (v w) = int k" "bit (v w) k"
        "\<forall>i<k. \<not> bit (v w) i" by (rule ffsl_index_first [OF hit(2)])
      then show ?thesis
        using hit Cons
        by (intro exI [of _ k])
           (simp add: scan_words.simps [of v "w # ws"] first_from_def bm_bit_Cons)
    next
      case part
      obtain k where k: "k < 32" "ffsl_index (v w AND BITMAP_LAST_WORD_MASK sz) = int k"
        "bit (v w AND BITMAP_LAST_WORD_MASK sz) k"
        "\<forall>i<k. \<not> bit (v w AND BITMAP_LAST_WORD_MASK sz) i" by (rule ffsl_index_first [OF part(2)])
      then have "bit (v w) k" "k < sz" "\<forall>i<k. \<not> bit (v w) i"
        using part by (auto simp: bit_and_iff)
      moreover have "sz \<noteq> 0" using \<open>k < sz\<close> by simp
      ultimately show ?thesis
        using part Cons k(2)
        by (intro exI [of _ k])
           (simp add: scan_words.simps [of v "w # ws"] first_from_def bm_bit_Cons Let_def)
    next
      case none
      have "\<not> bit (v w) i" if "i < sz" for i
        using none that bit_and_iff [of "v w" "BITMAP_LAST_WORD_MASK sz" i] by simp
      then show ?thesis
        using none Cons
        by (intro exI [of _ sz])
           (simp add: scan_words.simps [of v "w # ws"] first_from_def bm_bit_Cons Let_def)
    qed
  qed
qed

lemma first_from_drop:
  assumes "p \<le> length ws" "first_from v (drop p ws) 0 (sz - 32 * p) r" "32 * p \<le> sz"
    "lo \<le> 32 * p" "\<forall>i\<in>{lo..<32 * p}. \<not> bm_bit v ws i"
  shows "first_from v ws lo sz (32 * p + r)"
proof -
  have "\<not> bm_bit v ws i" if "i \<in> {lo..<32 * p + r}" for i
  proof (cases "i < 32 * p")
    case False
    then have "bm_bit v ws i = bm_bit v (drop p ws) (i - 32 * p)"
      using assms(1) by (simp add: bm_bit_drop)
    then show ?thesis using False that assms(2) by (auto simp: first_from_def)
  qed (use assms(5) that in auto)
  then show ?thesis
    using assms by (auto simp: first_from_def bm_bit_drop)
qed

lemma bm_bit_word: "j < 32 \<Longrightarrow> bm_bit v ws (32 * p + j) = bit (v (ws ! p)) j"
  by (simp add: bm_bit_def)

lemma partial_word_bit:
  "offs < 32 \<Longrightarrow> bit (w AND NOT (BITMAP_LAST_WORD_MASK offs)) i \<longleftrightarrow> bit w i \<and> offs \<le> i"
  using bit_imp_le_length [of w i] by (auto simp: bit_and_iff bit_not_iff)

text \<open>A search that goes on at a word boundary.\<close>

lemma scan_words_drop:
  assumes "sz \<le> 32 * length ws" "32 * p \<le> sz" "lo \<le> 32 * p"
    "\<forall>i\<in>{lo..<32 * p}. \<not> bm_bit v ws i"
  shows "\<exists>r. scan_words v (drop p ws) (sz - 32 * p) (int (32 * p)) = Some (int r)
           \<and> first_from v ws lo sz r"
proof -
  have "sz - 32 * p \<le> 32 * length (drop p ws)" using assms(1) by simp
  from scan_words_first [OF this]
  obtain r where r: "scan_words v (drop p ws) (sz - 32 * p) (int (32 * p))
      = Some (int (32 * p) + int r)" "first_from v (drop p ws) 0 (sz - 32 * p) r" by metis
  have "first_from v ws lo sz (32 * p + r)"
    using assms r(2) by (intro first_from_drop) auto
  then show ?thesis using r(1) by (intro exI [of _ "32 * p + r"]) simp
qed

text \<open>
  A search from an unaligned offset looks at the rest of the first word unmasked: its answer is
  the first set bit at or after the offset, which can lie past \<open>sz\<close> in the last word.
\<close>

lemma first_from_partial_hit:
  assumes "offs < 32" "32 * p + offs < sz" "v (ws ! p) AND NOT (BITMAP_LAST_WORD_MASK offs) \<noteq> 0"
  shows "\<exists>k. ffsl_index (v (ws ! p) AND NOT (BITMAP_LAST_WORD_MASK offs)) = int k
           \<and> first_from v ws (32 * p + offs) sz (min (32 * p + k) sz)"
proof -
  let ?m = "v (ws ! p) AND NOT (BITMAP_LAST_WORD_MASK offs)"
  obtain k where k: "k < 32" "ffsl_index ?m = int k" "bit ?m k" "\<forall>i<k. \<not> bit ?m i"
    by (rule ffsl_index_first [OF assms(3)])
  have ko: "offs \<le> k" "bit (v (ws ! p)) k" using k(3) assms(1) by (simp_all add: partial_word_bit)
  have "\<not> bm_bit v ws i" if i: "32 * p + offs \<le> i" "i < 32 * p + k" for i
  proof -
    obtain j where j: "i = 32 * p + j" using i(1) nat_le_iff_add by (metis add.assoc)
    then show ?thesis
      using i k(1,4) assms(1) by (auto simp: bm_bit_word partial_word_bit)
  qed
  moreover have "bm_bit v ws (32 * p + k)" using k(1) ko(2) by (simp add: bm_bit_word)
  ultimately have "first_from v ws (32 * p + offs) sz (min (32 * p + k) sz)"
    using ko assms(2) by (auto simp: first_from_def min_def)
  then show ?thesis using k(2) by blast
qed

lemma partial_word_clear:
  assumes "offs < 32" "v (ws ! p) AND NOT (BITMAP_LAST_WORD_MASK offs) = 0"
    "32 * p + offs \<le> i" "i < 32 * p + 32"
  shows "\<not> bm_bit v ws i"
proof -
  obtain j where j: "i = 32 * p + j" using assms(3) nat_le_iff_add by (metis add.assoc)
  then have "j < 32" "offs \<le> j" using assms(3,4) by auto
  moreover have "\<not> bit (v (ws ! p) AND NOT (BITMAP_LAST_WORD_MASK offs)) j"
    using assms(2) by simp
  ultimately show ?thesis using assms(1) j by (simp add: bm_bit_word partial_word_bit)
qed

lemma find_next_first:
  assumes sz: "sz \<le> 32 * length ws" and off: "off < sz"
  shows "\<exists>r. find_next v ws sz off = Some (int r) \<and> first_from v ws off sz (min r sz)"
proof -
  define p where "p = off div 32"
  define offs where "offs = off mod 32"
  have offs: "offs < 32" and o: "off = 32 * p + offs" by (simp_all add: offs_def p_def)
  have wa: "word_at ws (int p) = Some (ws ! p)" using sz off o by (simp add: word_at_def)
  let ?m = "v (ws ! p) AND NOT (BITMAP_LAST_WORD_MASK offs)"
  have unf: "find_next v ws sz off =
      (if offs = 0 then scan_words v (drop p ws) (sz - 32 * p) (int (32 * p))
       else if ?m \<noteq> 0 then Some (int (32 * p) + ffsl_index ?m)
       else if sz - 32 * p \<le> 32 then Some (int sz)
       else scan_words v (drop (p + 1) ws) (sz - 32 * (p + 1)) (int (32 * (p + 1))))"
    using off wa by (simp add: find_next_def Let_def p_def offs_def algebra_simps)
  have min_id: "\<exists>r. X = Some (int r) \<and> first_from v ws off sz r \<Longrightarrow>
      \<exists>r. X = Some (int r) \<and> first_from v ws off sz (min r sz)" for X
    by (auto simp: first_from_def min_def)
  consider (aligned) "offs = 0" | (hit) "offs \<noteq> 0" "?m \<noteq> 0"
    | (last) "offs \<noteq> 0" "?m = 0" "sz \<le> 32 * p + 32"
    | (more) "offs \<noteq> 0" "?m = 0" "32 * p + 32 < sz" by linarith
  then show ?thesis
  proof cases
    case aligned
    then have "\<exists>r. scan_words v (drop p ws) (sz - 32 * p) (int (32 * p)) = Some (int r)
        \<and> first_from v ws off sz r"
      using sz off o by (intro scan_words_drop) auto
    then show ?thesis using aligned unf by (simp add: min_id)
  next
    case hit
    then show ?thesis
      using first_from_partial_hit [where v = v and ws = ws and p = p, OF offs _ hit(2), of sz] off o unf
      by force
  next
    case last
    then have "first_from v ws off sz sz"
      using partial_word_clear [where v = v and ws = ws and p = p, OF offs last(2)] o off by (auto simp: first_from_def)
    then show ?thesis using last unf by (intro min_id) auto
  next
    case more
    then have "\<exists>r. scan_words v (drop (p + 1) ws) (sz - 32 * (p + 1)) (int (32 * (p + 1)))
        = Some (int r) \<and> first_from v ws off sz r"
      using partial_word_clear [where v = v and ws = ws and p = p, OF offs more(2)] sz o offs
      by (intro scan_words_drop) auto
    then show ?thesis using more unf by (intro min_id) auto
  qed
qed

section \<open>Properties\<close>

text \<open>
  \<open>find_first_bit\<close> and \<open>find_first_zero_bit\<close> read only words of the bitmap and return the
  index of the first set (clear) bit below \<open>sz\<close>, or \<open>sz\<close> when there is none.
\<close>

theorem find_first_bits_correct:
  assumes "sz \<le> 32 * length addr"
  shows "(\<exists>r. find_first_bit addr sz = Some (int r) \<and> first_from (\<lambda>w. w) addr 0 sz r) \<and>
         (\<exists>r. find_first_zero_bit addr sz = Some (int r) \<and> first_from (\<lambda>w. NOT w) addr 0 sz r)"
  using scan_words_first [OF assms, of "\<lambda>w. w" 0] scan_words_first [OF assms, of "\<lambda>w. NOT w" 0]
  by (simp add: find_first_bit_def find_first_zero_bit_def)

theorem find_first_bits_correct_witness:
  "(\<exists>r. find_first_bit [0, 0x50] 40 = Some (int r) \<and> first_from (\<lambda>w. w) [0, 0x50] 0 40 r) \<and>
   find_first_bit [0, 0x50] 40 = Some 36 \<and> find_first_zero_bit [0xFFFFFFFF, 0x57] 40 = Some 35"
proof -
  have "find_first_bit [0, 0x50] 40 = Some 36" by code_simp
  moreover have "find_first_zero_bit [0xFFFFFFFF, 0x57] 40 = Some 35" by code_simp
  ultimately show ?thesis using find_first_bits_correct [of 40 "[0, 0x50]"] by simp
qed

text \<open>
  C29. \<open>find_next_bit\<close> and \<open>find_next_zero_bit\<close> from an offset inside the bitmap read only its
  words, and the returned index, cut at \<open>sz\<close>, is the first set (clear) bit in \<open>[off, sz)\<close>, or
  \<open>sz\<close> when there is none: a caller that treats every index \<open>\<ge> sz\<close> as not found is right.
\<close>

theorem find_next_bits_correct:
  assumes "sz \<le> 32 * length addr" and "off < sz"
  shows "(\<exists>r. find_next_bit addr sz off = Some (int r)
              \<and> first_from (\<lambda>w. w) addr off sz (min r sz)) \<and>
         (\<exists>r. find_next_zero_bit addr sz off = Some (int r)
              \<and> first_from (\<lambda>w. NOT w) addr off sz (min r sz))"
  using find_next_first [OF assms] by (simp add: find_next_bit_def find_next_zero_bit_def)

theorem find_next_bits_correct_witness:
  "(\<exists>r. find_next_bit [0x7, 0x50] 40 3 = Some (int r)
        \<and> first_from (\<lambda>w. w) [0x7, 0x50] 3 40 (min r 40)) \<and>
   find_next_bit [0x7, 0x50] 40 3 = Some 36"
proof -
  have "find_next_bit [0x7, 0x50] 40 3 = Some 36" by code_simp
  then show ?thesis using find_next_bits_correct [of 40 "[0x7, 0x50]" 3] by simp
qed

end
