(* ===== verification/Crc.thy ===== *)
theory Crc
  imports Prelude
begin

text \<open>
  The checksums of \<open>lib/libcrc16.c\<close> and \<open>lib/libcrc32.c\<close> (byte tables) and the one the boot
  loader computes over a firmware image with a nibble table (\<open>crc32_update\<close> in
  \<open>boot/boot.c\<close>). The tables are the source's; the lemmas show that they are the ones of the
  polynomials, that all routines compute the shift register bit by bit, that a checksum may be
  computed chunk by chunk, and which corruptions it always detects.
\<close>

section \<open>Definitions\<close>

definition crc16_tab :: "u16 list" where
  "crc16_tab =
    [0x0000, 0x1021, 0x2042, 0x3063, 0x4084, 0x50a5, 0x60c6, 0x70e7,
     0x8108, 0x9129, 0xa14a, 0xb16b, 0xc18c, 0xd1ad, 0xe1ce, 0xf1ef,
     0x1231, 0x0210, 0x3273, 0x2252, 0x52b5, 0x4294, 0x72f7, 0x62d6,
     0x9339, 0x8318, 0xb37b, 0xa35a, 0xd3bd, 0xc39c, 0xf3ff, 0xe3de,
     0x2462, 0x3443, 0x0420, 0x1401, 0x64e6, 0x74c7, 0x44a4, 0x5485,
     0xa56a, 0xb54b, 0x8528, 0x9509, 0xe5ee, 0xf5cf, 0xc5ac, 0xd58d,
     0x3653, 0x2672, 0x1611, 0x0630, 0x76d7, 0x66f6, 0x5695, 0x46b4,
     0xb75b, 0xa77a, 0x9719, 0x8738, 0xf7df, 0xe7fe, 0xd79d, 0xc7bc,
     0x48c4, 0x58e5, 0x6886, 0x78a7, 0x0840, 0x1861, 0x2802, 0x3823,
     0xc9cc, 0xd9ed, 0xe98e, 0xf9af, 0x8948, 0x9969, 0xa90a, 0xb92b,
     0x5af5, 0x4ad4, 0x7ab7, 0x6a96, 0x1a71, 0x0a50, 0x3a33, 0x2a12,
     0xdbfd, 0xcbdc, 0xfbbf, 0xeb9e, 0x9b79, 0x8b58, 0xbb3b, 0xab1a,
     0x6ca6, 0x7c87, 0x4ce4, 0x5cc5, 0x2c22, 0x3c03, 0x0c60, 0x1c41,
     0xedae, 0xfd8f, 0xcdec, 0xddcd, 0xad2a, 0xbd0b, 0x8d68, 0x9d49,
     0x7e97, 0x6eb6, 0x5ed5, 0x4ef4, 0x3e13, 0x2e32, 0x1e51, 0x0e70,
     0xff9f, 0xefbe, 0xdfdd, 0xcffc, 0xbf1b, 0xaf3a, 0x9f59, 0x8f78,
     0x9188, 0x81a9, 0xb1ca, 0xa1eb, 0xd10c, 0xc12d, 0xf14e, 0xe16f,
     0x1080, 0x00a1, 0x30c2, 0x20e3, 0x5004, 0x4025, 0x7046, 0x6067,
     0x83b9, 0x9398, 0xa3fb, 0xb3da, 0xc33d, 0xd31c, 0xe37f, 0xf35e,
     0x02b1, 0x1290, 0x22f3, 0x32d2, 0x4235, 0x5214, 0x6277, 0x7256,
     0xb5ea, 0xa5cb, 0x95a8, 0x8589, 0xf56e, 0xe54f, 0xd52c, 0xc50d,
     0x34e2, 0x24c3, 0x14a0, 0x0481, 0x7466, 0x6447, 0x5424, 0x4405,
     0xa7db, 0xb7fa, 0x8799, 0x97b8, 0xe75f, 0xf77e, 0xc71d, 0xd73c,
     0x26d3, 0x36f2, 0x0691, 0x16b0, 0x6657, 0x7676, 0x4615, 0x5634,
     0xd94c, 0xc96d, 0xf90e, 0xe92f, 0x99c8, 0x89e9, 0xb98a, 0xa9ab,
     0x5844, 0x4865, 0x7806, 0x6827, 0x18c0, 0x08e1, 0x3882, 0x28a3,
     0xcb7d, 0xdb5c, 0xeb3f, 0xfb1e, 0x8bf9, 0x9bd8, 0xabbb, 0xbb9a,
     0x4a75, 0x5a54, 0x6a37, 0x7a16, 0x0af1, 0x1ad0, 0x2ab3, 0x3a92,
     0xfd2e, 0xed0f, 0xdd6c, 0xcd4d, 0xbdaa, 0xad8b, 0x9de8, 0x8dc9,
     0x7c26, 0x6c07, 0x5c64, 0x4c45, 0x3ca2, 0x2c83, 0x1ce0, 0x0cc1,
     0xef1f, 0xff3e, 0xcf5d, 0xdf7c, 0xaf9b, 0xbfba, 0x8fd9, 0x9ff8,
     0x6e17, 0x7e36, 0x4e55, 0x5e74, 0x2e93, 0x3eb2, 0x0ed1, 0x1ef0]"

definition lib_crc16part :: "u8 list \<Rightarrow> u16 \<Rightarrow> u16" where
  "lib_crc16part src crc16val =
     fold (\<lambda>b c. crc16_tab ! unat ((drop_bit 8 c AND 0xff) XOR ucast b) XOR push_bit 8 c)
       src crc16val"

definition lib_crc16 :: "u8 list \<Rightarrow> u16" where
  "lib_crc16 src = lib_crc16part src 0"

definition crc32_tab :: "u32 list" where
  "crc32_tab =
    [0x00000000, 0x77073096, 0xee0e612c, 0x990951ba, 0x076dc419, 0x706af48f,
     0xe963a535, 0x9e6495a3, 0x0edb8832, 0x79dcb8a4, 0xe0d5e91e, 0x97d2d988,
     0x09b64c2b, 0x7eb17cbd, 0xe7b82d07, 0x90bf1d91, 0x1db71064, 0x6ab020f2,
     0xf3b97148, 0x84be41de, 0x1adad47d, 0x6ddde4eb, 0xf4d4b551, 0x83d385c7,
     0x136c9856, 0x646ba8c0, 0xfd62f97a, 0x8a65c9ec, 0x14015c4f, 0x63066cd9,
     0xfa0f3d63, 0x8d080df5, 0x3b6e20c8, 0x4c69105e, 0xd56041e4, 0xa2677172,
     0x3c03e4d1, 0x4b04d447, 0xd20d85fd, 0xa50ab56b, 0x35b5a8fa, 0x42b2986c,
     0xdbbbc9d6, 0xacbcf940, 0x32d86ce3, 0x45df5c75, 0xdcd60dcf, 0xabd13d59,
     0x26d930ac, 0x51de003a, 0xc8d75180, 0xbfd06116, 0x21b4f4b5, 0x56b3c423,
     0xcfba9599, 0xb8bda50f, 0x2802b89e, 0x5f058808, 0xc60cd9b2, 0xb10be924,
     0x2f6f7c87, 0x58684c11, 0xc1611dab, 0xb6662d3d, 0x76dc4190, 0x01db7106,
     0x98d220bc, 0xefd5102a, 0x71b18589, 0x06b6b51f, 0x9fbfe4a5, 0xe8b8d433,
     0x7807c9a2, 0x0f00f934, 0x9609a88e, 0xe10e9818, 0x7f6a0dbb, 0x086d3d2d,
     0x91646c97, 0xe6635c01, 0x6b6b51f4, 0x1c6c6162, 0x856530d8, 0xf262004e,
     0x6c0695ed, 0x1b01a57b, 0x8208f4c1, 0xf50fc457, 0x65b0d9c6, 0x12b7e950,
     0x8bbeb8ea, 0xfcb9887c, 0x62dd1ddf, 0x15da2d49, 0x8cd37cf3, 0xfbd44c65,
     0x4db26158, 0x3ab551ce, 0xa3bc0074, 0xd4bb30e2, 0x4adfa541, 0x3dd895d7,
     0xa4d1c46d, 0xd3d6f4fb, 0x4369e96a, 0x346ed9fc, 0xad678846, 0xda60b8d0,
     0x44042d73, 0x33031de5, 0xaa0a4c5f, 0xdd0d7cc9, 0x5005713c, 0x270241aa,
     0xbe0b1010, 0xc90c2086, 0x5768b525, 0x206f85b3, 0xb966d409, 0xce61e49f,
     0x5edef90e, 0x29d9c998, 0xb0d09822, 0xc7d7a8b4, 0x59b33d17, 0x2eb40d81,
     0xb7bd5c3b, 0xc0ba6cad, 0xedb88320, 0x9abfb3b6, 0x03b6e20c, 0x74b1d29a,
     0xead54739, 0x9dd277af, 0x04db2615, 0x73dc1683, 0xe3630b12, 0x94643b84,
     0x0d6d6a3e, 0x7a6a5aa8, 0xe40ecf0b, 0x9309ff9d, 0x0a00ae27, 0x7d079eb1,
     0xf00f9344, 0x8708a3d2, 0x1e01f268, 0x6906c2fe, 0xf762575d, 0x806567cb,
     0x196c3671, 0x6e6b06e7, 0xfed41b76, 0x89d32be0, 0x10da7a5a, 0x67dd4acc,
     0xf9b9df6f, 0x8ebeeff9, 0x17b7be43, 0x60b08ed5, 0xd6d6a3e8, 0xa1d1937e,
     0x38d8c2c4, 0x4fdff252, 0xd1bb67f1, 0xa6bc5767, 0x3fb506dd, 0x48b2364b,
     0xd80d2bda, 0xaf0a1b4c, 0x36034af6, 0x41047a60, 0xdf60efc3, 0xa867df55,
     0x316e8eef, 0x4669be79, 0xcb61b38c, 0xbc66831a, 0x256fd2a0, 0x5268e236,
     0xcc0c7795, 0xbb0b4703, 0x220216b9, 0x5505262f, 0xc5ba3bbe, 0xb2bd0b28,
     0x2bb45a92, 0x5cb36a04, 0xc2d7ffa7, 0xb5d0cf31, 0x2cd99e8b, 0x5bdeae1d,
     0x9b64c2b0, 0xec63f226, 0x756aa39c, 0x026d930a, 0x9c0906a9, 0xeb0e363f,
     0x72076785, 0x05005713, 0x95bf4a82, 0xe2b87a14, 0x7bb12bae, 0x0cb61b38,
     0x92d28e9b, 0xe5d5be0d, 0x7cdcefb7, 0x0bdbdf21, 0x86d3d2d4, 0xf1d4e242,
     0x68ddb3f8, 0x1fda836e, 0x81be16cd, 0xf6b9265b, 0x6fb077e1, 0x18b74777,
     0x88085ae6, 0xff0f6a70, 0x66063bca, 0x11010b5c, 0x8f659eff, 0xf862ae69,
     0x616bffd3, 0x166ccf45, 0xa00ae278, 0xd70dd2ee, 0x4e048354, 0x3903b3c2,
     0xa7672661, 0xd06016f7, 0x4969474d, 0x3e6e77db, 0xaed16a4a, 0xd9d65adc,
     0x40df0b66, 0x37d83bf0, 0xa9bcae53, 0xdebb9ec5, 0x47b2cf7f, 0x30b5ffe9,
     0xbdbdf21c, 0xcabac28a, 0x53b39330, 0x24b4a3a6, 0xbad03605, 0xcdd70693,
     0x54de5729, 0x23d967bf, 0xb3667a2e, 0xc4614ab8, 0x5d681b02, 0x2a6f2b94,
     0xb40bbe37, 0xc30c8ea1, 0x5a05df1b, 0x2d02ef8d]"

definition lib_crc32part :: "u8 list \<Rightarrow> u32 \<Rightarrow> u32" where
  "lib_crc32part src crc32val =
     fold (\<lambda>b c. crc32_tab ! unat ((c AND 0xff) XOR ucast b) XOR drop_bit 8 c) src crc32val"

definition lib_crc32 :: "u8 list \<Rightarrow> u32" where
  "lib_crc32 src = lib_crc32part src 0"

definition boot_table :: "u32 list" where
  "boot_table =
    [0x00000000, 0x1db71064, 0x3b6e20c8, 0x26d930ac,
     0x76dc4190, 0x6b6b51f4, 0x4db26158, 0x5005713c,
     0xedb88320, 0xf00f9344, 0xd6d6a3e8, 0xcb61b38c,
     0x9b64c2b0, 0x86d3d2d4, 0xa00ae278, 0xbdbdf21c]"

definition crc32_update :: "u32 \<Rightarrow> u8 list \<Rightarrow> u32" where
  "crc32_update crc data =
     NOT (fold (\<lambda>b c.
       let c1 = drop_bit 4 c XOR boot_table ! unat ((c XOR ucast b) AND 0x0f)
       in drop_bit 4 c1 XOR boot_table ! unat ((c1 XOR drop_bit 4 (ucast b)) AND 0x0f))
       data (NOT crc))"

text \<open>
  The shift registers of the two polynomials: CRC-16/CCITT takes its bits from the top, CRC-32
  (reflected) from the bottom.
\<close>

definition crc16_bit :: "u16 \<Rightarrow> u16" where
  "crc16_bit c = (if bit c 15 then push_bit 1 c XOR 0x1021 else push_bit 1 c)"

definition crc32_bit :: "u32 \<Rightarrow> u32" where
  "crc32_bit c = (if bit c 0 then drop_bit 1 c XOR 0xedb88320 else drop_bit 1 c)"

definition crc16_serial :: "u8 list \<Rightarrow> u16 \<Rightarrow> u16" where
  "crc16_serial bs c = fold (\<lambda>b c. (crc16_bit ^^ 8) (c XOR push_bit 8 (ucast b))) bs c"

definition crc32_serial :: "u8 list \<Rightarrow> u32 \<Rightarrow> u32" where
  "crc32_serial bs c = fold (\<lambda>b c. (crc32_bit ^^ 8) (c XOR ucast b)) bs c"

section \<open>Tables of linear functions\<close>

text \<open>
  The shift registers are linear over XOR, so a table of \<open>2^(k+1)\<close> entries is the one of
  \<open>2^k\<close> entries and its copy with the entry for \<open>2^k\<close> added.
\<close>

definition xor_linear :: "('a::len word \<Rightarrow> 'a word) \<Rightarrow> bool" where
  "xor_linear f \<longleftrightarrow> (\<forall>x y. f (x XOR y) = f x XOR f y)"

definition xor_table :: "('a::len word \<Rightarrow> 'a word) \<Rightarrow> nat \<Rightarrow> 'a word list" where
  "xor_table f k = map (\<lambda>t. f (of_nat t)) [0..<2 ^ k]"

lemma xor_linearD: "xor_linear f \<Longrightarrow> f (x XOR y) = f x XOR f y"
  by (simp add: xor_linear_def)

lemma xor_linear_0: "xor_linear f \<Longrightarrow> f 0 = 0"
  by (metis xor_linearD xor_self_eq)

lemma xor_linear_funpow: "xor_linear f \<Longrightarrow> xor_linear (f ^^ n)"
  by (induction n) (auto simp: xor_linear_def)

lemma of_nat_xor_pow:
  assumes "t < 2 ^ k"
  shows "of_nat (2 ^ k + t) = (2 ^ k :: 'a::len word) XOR of_nat t"
proof -
  have "bit t i \<longrightarrow> i < k" for i
    using assms by (metis bit_take_bit_iff take_bit_nat_eq_self)
  then have "(2 ^ k :: 'a word) AND of_nat t = 0"
    by (intro bit_word_eqI) (auto simp: bit_simps)
  then show ?thesis by (simp add: disjunctive_add_eq_xor)
qed

lemma xor_table_0: "xor_linear f \<Longrightarrow> xor_table f 0 = [0]"
  by (simp add: xor_table_def xor_linear_0)

lemma xor_table_Suc:
  assumes "xor_linear f"
  shows "xor_table f (Suc k) = xor_table f k @ map (\<lambda>x. f (2 ^ k) XOR x) (xor_table f k)"
proof -
  have "xor_table f (Suc k) =
      xor_table f k @ map (\<lambda>t. f (of_nat (2 ^ k + t))) [0..<2 ^ k]"
    by (auto simp: xor_table_def list_eq_iff_nth_eq nth_append)
  also have "map (\<lambda>t. f (of_nat (2 ^ k + t))) [0..<2 ^ k]
      = map (\<lambda>t. f (2 ^ k) XOR f (of_nat t)) [0..<2 ^ k]"
    using xor_linearD [OF assms]
    by (intro map_cong refl) (simp only: of_nat_xor_pow set_upt atLeastLessThan_iff)
  finally show ?thesis by (simp add: xor_table_def)
qed

lemma nth_xor_table:
  "unat (x :: 'a::len word) < 2 ^ k \<Longrightarrow> xor_table f k ! unat x = f x"
  by (simp add: xor_table_def)

lemma funpow_8: "(f ^^ 8) x = f (f (f (f (f (f (f (f x)))))))"
  by (simp add: eval_nat_numeral)

lemma funpow_4: "(f ^^ 4) x = f (f (f (f x)))"
  by (simp add: eval_nat_numeral)

section \<open>The tables are the ones of the polynomials\<close>

lemma crc16_bit_linear: "xor_linear crc16_bit"
  by (auto simp: xor_linear_def crc16_bit_def bit_xor_iff ac_simps push_bit_xor)

lemma crc32_bit_linear: "xor_linear crc32_bit"
  by (auto simp: xor_linear_def crc32_bit_def bit_xor_iff ac_simps drop_bit_xor)

lemmas crc16_linear = xor_linear_funpow [OF crc16_bit_linear]
lemmas crc32_linear = xor_linear_funpow [OF crc32_bit_linear]

lemma xor_table_unfold:
  assumes "xor_linear f"
  shows "xor_table f 4 = xor_table f 3 @ map (\<lambda>x. f 8 XOR x) (xor_table f 3)"
    and "xor_table f 3 = xor_table f 2 @ map (\<lambda>x. f 4 XOR x) (xor_table f 2)"
    and "xor_table f 2 = xor_table f (Suc 0) @ map (\<lambda>x. f 2 XOR x) (xor_table f (Suc 0))"
    and "xor_table f (Suc 0) = [0, f 1 XOR 0]"
    and "xor_table f 8 = xor_table f 7 @ map (\<lambda>x. f 128 XOR x) (xor_table f 7)"
    and "xor_table f 7 = xor_table f 6 @ map (\<lambda>x. f 64 XOR x) (xor_table f 6)"
    and "xor_table f 6 = xor_table f 5 @ map (\<lambda>x. f 32 XOR x) (xor_table f 5)"
    and "xor_table f 5 = xor_table f 4 @ map (\<lambda>x. f 16 XOR x) (xor_table f 4)"
  using xor_table_Suc [OF assms, of 3] xor_table_Suc [OF assms, of 2] xor_table_Suc [OF assms, of 1]
    xor_table_Suc [OF assms, of 0] xor_table_0 [OF assms] xor_table_Suc [OF assms, of 7]
    xor_table_Suc [OF assms, of 6] xor_table_Suc [OF assms, of 5] xor_table_Suc [OF assms, of 4]
  by (simp_all add: eval_nat_numeral)

text \<open>
  The entries for the powers of two determine a table; they are computed on the register.
\<close>

lemma crc16_tab_linear:
  assumes "xor_linear f" "f 1 = 0x1021" "f 2 = 0x2042" "f 4 = 0x4084" "f 8 = 0x8108"
    "f 16 = 0x1231" "f 32 = 0x2462" "f 64 = 0x48c4" "f 128 = 0x9188"
  shows "crc16_tab = xor_table f 8"
  by (simp add: assms xor_table_unfold [OF assms(1)] crc16_tab_def)

lemma crc32_tab_linear:
  assumes "xor_linear f" "f 1 = 0x77073096" "f 2 = 0xee0e612c" "f 4 = 0x076dc419"
    "f 8 = 0x0edb8832" "f 16 = 0x1db71064" "f 32 = 0x3b6e20c8" "f 64 = 0x76dc4190"
    "f 128 = 0xedb88320"
  shows "crc32_tab = xor_table f 8"
  by (simp add: assms xor_table_unfold [OF assms(1)] crc32_tab_def)

lemma boot_table_linear:
  assumes "xor_linear f" "f 1 = 0x1db71064" "f 2 = 0x3b6e20c8" "f 4 = 0x76dc4190"
    "f 8 = 0xedb88320"
  shows "boot_table = xor_table f 4"
  by (simp add: assms xor_table_unfold [OF assms(1)] boot_table_def)

lemma crc16_hi_linear: "xor_linear (\<lambda>x. (crc16_bit ^^ 8) (push_bit 8 x))"
  using crc16_linear [of 8] by (simp add: xor_linear_def push_bit_xor)

lemma crc16_tab_eq: "crc16_tab = xor_table (\<lambda>x. (crc16_bit ^^ 8) (push_bit 8 x)) 8"
  by (rule crc16_tab_linear [OF crc16_hi_linear]; unfold funpow_8; code_simp)

lemma crc32_tab_eq: "crc32_tab = xor_table (crc32_bit ^^ 8) 8"
  by (rule crc32_tab_linear [OF crc32_linear]; unfold funpow_8; code_simp)

lemma boot_table_eq: "boot_table = xor_table (crc32_bit ^^ 4) 4"
  by (rule boot_table_linear [OF crc32_linear]; unfold funpow_4; code_simp)

section \<open>The routines compute the shift registers\<close>

lemma crc16_low_byte: "(crc16_bit ^^ 8) (take_bit 8 x) = push_bit 8 x"
proof -
  have "(crc16_bit ^^ n) (take_bit 8 x) = push_bit n (take_bit 8 x)" if "n \<le> 8" for n
    using that
    by (induction n) (auto simp: crc16_bit_def bit_push_bit_iff bit_take_bit_iff)
  then have "(crc16_bit ^^ 8) (take_bit 8 x) = push_bit 8 (take_bit 8 x)" by simp
  also have "\<dots> = push_bit 8 x"
    by (rule bit_word_eqI) (auto simp: bit_push_bit_iff bit_take_bit_iff)
  finally show ?thesis .
qed

lemma take_push_drop: "c = take_bit k c XOR push_bit k (drop_bit k c)" for c :: "'a::len word"
  by (rule bit_word_eqI)
     (auto simp: bit_xor_iff bit_take_bit_iff bit_push_bit_iff bit_drop_bit_eq bit_imp_le_length)

lemma mask_ff: "x AND 0xff = take_bit 8 x" for x :: "'a::len word"
  by (simp add: take_bit_eq_mask mask_eq_exp_minus_1)

lemma mask_0f: "x AND 0x0f = take_bit 4 x" for x :: "'a::len word"
  by (simp add: take_bit_eq_mask mask_eq_exp_minus_1)

lemma unat_take_bit_less: "unat (take_bit k x) < 2 ^ k" for x :: "'a::len word"
  by (simp add: unsigned_take_bit_eq)

lemma take_bit_ucast_byte [simp]: "take_bit 8 (ucast (b :: u8)) = (ucast b :: 'a::len word)"
  by (rule bit_word_eqI) (auto simp: bit_take_bit_iff bit_ucast_iff dest: bit_imp_le_length)

lemma drop_bit_ucast_byte [simp]: "drop_bit 8 (ucast (b :: u8)) = (0 :: 'a::len word)"
  by (rule bit_word_eqI) (auto simp: bit_drop_bit_eq bit_ucast_iff dest: bit_imp_le_length)

lemma crc16_step:
  "crc16_tab ! unat ((drop_bit 8 c AND 0xff) XOR ucast b) XOR push_bit 8 c
     = (crc16_bit ^^ 8) (c XOR push_bit 8 (ucast (b :: u8)))"
proof -
  let ?F = "crc16_bit ^^ 8" and ?h = "drop_bit 8 c XOR ucast b"
  have h: "(drop_bit 8 c AND 0xff) XOR ucast b = ?h" "?h = take_bit 8 ?h"
    by (rule bit_word_eqI; auto simp: mask_ff bit_xor_iff bit_take_bit_iff bit_drop_bit_eq
        bit_ucast_iff dest: bit_imp_le_length)+
  have "unat ?h < 2 ^ 8" by (subst h(2)) (rule unat_take_bit_less)
  then have "crc16_tab ! unat ?h = ?F (push_bit 8 ?h)"
    by (simp add: crc16_tab_eq nth_xor_table)
  moreover have "c XOR push_bit 8 (ucast b) = take_bit 8 c XOR push_bit 8 ?h"
    by (subst take_push_drop [of c 8]) (simp add: push_bit_xor ac_simps)
  ultimately show ?thesis
    unfolding h(1) by (simp add: xor_linearD [OF crc16_linear] crc16_low_byte ac_simps)
qed

lemma crc32_shift:
  assumes "take_bit n x = 0"
  shows "(crc32_bit ^^ n) x = drop_bit n x"
  using assms
proof (induction n)
  case (Suc n)
  have "\<not> bit x i" if "i \<le> n" for i
    using arg_cong [OF Suc.prems, of "\<lambda>y. bit y i"] that by (simp add: bit_take_bit_iff)
  then have "take_bit n x = 0" "\<not> bit (drop_bit n x) 0"
    by (auto intro!: bit_word_eqI simp: bit_take_bit_iff bit_drop_bit_eq)
  then show ?case using Suc.IH by (simp add: crc32_bit_def)
qed simp

lemma crc32_split:
  "(crc32_bit ^^ k) y = (crc32_bit ^^ k) (take_bit k y) XOR drop_bit k y"
proof -
  have "take_bit k (push_bit k (drop_bit k y)) = 0"
    by (rule bit_word_eqI) (auto simp: bit_take_bit_iff bit_push_bit_iff)
  moreover have "drop_bit k (push_bit k (drop_bit k y)) = drop_bit k y"
    by (rule bit_word_eqI) (auto simp: bit_drop_bit_eq bit_push_bit_iff dest: bit_imp_le_length)
  ultimately have "(crc32_bit ^^ k) (push_bit k (drop_bit k y)) = drop_bit k y"
    by (simp add: crc32_shift)
  then show ?thesis
    by (metis take_push_drop xor_linearD [OF crc32_linear])
qed

lemma crc32_step:
  "crc32_tab ! unat ((c AND 0xff) XOR ucast b) XOR drop_bit 8 c
     = (crc32_bit ^^ 8) (c XOR ucast (b :: u8))"
proof -
  have "crc32_tab ! unat (take_bit 8 (c XOR ucast b)) = (crc32_bit ^^ 8) (take_bit 8 (c XOR ucast b))"
    unfolding crc32_tab_eq by (rule nth_xor_table [OF unat_take_bit_less])
  then show ?thesis
    by (subst crc32_split) (simp add: mask_ff drop_bit_xor)
qed

lemma boot_nibble:
  "drop_bit 4 c XOR boot_table ! unat ((c XOR x) AND 0x0f) XOR drop_bit 4 x
     = (crc32_bit ^^ 4) (c XOR x)"
proof -
  have "boot_table ! unat (take_bit 4 (c XOR x)) = (crc32_bit ^^ 4) (take_bit 4 (c XOR x))"
    unfolding boot_table_eq by (rule nth_xor_table [OF unat_take_bit_less])
  then show ?thesis
    by (subst crc32_split) (simp add: mask_0f drop_bit_xor ac_simps)
qed

lemma boot_step:
  fixes b :: u8 and c :: u32
  defines "c1 \<equiv> drop_bit 4 c XOR boot_table ! unat ((c XOR ucast b) AND 0x0f)"
  shows "drop_bit 4 c1 XOR boot_table ! unat ((c1 XOR drop_bit 4 (ucast b)) AND 0x0f)
     = (crc32_bit ^^ 8) (c XOR ucast b)"
proof -
  have "(crc32_bit ^^ 8) (c XOR ucast b) = (crc32_bit ^^ 4) ((crc32_bit ^^ 4) (c XOR ucast b))"
    by (simp add: funpow_4 funpow_8)
  also have "(crc32_bit ^^ 4) (c XOR ucast b) = c1 XOR drop_bit 4 (ucast b)"
    using boot_nibble [of c "ucast b"] by (simp add: c1_def xor.assoc)
  also have "(crc32_bit ^^ 4) (c1 XOR drop_bit 4 (ucast b))
      = drop_bit 4 c1 XOR boot_table ! unat ((c1 XOR drop_bit 4 (ucast b)) AND 0x0f)"
    using boot_nibble [of c1 "drop_bit 4 (ucast b)"] by simp
  finally show ?thesis by simp
qed

lemma lib_crc16part_serial: "lib_crc16part bs c = crc16_serial bs c"
  by (simp add: lib_crc16part_def crc16_serial_def crc16_step)

lemma lib_crc32part_serial: "lib_crc32part bs c = crc32_serial bs c"
  by (simp add: lib_crc32part_def crc32_serial_def crc32_step)

lemma crc32_update_serial: "crc32_update c bs = NOT (crc32_serial bs (NOT c))"
  by (simp only: crc32_update_def crc32_serial_def Let_def boot_step)

section \<open>Error detection\<close>

lemma word_xor_eq_0_iff: "x XOR y = 0 \<longleftrightarrow> x = y" for x y :: "'a::len word"
  by (auto simp: bit_eq_iff bit_xor_iff)

lemma word_xor_right_cancel: "x XOR z = y XOR z \<longleftrightarrow> x = y" for x y z :: "'a::len word"
  by (auto simp: bit_eq_iff bit_xor_iff)

text \<open>
  One step of the CRC-32 register has a trivial kernel, so the register never forgets a
  difference. Up to four bytes enter the register like one word.
\<close>

lemma crc32_bit_inj: "inj crc32_bit"
proof -
  have ker: "x = 0" if "crc32_bit x = 0" for x
  proof (cases "bit x 0")
    case True
    then have "drop_bit 1 x = 0xedb88320" using that by (simp add: crc32_bit_def word_xor_eq_0_iff)
    then have "bit (drop_bit 1 x) 31 = bit (0xedb88320 :: u32) 31" by simp
    moreover have "\<not> bit (drop_bit 1 x) 31"
      using bit_imp_le_length [of x 32] by (auto simp: bit_drop_bit_eq)
    ultimately show ?thesis by simp
  next
    case False
    then have z: "drop_bit 1 x = 0" using that by (simp add: crc32_bit_def)
    have "\<not> bit x i" for i
      using False arg_cong [OF z, of "\<lambda>y. bit y (i - 1)"] by (cases i) (auto simp: bit_drop_bit_eq)
    then show ?thesis by (intro bit_word_eqI) simp
  qed
  show ?thesis
  proof (rule injI)
    fix x y assume "crc32_bit x = crc32_bit y"
    then have "crc32_bit (x XOR y) = 0" by (simp add: xor_linearD [OF crc32_bit_linear])
    then show "x = y" using ker word_xor_eq_0_iff by blast
  qed
qed

lemma crc32_bits_inj: "inj (crc32_bit ^^ n)"
  by (induction n) (auto simp: inj_on_def dest: injD [OF crc32_bit_inj])

lemma crc32_serial_append: "crc32_serial (xs @ ys) c = crc32_serial ys (crc32_serial xs c)"
  by (simp add: crc32_serial_def)

lemma crc32_serial_inj: "inj (crc32_serial bs)"
proof (induction bs)
  case (Cons b bs)
  have "inj (\<lambda>c. (crc32_bit ^^ 8) (c XOR ucast b))"
    by (rule injI) (simp add: inj_eq [OF crc32_bits_inj] word_xor_right_cancel)
  then have "inj (crc32_serial bs \<circ> (\<lambda>c. (crc32_bit ^^ 8) (c XOR ucast b)))"
    using Cons.IH by (rule inj_compose [rotated])
  then show ?case by (simp add: crc32_serial_def comp_def)
qed (simp add: crc32_serial_def inj_on_def)

primrec pack :: "u8 list \<Rightarrow> u32" where
  "pack [] = 0"
| "pack (b # bs) = ucast b XOR push_bit 8 (pack bs)"

lemma bit_pack: "bit (pack bs) i \<Longrightarrow> i < 8 * length bs"
proof (induction bs arbitrary: i)
  case (Cons b bs)
  then have "i < 8 \<or> 8 \<le> i \<and> bit (pack bs) (i - 8)"
    by (auto simp: bit_xor_iff bit_ucast_iff bit_push_bit_iff dest: bit_imp_le_length)
  then show ?case using Cons.IH [of "i - 8"] by auto
qed simp

lemma bit_pack_lo: "i < 8 \<Longrightarrow> bit (pack (b # bs)) i = bit b i"
  by (simp add: bit_xor_iff bit_ucast_iff bit_push_bit_iff)

lemma bit_pack_hi: "i < 24 \<Longrightarrow> bit (pack (b # bs)) (i + 8) = bit (pack bs) i"
  using bit_imp_le_length [of b "i + 8"]
  by (simp add: bit_xor_iff bit_ucast_iff bit_push_bit_iff) blast

lemma pack_inj:
  assumes "length bs = length cs" "length bs \<le> 4" "pack bs = pack cs"
  shows "bs = cs"
  using assms
proof (induction bs cs rule: list_induct2)
  case (Cons b bs c cs)
  have "bit b i = bit c i" if "i < 8" for i
    using bit_pack_lo [OF that] Cons.prems(2) by metis
  then have "b = c" by (intro bit_word_eqI) simp
  moreover have "bit (pack bs) i = bit (pack cs) i" for i
  proof (cases "i < 24")
    case True
    then show ?thesis using bit_pack_hi [OF True] Cons.prems(2) by metis
  next
    case False
    then have "\<not> i < 8 * length bs" using Cons.prems(1) by simp
    then show ?thesis using bit_pack [of bs i] bit_pack [of cs i] Cons.hyps by metis
  qed
  then have "pack bs = pack cs" by (simp add: bit_eq_iff)
  then have "bs = cs" using Cons.IH Cons.prems(1) by simp
  ultimately show ?case by simp
qed simp

lemma crc32_serial_pack:
  "length bs \<le> 4 \<Longrightarrow> crc32_serial bs c = (crc32_bit ^^ (8 * length bs)) (c XOR pack bs)"
proof (induction bs arbitrary: c)
  case (Cons b bs)
  have "take_bit 8 (push_bit 8 (pack bs)) = 0"
    by (rule bit_word_eqI) (auto simp: bit_take_bit_iff bit_push_bit_iff)
  moreover have "drop_bit 8 (push_bit 8 (pack bs)) = pack bs"
  proof (rule bit_word_eqI)
    fix i assume "i < LENGTH(32)"
    show "bit (drop_bit 8 (push_bit 8 (pack bs))) i = bit (pack bs) i"
      using bit_pack [of bs i] Cons.prems by (auto simp: bit_drop_bit_eq bit_push_bit_iff)
  qed
  ultimately have shift: "(crc32_bit ^^ 8) (push_bit 8 (pack bs)) = pack bs"
    by (simp only: crc32_shift)
  have "(crc32_bit ^^ 8) (c XOR pack (b # bs))
      = (crc32_bit ^^ 8) ((c XOR ucast b) XOR push_bit 8 (pack bs))"
    by (simp only: pack.simps xor.assoc)
  also have "\<dots> = (crc32_bit ^^ 8) (c XOR ucast b) XOR pack bs"
    by (simp only: xor_linearD [OF crc32_linear] shift)
  finally have step: "(crc32_bit ^^ 8) (c XOR ucast b) XOR pack bs
      = (crc32_bit ^^ 8) (c XOR pack (b # bs))" by (rule sym)
  have len: "(crc32_bit ^^ (8 * length (b # bs))) x
      = (crc32_bit ^^ (8 * length bs)) ((crc32_bit ^^ 8) x)" for x
  proof -
    have "8 * length (b # bs) = 8 * length bs + 8" by simp
    then show ?thesis by (simp only: funpow_add comp_apply)
  qed
  have "crc32_serial (b # bs) c = crc32_serial bs ((crc32_bit ^^ 8) (c XOR ucast b))"
    by (simp only: crc32_serial_def fold_simps)
  also have "\<dots> = (crc32_bit ^^ (8 * length bs)) ((crc32_bit ^^ 8) (c XOR ucast b) XOR pack bs)"
    using Cons.prems by (intro Cons.IH) simp
  finally show ?case by (simp only: step len)
qed (simp add: crc32_serial_def)

section \<open>Properties\<close>

text \<open>
  C11. The byte-table routines \<open>lib_crc16part\<close> and \<open>lib_crc32part\<close>, with the tables as the
  source lists them, and the boot loader's nibble-table routine \<open>crc32_update\<close> compute the
  shift registers of the CRC-16/CCITT and the reflected CRC-32 polynomial bit by bit; the boot
  loader's checksum is the library's with the register complemented on entry and exit.
\<close>

theorem crc_tables_compute_registers:
  "lib_crc16part bs c16 = crc16_serial bs c16 \<and>
   lib_crc32part bs c32 = crc32_serial bs c32 \<and>
   crc32_update crc bs = NOT (lib_crc32part bs (NOT crc))"
  by (simp add: lib_crc16part_serial lib_crc32part_serial crc32_update_serial)

text \<open>
  Checksums may be computed chunk by chunk, as the image check does with the flash blocks
  it reads: carrying the checksum of one chunk into the next gives the checksum of the whole.
\<close>

theorem crc_chunks:
  "lib_crc16part (xs @ ys) c16 = lib_crc16part ys (lib_crc16part xs c16) \<and>
   lib_crc32part (xs @ ys) c32 = lib_crc32part ys (lib_crc32part xs c32) \<and>
   crc32_update crc (xs @ ys) = crc32_update (crc32_update crc xs) ys"
  by (simp add: lib_crc16part_def lib_crc32part_def crc32_update_def)

text \<open>
  C30. The CRC-32 of a message detects every corruption confined to four consecutive bytes,
  wherever it lies in the message and whatever the initial register is, for the library's
  routine and for the boot loader's.
\<close>

theorem crc32_detects_burst:
  assumes "length bs = length cs" "length bs \<le> 4" "bs \<noteq> cs"
  shows "lib_crc32part (xs @ bs @ ys) c \<noteq> lib_crc32part (xs @ cs @ ys) c \<and>
         crc32_update c (xs @ bs @ ys) \<noteq> crc32_update c (xs @ cs @ ys)"
proof -
  have "crc32_serial (xs @ bs @ ys) c \<noteq> crc32_serial (xs @ cs @ ys) c" for c
  proof
    assume "crc32_serial (xs @ bs @ ys) c = crc32_serial (xs @ cs @ ys) c"
    then have "crc32_serial bs (crc32_serial xs c) = crc32_serial cs (crc32_serial xs c)"
      by (simp add: crc32_serial_append inj_eq [OF crc32_serial_inj])
    then have "pack bs = pack cs"
      using assms by (simp add: crc32_serial_pack inj_eq [OF crc32_bits_inj] xor.commute
          word_xor_right_cancel)
    then show False using assms pack_inj by blast
  qed
  then show ?thesis by (simp add: lib_crc32part_serial crc32_update_serial)
qed

theorem crc32_detects_burst_witness:
  "lib_crc32part ([1] @ [2, 3] @ [4]) 0 \<noteq> lib_crc32part ([1] @ [3, 3] @ [4]) 0"
  using crc32_detects_burst [of "[2, 3]" "[3, 3]" "[1]" "[4]" 0] by simp

end
