(* ===== verification/Kfifo.thy ===== *)
theory Kfifo
  imports Bitops
begin

text \<open>
  The ring buffer of \<open>container/kfifo.c\<close>: free-running 32-bit indices \<open>in\<close> and \<open>out\<close> that wrap,
  a power-of-two capacity, copies in two pieces, and the record mode that stores a one- or
  two-byte length before each record. The abstraction \<open>kfifo_bytes\<close> is the byte sequence
  between \<open>out\<close> and \<open>in\<close>; the operations refine list append, take and drop on it. The
  interface locale \<open>bounded_fifo\<close> states that contract, proves what clients rely on
  (nothing is lost, duplicated or reordered by any sequence of operations) and is interpreted
  on the ring buffer.
\<close>

section \<open>Definitions\<close>

record kfifo =
  kin :: u32
  kout :: u32
  kmask :: u32
  kesize :: u32
  kdata :: "u8 list"

definition fls :: "u32 \<Rightarrow> nat" where
  "fls x = nat (flsl x)"

text \<open>A shift by 32 or more is undefined in C: None.\<close>

definition roundup_pow_of_two :: "u32 \<Rightarrow> u32 option" where
  "roundup_pow_of_two n = (if fls (n - 1) < 32 then Some (push_bit (fls (n - 1)) 1) else None)"

definition rounddown_pow_of_two :: "u32 \<Rightarrow> u32" where
  "rounddown_pow_of_two n = push_bit (fls n - 1) 1"

definition rte_powerof2 :: "u32 \<Rightarrow> bool" where
  "rte_powerof2 a \<longleftrightarrow> (a - 1) AND a = 0"

definition kfifo_unused :: "kfifo \<Rightarrow> u32" where
  "kfifo_unused fifo = (kmask fifo + 1) - (kin fifo - kout fifo)"

text \<open>\<open>calloc_ok\<close> is whether the allocator returns memory.\<close>

definition kfifo_alloc :: "kfifo \<Rightarrow> bool \<Rightarrow> u32 \<Rightarrow> u32 \<Rightarrow> (kfifo \<times> int) option" where
  "kfifo_alloc fifo calloc_ok sz esize =
     (case roundup_pow_of_two sz of
        None \<Rightarrow> None
      | Some sz \<Rightarrow>
          let fifo = fifo\<lparr>kin := 0, kout := 0, kesize := esize\<rparr>
          in if sz < 2 then Some (fifo\<lparr>kdata := [], kmask := 0\<rparr>, - EINVAL)
             else if \<not> calloc_ok then Some (fifo\<lparr>kdata := [], kmask := 0\<rparr>, - ENOMEM)
             else Some (fifo\<lparr>kdata := replicate (unat esize * unat sz) 0, kmask := sz - 1\<rparr>, 0))"

definition kfifo_free :: "kfifo \<Rightarrow> kfifo" where
  "kfifo_free fifo = fifo\<lparr>kin := 0, kout := 0, kesize := 0, kdata := [], kmask := 0\<rparr>"

definition kfifo_init :: "kfifo \<Rightarrow> u8 list \<Rightarrow> u32 \<Rightarrow> u32 \<Rightarrow> kfifo \<times> int" where
  "kfifo_init fifo buffer sz0 esize =
     (let sz1 = sz0 div esize;
          sz = (if \<not> rte_powerof2 sz1 then rounddown_pow_of_two sz1 else sz1);
          fifo = fifo\<lparr>kin := 0, kout := 0, kesize := esize, kdata := buffer\<rparr>
      in if sz < 2 then (fifo\<lparr>kmask := 0\<rparr>, - EINVAL) else (fifo\<lparr>kmask := sz - 1\<rparr>, 0))"

text \<open>
  The two pieces of a copy: \<open>l\<close> bytes up to the end of the storage, the rest at its start.
  Offsets, sizes and lengths are scaled to bytes by \<open>esize\<close> first.
\<close>

definition kfifo_piece :: "kfifo \<Rightarrow> u32 \<Rightarrow> u32 \<Rightarrow> u32 \<times> u32 \<times> u32" where
  "kfifo_piece fifo len off =
     (let sz = kmask fifo + 1;
          off = off AND kmask fifo;
          (off, sz, len) = (if kesize fifo \<noteq> 1
                            then (off * kesize fifo, sz * kesize fifo, len * kesize fifo)
                            else (off, sz, len))
      in (off, len, min len (sz - off)))"

definition kfifo_copy_in :: "kfifo \<Rightarrow> u8 list \<Rightarrow> u32 \<Rightarrow> u32 \<Rightarrow> kfifo" where
  "kfifo_copy_in fifo src len off =
     (let (off, len, l) = kfifo_piece fifo len off;
          d = buf_write (kdata fifo) (unat off) (take (unat l) src)
      in fifo\<lparr>kdata := buf_write d 0 (take (unat (len - l)) (drop (unat l) src))\<rparr>)"

definition kfifo_in :: "kfifo \<Rightarrow> u8 list \<Rightarrow> u32 \<Rightarrow> kfifo \<times> u32" where
  "kfifo_in fifo buf len0 =
     (let l = kfifo_unused fifo;
          len = (if len0 > l then l else len0);
          fifo = kfifo_copy_in fifo buf len (kin fifo)
      in (fifo\<lparr>kin := kin fifo + len\<rparr>, len))"

text \<open>What the two \<open>memcpy\<close>s of \<open>kfifo_copy_out\<close> store to the destination.\<close>

definition kfifo_copy_out :: "kfifo \<Rightarrow> u32 \<Rightarrow> u32 \<Rightarrow> u8 list" where
  "kfifo_copy_out fifo len off =
     (let (off, len, l) = kfifo_piece fifo len off
      in buf_read (kdata fifo) (unat off) (unat l) @ buf_read (kdata fifo) 0 (unat (len - l)))"

definition kfifo_out_peek :: "kfifo \<Rightarrow> u32 \<Rightarrow> u8 list \<times> u32" where
  "kfifo_out_peek fifo len0 =
     (let l = kin fifo - kout fifo;
          len = (if len0 > l then l else len0)
      in (kfifo_copy_out fifo len (kout fifo), len))"

definition kfifo_out :: "kfifo \<Rightarrow> u32 \<Rightarrow> kfifo \<times> u8 list \<times> u32" where
  "kfifo_out fifo len0 =
     (let (bytes, len) = kfifo_out_peek fifo len0
      in (fifo\<lparr>kout := kout fifo + len\<rparr>, bytes, len))"

definition kfifo_max_r :: "u32 \<Rightarrow> nat \<Rightarrow> u32" where
  "kfifo_max_r len recsize =
     (let mx = push_bit (8 * recsize) 1 - 1 in if len > mx then mx else len)"

definition KFIFO_PEEK :: "kfifo \<Rightarrow> u32 \<Rightarrow> u32" where
  "KFIFO_PEEK fifo i = ucast (kdata fifo ! unat (i AND kmask fifo))"

definition kfifo_peek_n :: "kfifo \<Rightarrow> nat \<Rightarrow> u32" where
  "kfifo_peek_n fifo recsize =
     (let l = KFIFO_PEEK fifo (kout fifo)
      in if recsize - 1 \<noteq> 0 then l OR push_bit 8 (KFIFO_PEEK fifo (kout fifo + 1)) else l)"

definition KFIFO_POKE :: "kfifo \<Rightarrow> u32 \<Rightarrow> u32 \<Rightarrow> kfifo" where
  "KFIFO_POKE fifo i val = fifo\<lparr>kdata := (kdata fifo)[unat (i AND kmask fifo) := ucast val]\<rparr>"

definition kfifo_poke_n :: "kfifo \<Rightarrow> u32 \<Rightarrow> nat \<Rightarrow> kfifo" where
  "kfifo_poke_n fifo n recsize =
     (let fifo = KFIFO_POKE fifo (kin fifo) n
      in if recsize > 1 then KFIFO_POKE fifo (kin fifo + 1) (drop_bit 8 n) else fifo)"

definition kfifo_len_r :: "kfifo \<Rightarrow> nat \<Rightarrow> u32" where
  "kfifo_len_r fifo recsize = kfifo_peek_n fifo recsize"

definition kfifo_in_r :: "kfifo \<Rightarrow> u8 list \<Rightarrow> u32 \<Rightarrow> nat \<Rightarrow> kfifo \<times> u32" where
  "kfifo_in_r fifo buf len recsize =
     (if len + of_nat recsize > kfifo_unused fifo then (fifo, 0)
      else
        let fifo = kfifo_poke_n fifo len recsize;
            fifo = kfifo_copy_in fifo buf len (kin fifo + of_nat recsize)
        in (fifo\<lparr>kin := kin fifo + (len + of_nat recsize)\<rparr>, len))"

definition kfifo_out_copy_r :: "kfifo \<Rightarrow> u32 \<Rightarrow> nat \<Rightarrow> u8 list \<times> u32 \<times> u32" where
  "kfifo_out_copy_r fifo len0 recsize =
     (let n = kfifo_peek_n fifo recsize;
          len = (if len0 > n then n else len0)
      in (kfifo_copy_out fifo len (kout fifo + of_nat recsize), len, n))"

definition kfifo_out_peek_r :: "kfifo \<Rightarrow> u32 \<Rightarrow> nat \<Rightarrow> u8 list \<times> u32" where
  "kfifo_out_peek_r fifo len recsize =
     (if kin fifo = kout fifo then ([], 0)
      else let (bytes, len, n) = kfifo_out_copy_r fifo len recsize in (bytes, len))"

definition kfifo_out_r :: "kfifo \<Rightarrow> u32 \<Rightarrow> nat \<Rightarrow> kfifo \<times> u8 list \<times> u32" where
  "kfifo_out_r fifo len recsize =
     (if kin fifo = kout fifo then (fifo, [], 0)
      else let (bytes, len, n) = kfifo_out_copy_r fifo len recsize
           in (fifo\<lparr>kout := kout fifo + (n + of_nat recsize)\<rparr>, bytes, len))"

definition kfifo_skip_r :: "kfifo \<Rightarrow> nat \<Rightarrow> kfifo" where
  "kfifo_skip_r fifo recsize =
     (let n = kfifo_peek_n fifo recsize in fifo\<lparr>kout := kout fifo + (n + of_nat recsize)\<rparr>)"

text \<open>The accessors of \<open>container/kfifo.h\<close>.\<close>

definition kfifo_size :: "kfifo \<Rightarrow> u32" where "kfifo_size fifo = kmask fifo + 1"
definition kfifo_reset :: "kfifo \<Rightarrow> kfifo" where "kfifo_reset fifo = fifo\<lparr>kout := 0, kin := 0\<rparr>"
definition kfifo_reset_out :: "kfifo \<Rightarrow> kfifo" where
  "kfifo_reset_out fifo = fifo\<lparr>kout := kin fifo\<rparr>"
definition kfifo_len :: "kfifo \<Rightarrow> u32" where "kfifo_len fifo = kin fifo - kout fifo"
definition kfifo_is_empty :: "kfifo \<Rightarrow> bool" where
  "kfifo_is_empty fifo \<longleftrightarrow> kin fifo = kout fifo"
definition kfifo_is_full :: "kfifo \<Rightarrow> bool" where
  "kfifo_is_full fifo \<longleftrightarrow> kfifo_len fifo > kmask fifo"

text \<open>
  The invariant and the abstraction: the storage holds \<open>2^k\<close> elements of \<open>esize\<close> bytes, at most
  that many are in use, and the contents are read from \<open>out\<close> on, around the end.
\<close>

definition ksize :: "kfifo \<Rightarrow> nat" where
  "ksize fifo = unat (kmask fifo) + 1"

definition kcount :: "kfifo \<Rightarrow> nat" where
  "kcount fifo = unat (kin fifo - kout fifo)"

definition kfifo_inv :: "kfifo \<Rightarrow> bool" where
  "kfifo_inv fifo \<longleftrightarrow>
     (\<exists>k\<in>{1..<32}. kmask fifo = mask k) \<and> kesize fifo \<noteq> 0 \<and>
     length (kdata fifo) = ksize fifo * unat (kesize fifo) \<and>
     length (kdata fifo) < 2 ^ 32 \<and> kcount fifo \<le> ksize fifo"

definition ring_read :: "'a list \<Rightarrow> nat \<Rightarrow> nat \<Rightarrow> 'a list" where
  "ring_read d start n = map (\<lambda>i. d ! ((start + i) mod length d)) [0..<n]"

definition ring_put :: "'a list \<Rightarrow> nat \<Rightarrow> 'a list \<Rightarrow> 'a list" where
  "ring_put d off src =
     (let l = min (length src) (length d - off)
      in buf_write (buf_write d off (take l src)) 0 (drop l src))"

definition kfifo_bytes :: "kfifo \<Rightarrow> u8 list" where
  "kfifo_bytes fifo =
     ring_read (kdata fifo) (unat (kout fifo) * unat (kesize fifo))
       (kcount fifo * unat (kesize fifo))"

text \<open>A record is stored as its length (one or two bytes, low byte first) and its bytes.\<close>

definition rec_hdr :: "nat \<Rightarrow> u32 \<Rightarrow> u8 list" where
  "rec_hdr recsize n = ucast n # (if recsize > 1 then [ucast (drop_bit 8 n)] else [])"

definition rec_enc :: "nat \<Rightarrow> u8 list \<Rightarrow> u8 list" where
  "rec_enc recsize r = rec_hdr recsize (of_nat (length r)) @ r"

definition kfifo_records :: "nat \<Rightarrow> kfifo \<Rightarrow> u8 list list \<Rightarrow> bool" where
  "kfifo_records recsize f recs \<longleftrightarrow>
     kfifo_inv f \<and> kesize f = 1 \<and> recsize \<in> {1, 2} \<and>
     kfifo_bytes f = concat (map (rec_enc recsize) recs) \<and>
     (\<forall>r\<in>set recs. length r < 2 ^ (8 * recsize))"

text \<open>A client's sequence of operations on a FIFO, with what was accepted and delivered.\<close>

datatype 'a fifo_op = Put "'a list" | Get nat

fun fifo_run ::
  "('q \<Rightarrow> 'a list \<Rightarrow> 'q \<times> nat) \<Rightarrow> ('q \<Rightarrow> nat \<Rightarrow> 'q \<times> 'a list) \<Rightarrow> 'q \<Rightarrow> 'a fifo_op list
     \<Rightarrow> 'q \<times> 'a list \<times> 'a list" where
  "fifo_run put get q [] = (q, [], [])"
| "fifo_run put get q (Put xs # ops) =
     (let (q1, n) = put q xs; (q2, ins, outs) = fifo_run put get q1 ops
      in (q2, take n xs @ ins, outs))"
| "fifo_run put get q (Get m # ops) =
     (let (q1, ys) = get q m; (q2, ins, outs) = fifo_run put get q1 ops
      in (q2, ins, ys @ outs))"

fun op_within :: "nat \<Rightarrow> 'a fifo_op \<Rightarrow> bool" where
  "op_within limit (Put xs) = (length xs \<le> limit)"
| "op_within limit (Get m) = (m \<le> limit)"

text \<open>The byte FIFO as its users call it: \<open>len\<close> is the length of the buffer.\<close>

definition kfifo_put_bytes :: "kfifo \<Rightarrow> u8 list \<Rightarrow> kfifo \<times> nat" where
  "kfifo_put_bytes f xs = (let (f', n) = kfifo_in f xs (of_nat (length xs)) in (f', unat n))"

definition kfifo_get_bytes :: "kfifo \<Rightarrow> nat \<Rightarrow> kfifo \<times> u8 list" where
  "kfifo_get_bytes f m = (let (f', bytes, n) = kfifo_out f (of_nat m) in (f', bytes))"

section \<open>Rings\<close>

lemma length_ring_read [simp]: "length (ring_read d s n) = n"
  by (simp add: ring_read_def)

lemma nth_ring_read: "i < n \<Longrightarrow> ring_read d s n ! i = d ! ((s + i) mod length d)"
  by (simp add: ring_read_def)

lemma ring_read_mod: "ring_read d (s mod length d) n = ring_read d s n"
  by (simp add: ring_read_def mod_add_left_eq)

lemma ring_read_cong_mod:
  "s mod length d = t mod length d \<Longrightarrow> ring_read d s n = ring_read d t n"
  by (metis ring_read_mod)

lemma ring_read_append: "ring_read d s (n + m) = ring_read d s n @ ring_read d (s + n) m"
  by (auto simp: list_eq_iff_nth_eq nth_append nth_ring_read add.assoc)

lemma take_ring_read: "m \<le> n \<Longrightarrow> take m (ring_read d s n) = ring_read d s m"
  by (auto simp: list_eq_iff_nth_eq nth_ring_read)

lemma drop_ring_read: "m \<le> n \<Longrightarrow> drop m (ring_read d s n) = ring_read d (s + m) (n - m)"
  by (auto simp: list_eq_iff_nth_eq nth_ring_read add.assoc)

lemma length_ring_put [simp]:
  "off < length d \<Longrightarrow> length src \<le> length d \<Longrightarrow> length (ring_put d off src) = length d"
  by (simp add: ring_put_def Let_def min_def)

lemma ring_dist:
  fixes j off n :: nat
  assumes "off < n" "j < n"
  shows "(j + n - off) mod n = (if off \<le> j then j - off else j + n - off)"
proof (cases "off \<le> j")
  case True
  then have "(j + n - off) mod n = ((j - off) + n) mod n" by simp
  then show ?thesis using True assms by (metis less_imp_diff_less mod_add_self2 mod_less)
qed (use assms in simp)

lemma nth_ring_put:
  assumes "off < length d" "length src \<le> length d" "j < length d"
  shows "ring_put d off src ! j =
    (if (j + length d - off) mod length d < length src
     then src ! ((j + length d - off) mod length d) else d ! j)"
proof (cases "length src \<le> length d - off")
  case True
  then show ?thesis
    using assms by (auto simp: ring_put_def Let_def nth_buf_write ring_dist)
next
  case False
  let ?l = "length d - off"
  have "ring_put d off src = buf_write (buf_write d off (take ?l src)) 0 (drop ?l src)"
    using False by (simp add: ring_put_def Let_def)
  then show ?thesis
    using assms False by (auto simp: nth_buf_write ring_dist add.commute)
qed

lemma ring_index_dist:
  assumes "n > (0::nat)" "i < n"
  shows "((off + i) mod n + n - off mod n) mod n = i"
proof -
  have "(off + i) mod n = (off mod n + i) mod n" by (simp add: mod_add_left_eq)
  moreover have "off mod n < n" using assms by simp
  ultimately show ?thesis
    using assms(2) by (cases "off mod n + i < n") (simp_all add: le_mod_geq)
qed

lemma ring_read_put_same:
  assumes "off < length d" "length src \<le> length d"
  shows "ring_read (ring_put d off src) off (length src) = src"
proof (rule nth_equalityI)
  fix i assume "i < length (ring_read (ring_put d off src) off (length src))"
  then have i: "i < length src" by simp
  have "((off + i) mod length d + length d - off) mod length d = i"
    using ring_index_dist [of "length d" i off] assms i by (cases d) auto
  then show "ring_read (ring_put d off src) off (length src) ! i = src ! i"
    using assms i by (cases d) (auto simp: nth_ring_read nth_ring_put)
qed simp

lemma ring_index_before:
  assumes "i < n" "n + m \<le> (N::nat)"
  shows "\<not> ((s + i) mod N + N - (s + n) mod N) mod N < m"
proof -
  have "(s + n) + (N - n + i) = s + i + N" using assms by simp
  then have "((s + n) + (N - n + i)) mod N = (s + i) mod N" by (metis mod_add_self2)
  then have "((s + i) mod N + N - (s + n) mod N) mod N = N - n + i"
    using ring_index_dist [of N "N - n + i" "s + n"] assms by simp
  then show ?thesis using assms by linarith
qed

lemma ring_read_put_other:
  assumes "n + length src \<le> length d" "off = (s + n) mod length d" "d \<noteq> []"
  shows "ring_read (ring_put d off src) s n = ring_read d s n"
proof (rule nth_equalityI)
  fix i assume "i < length (ring_read (ring_put d off src) s n)"
  then have i: "i < n" by simp
  have off: "off < length d" using assms by simp
  show "ring_read (ring_put d off src) s n ! i = ring_read d s n ! i"
    using ring_index_before [OF i assms(1), of s] i assms off
    by (simp add: nth_ring_read nth_ring_put)
qed simp

lemma ring_read_split:
  assumes "off < length d" "n \<le> length d"
  shows "buf_read d off (min n (length d - off)) @ buf_read d 0 (n - min n (length d - off))
       = ring_read d off n"
proof (rule nth_equalityI)
  show "length (buf_read d off (min n (length d - off)) @
      buf_read d 0 (n - min n (length d - off))) = length (ring_read d off n)"
    using assms by (simp add: buf_read_def)
next
  fix i
  assume "i < length (buf_read d off (min n (length d - off)) @
      buf_read d 0 (n - min n (length d - off)))"
  then have "i < n" using assms by (simp add: buf_read_def)
  then show "(buf_read d off (min n (length d - off)) @
      buf_read d 0 (n - min n (length d - off))) ! i = ring_read d off n ! i"
    using assms
    by (cases "off + i < length d")
       (auto simp: nth_append buf_read_def nth_ring_read le_mod_geq add.commute)
qed

section \<open>Word indices\<close>

lemma kfifo_invE:
  assumes "kfifo_inv f"
  obtains k where "1 \<le> k" "k < 32" "kmask f = mask k" "ksize f = 2 ^ k"
    "length (kdata f) = 2 ^ k * unat (kesize f)" "length (kdata f) < 2 ^ 32"
    "kcount f \<le> 2 ^ k" "0 < unat (kesize f)"
proof -
  obtain k where k: "k \<in> {1..<32}" "kmask f = mask k" using assms by (auto simp: kfifo_inv_def)
  have "unat (mask k :: u32) = mask k" using k(1) by (simp add: unat_mask_u32)
  then have "ksize f = 2 ^ k" using k(2) by (simp add: ksize_def mask_eq_exp_minus_1)
  moreover have "0 < unat (kesize f)" using assms by (simp add: kfifo_inv_def unat_gt_0)
  ultimately show thesis using that k assms by (auto simp: kfifo_inv_def)
qed

lemma mod_pow_mult: "k \<le> 32 \<Longrightarrow> (a mod 2 ^ 32 * e) mod (2 ^ k * e) = (a * e) mod (2 ^ k * e)"
  for a e :: nat
  by (simp add: mult_mod_left [symmetric] mod_2p32_mod_2pow)

text \<open>Wrapped indices agree with the unbounded ones modulo the byte size of the storage.\<close>

lemma index_add:
  "k < 32 \<Longrightarrow> (unat (x + y) * e) mod (2 ^ k * e) = (unat x * e + unat y * e) mod (2 ^ k * e)"
  for x y :: u32
  using mod_pow_mult [of k "unat x + unat y" e]
  by (simp add: unat_add_u32 add_mult_distrib)

lemma index_mask:
  "unat (x AND mask k) * e = (unat x * e) mod (2 ^ k * e)" for x :: u32
  by (simp add: unat_and_mask mult_mod_left)

lemma unat_mult_small:
  "unat x * unat y < 2 ^ 32 \<Longrightarrow> unat (x * y) = unat x * unat y" for x y :: u32
  by (simp add: unat_word_ariths)

lemma unat_mask_plus_1:
  assumes "k < 32" shows "unat (mask k + 1 :: u32) = 2 ^ k"
proof -
  have "(mask k + 1 :: u32) = 2 ^ k" by (simp add: mask_eq_exp_minus_1)
  then show ?thesis using unat_exp_u32 [OF assms] by simp
qed

section \<open>The operations\<close>

text \<open>The scaled offset, length and first piece of a copy of at most the whole capacity.\<close>

lemma kfifo_piece_eq:
  assumes inv: "kfifo_inv f" and len: "unat len \<le> ksize f"
    and piece: "kfifo_piece f len off = (o', L, l)"
  shows "unat o' = (unat off * unat (kesize f)) mod length (kdata f)"
    and "unat L = unat len * unat (kesize f)"
    and "unat l = min (unat L) (length (kdata f) - unat o')"
    and "unat (L - l) = unat L - unat l"
proof -
  obtain k where k: "1 \<le> k" "k < 32" "kmask f = mask k" "ksize f = 2 ^ k"
    "length (kdata f) = 2 ^ k * unat (kesize f)" "length (kdata f) < 2 ^ 32"
    "0 < unat (kesize f)" using inv by (rule kfifo_invE)
  let ?e = "kesize f" and ?o = "off AND mask k :: u32"
  have S: "unat (mask k + 1 :: u32) = 2 ^ k" using k(2) by (rule unat_mask_plus_1)
  have om: "unat ?o * unat ?e = (unat off * unat ?e) mod length (kdata f)"
    by (simp add: index_mask k(5))
  have "(unat off * unat ?e) mod length (kdata f) < length (kdata f)"
    using k(5,7) by (intro mod_less_divisor) simp
  then have ob: "unat ?o * unat ?e < length (kdata f)" using om by simp
  have lb: "unat len * unat ?e \<le> length (kdata f)" using len k(4,5) by simp
  have mo: "unat (?o * ?e) = unat ?o * unat ?e"
    using ob k(6) by (intro unat_mult_small) (rule less_trans)
  have ml: "unat (len * ?e) = unat len * unat ?e"
    using lb k(6) by (intro unat_mult_small) (rule le_less_trans)
  have ms: "unat ((mask k + 1) * ?e) = length (kdata f)"
    using k(5,6) S by (simp add: unat_mult_small)
  have def: "o' = ?o * ?e" "L = len * ?e" "l = min L ((mask k + 1) * ?e - o')"
    using piece by (auto simp: kfifo_piece_def k(3) Let_def split: if_splits)
  show "unat o' = (unat off * unat ?e) mod length (kdata f)" using def mo om by simp
  show L: "unat L = unat len * unat ?e" using def ml by simp
  have "o' \<le> (mask k + 1) * ?e" using ob ms mo def by (simp add: word_le_nat_alt)
  then have "unat ((mask k + 1) * ?e - o') = length (kdata f) - unat o'"
    by (simp add: unat_sub ms)
  then show "unat l = min (unat L) (length (kdata f) - unat o')"
    unfolding def(3) by (simp add: min_def word_le_nat_alt)
  show "unat (L - l) = unat L - unat l" using def(3) by (simp add: unat_sub min_def)
qed

lemma kfifo_copy_in_ring:
  assumes "kfifo_inv f" "unat len \<le> ksize f" "length src \<ge> unat len * unat (kesize f)"
  shows "kfifo_copy_in f src len off =
    f\<lparr>kdata := ring_put (kdata f) ((unat off * unat (kesize f)) mod length (kdata f))
        (take (unat len * unat (kesize f)) src)\<rparr>"
proof -
  obtain o' L l where p: "kfifo_piece f len off = (o', L, l)" by (metis prod_cases3)
  note q = kfifo_piece_eq [OF assms(1,2) p]
  have "take (unat (L - l)) (drop (unat l) src) = drop (unat l) (take (unat L) src)"
    using q(3,4) by (simp add: drop_take)
  moreover have "take (unat l) src = take (unat l) (take (unat L) src)" using q(3) by simp
  ultimately show ?thesis
    using assms(3) q by (simp add: kfifo_copy_in_def p ring_put_def Let_def)
qed

lemma kfifo_copy_out_ring:
  assumes "kfifo_inv f" "unat len \<le> ksize f"
  shows "kfifo_copy_out f len off =
    ring_read (kdata f) (unat off * unat (kesize f)) (unat len * unat (kesize f))"
proof -
  obtain o' L l where p: "kfifo_piece f len off = (o', L, l)" by (metis prod_cases3)
  note q = kfifo_piece_eq [OF assms p]
  obtain k where k: "length (kdata f) = 2 ^ k * unat (kesize f)" "0 < unat (kesize f)"
    "ksize f = 2 ^ k" using assms(1) by (rule kfifo_invE)
  have "unat o' < length (kdata f)" "unat L \<le> length (kdata f)"
    using q(1,2) k assms(2) by auto
  then show ?thesis
    using ring_read_split [of "unat o'" "kdata f" "unat L"] q
    by (simp add: kfifo_copy_out_def p ring_read_mod)
qed

lemma kfifo_unused_eq:
  assumes "kfifo_inv f" shows "unat (kfifo_unused f) = ksize f - kcount f"
proof -
  obtain k where k: "k < 32" "kmask f = mask k" "ksize f = 2 ^ k" "kcount f \<le> 2 ^ k"
    using assms by (rule kfifo_invE)
  have "kin f - kout f \<le> mask k + 1"
    using k unat_mask_plus_1 [of k] by (simp add: word_le_nat_alt kcount_def)
  then show ?thesis
    using k unat_mask_plus_1 [of k] by (simp add: kfifo_unused_def unat_sub kcount_def)
qed

lemma kcount_add:
  "kcount f + unat n < 2 ^ 32 \<Longrightarrow> kcount (f\<lparr>kin := kin f + n\<rparr>) = kcount f + unat n"
  by (simp add: kcount_def add_diff_eq [symmetric] add.commute diff_add_eq unat_add_u32)

lemma kcount_sub:
  "unat n \<le> kcount f \<Longrightarrow> kcount (f\<lparr>kout := kout f + n\<rparr>) = kcount f - unat n"
  by (simp add: kcount_def diff_diff_eq [symmetric] unat_sub word_le_nat_alt)

lemma kfifo_inv_update:
  assumes "kfifo_inv f" "kmask f' = kmask f" "kesize f' = kesize f"
    "length (kdata f') = length (kdata f)" "kcount f' \<le> ksize f"
  shows "kfifo_inv f'"
  using assms by (simp add: kfifo_inv_def ksize_def)

lemma kfifo_count_bound: "kfifo_inv f \<Longrightarrow> ksize f \<le> 2 ^ 31"
  by (erule kfifo_invE) (simp add: power_increasing [of _ 31 "2 :: nat", simplified])

text \<open>\<open>in\<close> is \<open>count\<close> elements after \<open>out\<close>, modulo the storage.\<close>

lemma kfifo_in_index:
  assumes "kfifo_inv f"
  shows "(unat (kin f + x) * unat (kesize f)) mod length (kdata f) =
    (unat (kout f) * unat (kesize f) + (kcount f + unat x) * unat (kesize f))
      mod length (kdata f)"
proof -
  obtain k where k: "k < 32" "length (kdata f) = 2 ^ k * unat (kesize f)"
    using assms by (rule kfifo_invE)
  let ?e = "unat (kesize f)" and ?N = "2 ^ k * unat (kesize f)"
  have "(unat (kin f + x) * ?e) mod ?N = (unat (kin f) * ?e + unat x * ?e) mod ?N"
    using k(1) by (rule index_add)
  also have "\<dots> = ((unat (kin f) * ?e) mod ?N + unat x * ?e) mod ?N"
    by (rule mod_add_left_eq [symmetric])
  also have "(unat (kin f) * ?e) mod ?N = (unat (kout f) * ?e + kcount f * ?e) mod ?N"
    using index_add [OF k(1), of "kout f" "kin f - kout f" ?e] by (simp add: kcount_def)
  finally show ?thesis by (simp add: k(2) mod_add_left_eq add_mult_distrib add.assoc)
qed

text \<open>Storing bytes behind the contents appends them.\<close>

lemma kfifo_append:
  assumes inv: "kfifo_inv f" and fit: "kcount f + unat n \<le> ksize f"
    and src: "length src = unat n * unat (kesize f)"
    and f': "f' = f\<lparr>kdata := ring_put (kdata f)
        ((unat (kin f) * unat (kesize f)) mod length (kdata f)) src, kin := kin f + n\<rparr>"
  shows "kfifo_inv f' \<and> kcount f' = kcount f + unat n \<and>
    kfifo_bytes f' = kfifo_bytes f @ src"
proof -
  let ?e = "unat (kesize f)" and ?d = "kdata f"
  let ?off = "(unat (kin f) * ?e) mod length ?d" and ?s = "unat (kout f) * ?e"
  obtain k where k: "length ?d = 2 ^ k * ?e" "ksize f = 2 ^ k" "0 < ?e"
    using inv by (rule kfifo_invE)
  have off: "?off < length ?d" "?off = (?s + kcount f * ?e) mod length ?d"
    using k kfifo_in_index [OF inv, of 0] by simp_all
  have ne: "?d \<noteq> []" using off(1) by auto
  have room: "kcount f * ?e + length src \<le> length ?d"
    using mult_le_mono1 [OF fit, of ?e] src k by (simp add: add_mult_distrib)
  have cnt: "kcount f' = kcount f + unat n"
    using fit kfifo_count_bound [OF inv] kcount_add [of f n] by (simp add: f' kcount_def)
  have inv': "kfifo_inv f'"
    using inv cnt fit off(1) room by (intro kfifo_inv_update [OF inv]) (simp_all add: f')
  let ?d' = "ring_put ?d ?off src"
  have len: "length ?d' = length ?d" using off(1) room by simp
  have "kfifo_bytes f' = ring_read ?d' ?s (kcount f * ?e + length src)"
    by (simp add: kfifo_bytes_def cnt src add_mult_distrib) (simp add: f')
  also have "\<dots> = ring_read ?d' ?s (kcount f * ?e) @ ring_read ?d' (?s + kcount f * ?e) (length src)"
    by (rule ring_read_append)
  also have "ring_read ?d' ?s (kcount f * ?e) = kfifo_bytes f"
    using ring_read_put_other [OF room off(2) ne] by (simp add: kfifo_bytes_def)
  also have "ring_read ?d' (?s + kcount f * ?e) (length src) = ring_read ?d' ?off (length src)"
    by (rule ring_read_cong_mod, unfold len) (metis off(2) mod_mod_trivial)
  also have "\<dots> = src" using off(1) room by (intro ring_read_put_same) simp_all
  finally show ?thesis using inv' cnt by simp
qed

lemma kfifo_in_refines:
  assumes inv: "kfifo_inv f" and buf: "unat len * unat (kesize f) \<le> length buf"
    and r: "kfifo_in f buf len = (f', n)"
  shows "unat n = min (unat len) (ksize f - kcount f) \<and>
    kfifo_bytes f' = kfifo_bytes f @ take (unat n * unat (kesize f)) buf \<and>
    kfifo_inv f' \<and> kmask f' = kmask f \<and> kesize f' = kesize f \<and> kcount f' = kcount f + unat n"
proof -
  have n: "unat n = min (unat len) (ksize f - kcount f)"
    using r kfifo_unused_eq [OF inv]
    by (auto simp: kfifo_in_def Let_def word_less_nat_alt split: if_splits)
  have cb: "kcount f \<le> ksize f" using inv by (auto elim: kfifo_invE)
  have "unat n * unat (kesize f) \<le> unat len * unat (kesize f)"
    using n by (intro mult_le_mono1) simp
  then have nb2: "unat n * unat (kesize f) \<le> length buf" using buf by (rule le_trans)
  have nb: "unat n \<le> ksize f" "kcount f + unat n \<le> ksize f" using n cb by simp_all
  have f': "f' = (kfifo_copy_in f buf n (kin f))\<lparr>kin := kin f + n\<rparr>"
    using r by (auto simp: kfifo_in_def Let_def kfifo_copy_in_def split: if_splits prod.splits)
  note f'' = f' [unfolded kfifo_copy_in_ring [OF inv nb(1) nb2]]
  show ?thesis
    using kfifo_append [OF inv nb(2) _ f''] n nb2 f'' by simp
qed

lemma kfifo_out_peek_eq:
  assumes inv: "kfifo_inv f" and r: "kfifo_out_peek f len = (bytes, n)"
  shows "unat n = min (unat len) (kcount f) \<and>
    bytes = take (unat n * unat (kesize f)) (kfifo_bytes f)"
proof -
  have n: "unat n = min (unat len) (kcount f)"
    using r by (auto simp: kfifo_out_peek_def Let_def word_less_nat_alt kcount_def split: if_splits)
  have "kcount f \<le> ksize f" using inv by (auto elim: kfifo_invE)
  then have "unat n \<le> ksize f" "unat n * unat (kesize f) \<le> kcount f * unat (kesize f)"
    using n by auto
  moreover have "bytes = kfifo_copy_out f n (kout f)"
    using r by (auto simp: kfifo_out_peek_def Let_def split: if_splits)
  ultimately show ?thesis
    using n by (simp add: kfifo_copy_out_ring [OF inv] kfifo_bytes_def take_ring_read)
qed

text \<open>Advancing \<open>out\<close> drops bytes from the front.\<close>

lemma kfifo_advance:
  assumes inv: "kfifo_inv f" and n: "unat n \<le> kcount f"
  shows "kfifo_inv (f\<lparr>kout := kout f + n\<rparr>) \<and>
    kcount (f\<lparr>kout := kout f + n\<rparr>) = kcount f - unat n \<and>
    kfifo_bytes (f\<lparr>kout := kout f + n\<rparr>) = drop (unat n * unat (kesize f)) (kfifo_bytes f)"
proof -
  let ?e = "unat (kesize f)"
  obtain k where k: "k < 32" "length (kdata f) = 2 ^ k * ?e" "ksize f = 2 ^ k" "kcount f \<le> 2 ^ k"
    using inv by (rule kfifo_invE)
  have cnt: "kcount (f\<lparr>kout := kout f + n\<rparr>) = kcount f - unat n" using n by (rule kcount_sub)
  have "ring_read (kdata f) (unat (kout f + n) * ?e) m
      = ring_read (kdata f) (unat (kout f) * ?e + unat n * ?e) m" for m
    by (rule ring_read_cong_mod) (simp add: k(2) index_add [OF k(1)])
  moreover have "unat n * ?e \<le> kcount f * ?e" using n by simp
  ultimately have "kfifo_bytes (f\<lparr>kout := kout f + n\<rparr>)
      = drop (unat n * ?e) (kfifo_bytes f)"
    by (simp add: kfifo_bytes_def cnt drop_ring_read diff_mult_distrib)
  then show ?thesis using cnt k kfifo_inv_update [OF inv, of "f\<lparr>kout := kout f + n\<rparr>"] by simp
qed

lemma kfifo_out_refines:
  assumes inv: "kfifo_inv f" and r: "kfifo_out f len = (f', bytes, n)"
  shows "unat n = min (unat len) (kcount f) \<and>
    bytes = take (unat n * unat (kesize f)) (kfifo_bytes f) \<and>
    kfifo_bytes f' = drop (unat n * unat (kesize f)) (kfifo_bytes f) \<and>
    kfifo_inv f' \<and> kmask f' = kmask f \<and> kesize f' = kesize f \<and> kcount f' = kcount f - unat n"
proof -
  have p: "kfifo_out_peek f len = (bytes, n)" and f': "f' = f\<lparr>kout := kout f + n\<rparr>"
    using r by (auto simp: kfifo_out_def split: prod.splits)
  then show ?thesis
    using kfifo_out_peek_eq [OF inv p] kfifo_advance [OF inv, of n] by simp
qed

section \<open>The FIFO interface\<close>

locale bounded_fifo =
  fixes put :: "'q \<Rightarrow> 'a list \<Rightarrow> 'q \<times> nat"
    and get :: "'q \<Rightarrow> nat \<Rightarrow> 'q \<times> 'a list"
    and contents :: "'q \<Rightarrow> 'a list"
    and capacity :: "'q \<Rightarrow> nat"
    and valid :: "'q \<Rightarrow> bool"
    and limit :: nat
  assumes put_law: "valid q \<Longrightarrow> length xs \<le> limit \<Longrightarrow> put q xs = (q', n) \<Longrightarrow>
      valid q' \<and> capacity q' = capacity q \<and>
      n = min (length xs) (capacity q - length (contents q)) \<and>
      contents q' = contents q @ take n xs"
    and get_law: "valid q \<Longrightarrow> m \<le> limit \<Longrightarrow> get q m = (q', ys) \<Longrightarrow>
      valid q' \<and> capacity q' = capacity q \<and> ys = take m (contents q) \<and>
      contents q' = drop m (contents q)"
    and bounded: "valid q \<Longrightarrow> length (contents q) \<le> capacity q"
begin

text \<open>What went in is what came out followed by what is still inside, in order.\<close>

lemma run_stream:
  assumes "valid q" "\<forall>x\<in>set ops. op_within limit x" "fifo_run put get q ops = (q', ins, outs)"
  shows "valid q' \<and> capacity q' = capacity q \<and> contents q @ ins = outs @ contents q'"
  using assms
proof (induction ops arbitrary: q q' ins outs)
  case (Cons op ops)
  show ?case
  proof (cases op)
    case (Put xs)
    obtain q1 n where 1: "put q xs = (q1, n)" by fastforce
    obtain q2 i o' where 2: "fifo_run put get q1 ops = (q2, i, o')" using prod_cases3 by blast
    note law = put_law [OF Cons.prems(1) _ 1]
    have "valid q2 \<and> capacity q2 = capacity q1 \<and> contents q1 @ i = o' @ contents q2"
      using Cons.IH [OF _ _ 2] Cons.prems Put law by simp
    then show ?thesis using Cons.prems Put 1 2 law by auto
  next
    case (Get m)
    obtain q1 ys where 1: "get q m = (q1, ys)" by fastforce
    obtain q2 i o' where 2: "fifo_run put get q1 ops = (q2, i, o')" using prod_cases3 by blast
    note law = get_law [OF Cons.prems(1) _ 1]
    have "valid q2 \<and> capacity q2 = capacity q1 \<and> contents q1 @ i = o' @ contents q2"
      using Cons.IH [OF _ _ 2] Cons.prems Get law by simp
    then show ?thesis
      using Cons.prems Get 1 2 law append_take_drop_id [of m "contents q"] append_assoc
      by (metis (no_types, lifting) fifo_run.simps(3) case_prod_conv list.set_intros(1)
          op_within.simps(2) prod.inject)
  qed
qed auto

lemma put_get_same:
  assumes "valid q" "contents q = []" "length xs \<le> limit" "length xs \<le> capacity q"
    "put q xs = (q1, n)" "get q1 (length xs) = (q2, ys)"
  shows "n = length xs \<and> ys = xs \<and> contents q2 = []"
proof -
  have "valid q1" "n = length xs" "contents q1 = xs"
    using put_law [OF assms(1,3,5)] assms(2,4) by auto
  then show ?thesis using get_law [OF _ assms(3,6)] by simp
qed

end

lemma unat_of_nat_u32: "n < 4294967296 \<Longrightarrow> unat (of_nat n :: u32) = n"
  by (simp add: unsigned_of_nat take_bit_eq_mod)

interpretation byte_fifo: bounded_fifo kfifo_put_bytes kfifo_get_bytes kfifo_bytes ksize
  "\<lambda>f. kfifo_inv f \<and> kesize f = 1" "2 ^ 32 - 1"
proof (unfold_locales, goal_cases)
  case (1 q xs q' n)
  obtain f' m where r: "kfifo_in q xs (of_nat (length xs)) = (f', m)" by fastforce
  have "unat (of_nat (length xs) :: u32) = length xs" using 1(2) by (simp add: unat_of_nat_u32)
  then show ?case
    using kfifo_in_refines [OF _ _ r] 1 r
    by (auto simp: kfifo_put_bytes_def kfifo_bytes_def ksize_def)
next
  case (2 q m q' ys)
  obtain f' bytes n where r: "kfifo_out q (of_nat m) = (f', bytes, n)" using prod_cases3 by blast
  have "unat (of_nat m :: u32) = m" using 2(2) by (simp add: unat_of_nat_u32)
  moreover have "length (kfifo_bytes q) = kcount q" using 2(1) by (simp add: kfifo_bytes_def)
  ultimately show ?case
    using kfifo_out_refines [OF _ r] 2 r
    by (auto simp: kfifo_get_bytes_def ksize_def min_def)
next
  case (3 q)
  then show ?case by (auto simp: kfifo_bytes_def elim: kfifo_invE)
qed

section \<open>Records\<close>

text \<open>Storing one byte at \<open>in\<close> and moving \<open>in\<close> by one appends the byte.\<close>

lemma kfifo_push_byte:
  assumes inv: "kfifo_inv f" "kesize f = 1" and room: "kcount f < ksize f"
    and f': "f' = (KFIFO_POKE f (kin f) v)\<lparr>kin := kin f + 1\<rparr>"
  shows "kfifo_inv f' \<and> kcount f' = kcount f + 1 \<and> kfifo_bytes f' = kfifo_bytes f @ [ucast v]"
proof -
  obtain k where k: "k < 32" "kmask f = mask k" "length (kdata f) = 2 ^ k"
    using inv by (elim kfifo_invE) auto
  let ?off = "unat (kin f) mod length (kdata f)"
  have off: "unat (kin f AND kmask f) = ?off" "?off < length (kdata f)"
    using k by (simp_all add: unat_and_mask)
  have "(kdata f)[?off := ucast v] = ring_put (kdata f) ?off [ucast v]"
    using off(2) by (auto simp: ring_put_def Let_def buf_write_def upd_conv_take_nth_drop)
  then have "f' = f\<lparr>kdata := ring_put (kdata f)
      ((unat (kin f) * unat (kesize f)) mod length (kdata f)) [ucast v], kin := kin f + 1\<rparr>"
    using off inv(2) by (simp add: f' KFIFO_POKE_def)
  from kfifo_append [OF inv(1) _ _ this] show ?thesis using room inv(2) by simp
qed

lemma kfifo_peek_byte:
  assumes "kfifo_inv f" "kesize f = 1" "unat i < kcount f"
  shows "KFIFO_PEEK f (kout f + i) = ucast (kfifo_bytes f ! unat i)"
proof -
  obtain k where k: "k < 32" "kmask f = mask k" "length (kdata f) = 2 ^ k"
    using assms by (elim kfifo_invE) auto
  have "unat ((kout f + i) AND kmask f) = (unat (kout f) + unat i) mod length (kdata f)"
    using index_add [OF k(1), of "kout f" i 1] k by (simp add: unat_and_mask)
  then show ?thesis
    using assms by (simp add: KFIFO_PEEK_def kfifo_bytes_def nth_ring_read)
qed

lemma bit_u32_bound:
  fixes n :: u32
  assumes "unat n < 2 ^ k" "bit n i"
  shows "i < k"
proof (rule ccontr)
  assume "\<not> i < k"
  moreover have "bit (unat n) i" using assms(2) by (simp add: bit_unsigned_iff bit_imp_le_length)
  moreover have "take_bit k (unat n) = unat n" using assms(1) by (simp add: take_bit_nat_eq_self)
  ultimately show False by (metis bit_take_bit_iff)
qed

lemma rec_hdr_decode_1:
  fixes n :: u32
  assumes "unat n < 256"
  shows "ucast (ucast n :: u8) = n"
proof (rule bit_word_eqI, goal_cases)
  case (1 i)
  have "bit n i \<Longrightarrow> i < 8" using bit_u32_bound [of n 8] assms by simp
  then show ?case using 1 by (auto simp: bit_ucast_iff)
qed

lemma rec_hdr_decode_2:
  fixes n :: u32
  assumes "unat n < 65536"
  shows "ucast (ucast n :: u8) OR push_bit 8 (ucast (ucast (drop_bit 8 n) :: u8)) = n"
proof (rule bit_word_eqI, goal_cases)
  case (1 i)
  have "bit n i \<Longrightarrow> i < 16" using bit_u32_bound [of n 16] assms by simp
  then show ?case
    using 1 by (auto simp: bit_or_iff bit_ucast_iff bit_push_bit_iff bit_drop_bit_eq)
qed

lemma length_rec_hdr: "recsize \<in> {1, 2} \<Longrightarrow> length (rec_hdr recsize n) = recsize"
  by (auto simp: rec_hdr_def)

text \<open>The header and the bytes of a record are appended like one buffer.\<close>

lemma kfifo_poke_n_append:
  assumes "kfifo_inv f" "kesize f = 1" "recsize \<in> {1, 2}" "kcount f + recsize \<le> ksize f"
    and "f' = (kfifo_poke_n f n recsize)\<lparr>kin := kin f + of_nat recsize\<rparr>"
  shows "kfifo_inv f' \<and> kcount f' = kcount f + recsize \<and>
    kfifo_bytes f' = kfifo_bytes f @ rec_hdr recsize n"
proof -
  define f1 where "f1 = (KFIFO_POKE f (kin f) n)\<lparr>kin := kin f + 1\<rparr>"
  have 1: "kfifo_inv f1" "kcount f1 = kcount f + 1" "kfifo_bytes f1 = kfifo_bytes f @ [ucast n]"
    using kfifo_push_byte [OF assms(1,2) _ f1_def] assms(3,4) by auto
  have e1: "kesize f1 = 1" "ksize f1 = ksize f" "kin f1 = kin f + 1"
    using assms(2) by (simp_all add: f1_def KFIFO_POKE_def ksize_def)
  show ?thesis
  proof (cases "recsize = 1")
    case True
    then have "f' = f1" by (simp add: assms(5) f1_def kfifo_poke_n_def)
    then show ?thesis using 1 True by (simp add: rec_hdr_def)
  next
    case False
    then have r: "recsize = 2" using assms(3) by simp
    define f2 where "f2 = (KFIFO_POKE f1 (kin f1) (drop_bit 8 n))\<lparr>kin := kin f1 + 1\<rparr>"
    have "f' = f2"
      by (simp add: assms(5) f1_def f2_def kfifo_poke_n_def KFIFO_POKE_def r add.assoc)
    then show ?thesis
      using kfifo_push_byte [OF 1(1) e1(1) _ f2_def] 1 e1(2) assms(4) r by (simp add: rec_hdr_def)
  qed
qed

lemma kfifo_poke_n_frame:
  "kin (kfifo_poke_n f n recsize) = kin f" "kout (kfifo_poke_n f n recsize) = kout f"
  "kmask (kfifo_poke_n f n recsize) = kmask f" "kesize (kfifo_poke_n f n recsize) = kesize f"
  "length (kdata (kfifo_poke_n f n recsize)) = length (kdata f)"
  by (simp_all add: kfifo_poke_n_def KFIFO_POKE_def Let_def)

lemma kfifo_in_r_append:
  assumes inv: "kfifo_inv f" "kesize f = 1" and rs: "recsize \<in> {1, 2}"
    and fit: "kcount f + recsize + unat len \<le> ksize f" and src: "unat len \<le> length buf"
    and r: "kfifo_in_r f buf len recsize = (f', n)"
  shows "n = len \<and> kfifo_inv f' \<and> kesize f' = 1 \<and> ksize f' = ksize f \<and>
    kfifo_bytes f' = kfifo_bytes f @ rec_hdr recsize len @ take (unat len) buf"
proof -
  define f0 where "f0 = kfifo_poke_n f len recsize"
  define f1 where "f1 = f0\<lparr>kin := kin f + of_nat recsize\<rparr>"
  note fr = kfifo_poke_n_frame [of f len recsize, folded f0_def]
  have 1: "kfifo_inv f1" "kcount f1 = kcount f + recsize"
    "kfifo_bytes f1 = kfifo_bytes f @ rec_hdr recsize len"
    using kfifo_poke_n_append [OF inv rs _ f1_def [unfolded f0_def]] fit by auto
  have inv0: "kfifo_inv f0" "ksize f0 = ksize f"
    using inv(1) by (auto simp: kfifo_inv_def ksize_def kcount_def fr)
  have s1: "ksize f1 = ksize f" "kesize f1 = 1" using inv0 inv(2) by (simp_all add: f1_def fr ksize_def)
  have rsn: "unat (of_nat recsize :: u32) = recsize" using rs by auto
  have "unat (len + of_nat recsize) = unat len + recsize"
    using fit kfifo_count_bound [OF inv(1)] rsn by (simp add: unat_add_u32)
  then have guard: "\<not> len + of_nat recsize > kfifo_unused f"
    using fit kfifo_unused_eq [OF inv(1)] by (simp add: word_less_nat_alt)
  have "kfifo_copy_in f0 buf len (kin f + of_nat recsize) = f0\<lparr>kdata := ring_put (kdata f0)
      ((unat (kin f + of_nat recsize)) mod length (kdata f0)) (take (unat len) buf)\<rparr>"
    using kfifo_copy_in_ring [OF inv0(1), of len buf "kin f + of_nat recsize"] fit src inv0(2)
      inv(2) fr by simp
  then have f': "f' = f1\<lparr>kdata := ring_put (kdata f1)
      ((unat (kin f1) * unat (kesize f1)) mod length (kdata f1)) (take (unat len) buf),
      kin := kin f1 + len\<rparr>" and n: "n = len"
    using r guard inv(2) by (auto simp: kfifo_in_r_def Let_def f0_def [symmetric] f1_def fr add_ac)
  have "kfifo_inv f' \<and> kcount f' = kcount f1 + unat len \<and>
      kfifo_bytes f' = kfifo_bytes f1 @ take (unat len) buf"
    using fit 1 s1 src by (intro kfifo_append [OF 1(1) _ _ f']) simp_all
  then show ?thesis using n 1(3) s1 f' by (simp add: ksize_def)
qed

lemma kfifo_peek_n_eq:
  assumes "kfifo_inv f" "kesize f = 1" "recsize \<in> {1, 2}"
    and "kfifo_bytes f = rec_enc recsize r @ rest" "length r < 2 ^ (8 * recsize)"
  shows "kfifo_peek_n f recsize = of_nat (length r)"
proof -
  have cnt: "kcount f = recsize + length r + length rest"
    using arg_cong [OF assms(4), of length] assms(2,3)
    by (simp add: kfifo_bytes_def rec_enc_def length_rec_hdr)
  have rl: "unat (of_nat (length r) :: u32) = length r"
    using assms(3,5) by (auto simp: unat_of_nat_u32)
  have p0: "KFIFO_PEEK f (kout f) = ucast (kfifo_bytes f ! 0)"
    using kfifo_peek_byte [OF assms(1,2), of 0] cnt assms(3) by auto
  show ?thesis
  proof (cases "recsize = 1")
    case True
    then show ?thesis
      using p0 assms(4,5) rl by (simp add: kfifo_peek_n_def rec_enc_def rec_hdr_def rec_hdr_decode_1)
  next
    case False
    then have r2: "recsize = 2" using assms(3) by simp
    then have "KFIFO_PEEK f (kout f + 1) = ucast (kfifo_bytes f ! 1)"
      using kfifo_peek_byte [OF assms(1,2), of 1] cnt by simp
    then show ?thesis
      using p0 assms(4,5) rl r2 rec_hdr_decode_2 [of "of_nat (length r)"]
      by (simp add: kfifo_peek_n_def rec_enc_def rec_hdr_def)
  qed
qed

lemma kfifo_out_r_head:
  assumes rec: "kfifo_records recsize f (r # rs)" and o: "kfifo_out_r f len recsize = (f', bytes, n)"
  shows "kfifo_records recsize f' rs \<and> bytes = take (unat len) r
    \<and> unat n = min (unat len) (length r) \<and> ksize f' = ksize f"
proof -
  have inv: "kfifo_inv f" "kesize f = 1" "recsize \<in> {1, 2}" and rl: "length r < 2 ^ (8 * recsize)"
    and b: "kfifo_bytes f = rec_enc recsize r @ concat (map (rec_enc recsize) rs)"
    using rec by (auto simp: kfifo_records_def)
  have cnt: "kcount f = recsize + length r + length (concat (map (rec_enc recsize) rs))"
    using arg_cong [OF b, of length] inv by (simp add: kfifo_bytes_def rec_enc_def length_rec_hdr)
  have pn: "kfifo_peek_n f recsize = of_nat (length r)" using kfifo_peek_n_eq [OF inv b rl] .
  have rn: "unat (of_nat (length r) :: u32) = length r" "unat (of_nat recsize :: u32) = recsize"
    using inv(3) rl by (auto simp: unat_of_nat_u32)
  have ne: "kin f \<noteq> kout f" using cnt inv(3) by (auto simp: kcount_def)
  have cb: "kcount f \<le> ksize f" using inv(1) by (auto elim: kfifo_invE)
  have n: "n = (if len > of_nat (length r) then of_nat (length r) else len)"
    and bytes: "bytes = kfifo_copy_out f n (kout f + of_nat recsize)"
    and f': "f' = f\<lparr>kout := kout f + (of_nat (length r) + of_nat recsize)\<rparr>"
    using o ne by (auto simp: kfifo_out_r_def kfifo_out_copy_r_def Let_def pn)
  have un: "unat n = min (unat len) (length r)"
    using n rn(1) by (auto simp: word_less_nat_alt)
  define g where "g = f\<lparr>kout := kout f + of_nat recsize\<rparr>"
  have g: "kfifo_inv g" "kfifo_bytes g = drop recsize (kfifo_bytes f)"
    "kcount g = kcount f - recsize"
    using kfifo_advance [OF inv(1), of "of_nat recsize"] rn(2) cnt inv(2) by (simp_all add: g_def)
  have "bytes = ring_read (kdata f) (unat (kout f + of_nat recsize)) (unat n)"
    using kfifo_copy_out_ring [OF inv(1), of n "kout f + of_nat recsize"] un cnt cb inv(2) bytes
    by simp
  also have "\<dots> = take (unat n) (kfifo_bytes g)"
    using un cnt g(3) inv(2) by (simp add: kfifo_bytes_def g_def take_ring_read)
  finally have bts: "bytes = take (unat len) r"
    using g(2) b un inv(3) by (simp add: rec_enc_def length_rec_hdr min_def)
  have "unat (of_nat (length r) + of_nat recsize :: u32) = length r + recsize"
    using rn inv(3) rl by (auto simp: unat_add_u32)
  then have "kfifo_inv f' \<and> kfifo_bytes f' = concat (map (rec_enc recsize) rs)"
    using kfifo_advance [OF inv(1), of "of_nat (length r) + of_nat recsize"] cnt inv b
    by (simp add: f' rec_enc_def length_rec_hdr)
  then show ?thesis
    using rec bts un by (simp add: kfifo_records_def f' ksize_def)
qed

section \<open>Initialisation\<close>

lemma fls_last:
  assumes "w \<noteq> 0"
  obtains k where "k < 32" "fls w = k + 1" "bit w k" "\<forall>i>k. \<not> bit w i"
proof -
  let ?xs = "rev [0..<32]" and ?P = "\<lambda>i. \<not> bit w i"
  let ?t = "length (takeWhile ?P ?xs)"
  obtain j where j: "j < 32" "bit w j" using word_nz_bit [OF assms] by blast
  then have "\<not> (\<forall>x\<in>set ?xs. ?P x)" by auto
  then have t: "?t < 32"
    using length_takeWhile_le [of ?P ?xs]
    by (metis length_rev length_upt diff_zero le_neq_implies_less takeWhile_eq_all_conv
        takeWhile_eq_take take_all order_refl)
  define k where "k = 31 - ?t"
  have "bit w (?xs ! ?t)" using nth_length_takeWhile [of ?P ?xs] t by simp
  then have "bit w k" using t by (simp add: k_def rev_nth)
  moreover have "\<not> bit w i" if "k < i" for i
  proof (cases "i < 32")
    case True
    then have "31 - i < ?t" using that t by (simp add: k_def)
    then have "?P (takeWhile ?P ?xs ! (31 - i))" by (metis nth_mem set_takeWhileD)
    then show ?thesis using True \<open>31 - i < ?t\<close> by (simp add: takeWhile_nth rev_nth)
  next
    case False
    then show ?thesis using bit_imp_le_length [of w i] by auto
  qed
  moreover have "fls w = k + 1" "k < 32" using assms t by (simp_all add: fls_def flsl_def k_def)
  ultimately show thesis using that by blast
qed

lemma fls_bounds:
  assumes "w \<noteq> 0"
  shows "1 \<le> fls w \<and> fls w \<le> 32 \<and> 2 ^ (fls w - 1) \<le> unat w \<and> unat w < 2 ^ fls w"
proof -
  obtain k where k: "k < 32" "fls w = k + 1" "bit w k" "\<forall>i>k. \<not> bit w i"
    using assms by (rule fls_last)
  have "take_bit (k + 1) w = w"
    using k(4) by (intro bit_word_eqI) (auto simp: bit_take_bit_iff not_less_eq)
  then have "unat w = take_bit (k + 1) (unat w)" by (metis unsigned_take_bit_eq)
  then have "unat w < 2 ^ (k + 1)" by (metis take_bit_nat_less_exp)
  moreover have "bit (unat w) k" using k(1,3) by (simp add: bit_unsigned_iff)
  then have "2 ^ k \<le> unat w"
    by (metis bit_take_bit_iff linorder_not_le order_less_irrefl take_bit_nat_eq_self)
  ultimately show ?thesis using k(1,2) by simp
qed

lemma kfifo_new_inv:
  assumes "1 \<le> k" "k < 32" "kmask f = mask k" "kesize f \<noteq> 0"
    "length (kdata f) = 2 ^ k * unat (kesize f)" "length (kdata f) < 2 ^ 32" "kin f = kout f"
  shows "kfifo_inv f \<and> ksize f = 2 ^ k \<and> kfifo_bytes f = []"
proof -
  have "ksize f = 2 ^ k"
    unfolding ksize_def assms(3) using assms(2)
    by (subst unat_mask_u32) (simp_all add: mask_eq_exp_minus_1)
  then show ?thesis
    using assms by (auto simp: kfifo_inv_def kcount_def kfifo_bytes_def ring_read_def)
qed

lemma pow_word_minus_1: "k < 32 \<Longrightarrow> push_bit k 1 - 1 = (mask k :: u32)"
  by (simp add: mask_eq_exp_minus_1 push_bit_of_1)

lemma pow_word_less_2: "k < 32 \<Longrightarrow> (push_bit k 1 :: u32) < 2 \<longleftrightarrow> k = 0"
  using unat_exp_u32 [of k] by (cases k) (auto simp: push_bit_of_1 word_less_nat_alt)

lemma kfifo_alloc_ok:
  assumes "kfifo_alloc f ok sz esize = Some (f', 0)"
    and "esize \<noteq> 0" "2 * unat sz * unat esize < 2 ^ 32"
  shows "kfifo_inv f' \<and> kfifo_bytes f' = [] \<and> unat sz \<le> ksize f' \<and> ksize f' < 2 * unat sz"
proof -
  let ?k = "fls (sz - 1)"
  have k: "?k < 32" "?k \<noteq> 0" and f': "kmask f' = mask ?k" "kesize f' = esize" "kin f' = kout f'"
    "kdata f' = replicate (unat esize * 2 ^ ?k) 0"
    using assms(1) unat_exp_u32 [of ?k] pow_word_less_2 [of ?k] pow_word_minus_1 [of ?k]
    by (auto simp: kfifo_alloc_def roundup_pow_of_two_def Let_def push_bit_of_1
        split: option.splits if_splits)
  have nz: "sz - 1 \<noteq> 0" using k(2) by (auto simp: fls_def flsl_def)
  then have b: "2 ^ (?k - 1) \<le> unat (sz - 1)" "unat (sz - 1) < 2 ^ ?k"
    using fls_bounds by blast+
  have "sz \<noteq> 0"
  proof
    assume "sz = 0"
    moreover have "(2 :: nat) ^ ?k \<le> 2 ^ 31" using k(1) by (intro power_increasing) auto
    moreover have "unat (- 1 :: u32) = 4294967295"
      by (simp add: unsigned_minus_1_eq_mask mask_eq_exp_minus_1)
    ultimately show False using b(2) by simp
  qed
  then have us: "unat (sz - 1) = unat sz - 1" "0 < unat sz"
    by (simp_all add: unat_minus_one unat_gt_0)
  have "(2 :: nat) ^ ?k = 2 * 2 ^ (?k - 1)" using k(2) by (cases ?k) auto
  then have up: "2 ^ ?k < 2 * unat sz" "unat sz \<le> 2 ^ ?k" using b us by linarith+
  have "2 ^ ?k * unat esize \<le> 2 * unat sz * unat esize"
    using up(1) by (intro mult_le_mono1) simp
  then have "2 ^ ?k * unat esize < 2 ^ 32" using assms(3) by (rule le_less_trans)
  then have "length (kdata f') < 2 ^ 32" using f'(4) by (simp add: mult.commute)
  then have "kfifo_inv f' \<and> ksize f' = 2 ^ ?k \<and> kfifo_bytes f' = []"
    using k f' assms(2) by (intro kfifo_new_inv) (simp_all add: mult.commute)
  then show ?thesis using up by simp
qed

lemma kfifo_in_r_record:
  assumes rec: "kfifo_records recsize f recs" and len: "unat len = length buf"
    "length buf < 2 ^ (8 * recsize)" and r: "kfifo_in_r f buf len recsize = (f', n)"
  shows "if kcount f + recsize + length buf \<le> ksize f
         then n = len \<and> kfifo_records recsize f' (recs @ [buf])
         else n = 0 \<and> f' = f"
proof -
  have inv: "kfifo_inv f" "kesize f = 1" "recsize \<in> {1, 2}" using rec by (auto simp: kfifo_records_def)
  have bl: "of_nat (length buf) = len" by (simp flip: len(1))
  show ?thesis
  proof (cases "kcount f + recsize + length buf \<le> ksize f")
    case True
    then show ?thesis
      using kfifo_in_r_append [OF inv _ _ r] rec len by (simp add: kfifo_records_def rec_enc_def bl)
  next
    case False
    have "unat (len + of_nat recsize) = length buf + recsize"
      using len inv(3) by (auto simp: unat_add_u32)
    then have "len + of_nat recsize > kfifo_unused f"
      using False kfifo_unused_eq [OF inv(1)] inv(3) by (auto simp: word_less_nat_alt)
    then show ?thesis using False r by (simp add: kfifo_in_r_def)
  qed
qed

section \<open>Properties\<close>

text \<open>A ring of four bytes whose indices are about to wrap around 32 bits.\<close>

definition example_fifo :: kfifo where
  "example_fifo = \<lparr>kin = 1, kout = 0xFFFFFFFF, kmask = 3, kesize = 1, kdata = [20, 0, 0, 10]\<rparr>"

definition example_rec :: kfifo where
  "example_rec = \<lparr>kin = 1, kout = 0xFFFFFFFF, kmask = 3, kesize = 1, kdata = [20, 0, 0, 1]\<rparr>"

lemmas kfifo_eval =
  example_rec_def
  kfifo_out_r_def kfifo_in_r_def kfifo_out_copy_r_def kfifo_peek_n_def kfifo_copy_in_def
  kfifo_piece_def KFIFO_PEEK_def Let_def kfifo_copy_out_def kfifo_unused_def kfifo_poke_n_def
  KFIFO_POKE_def buf_write_def buf_read_def kfifo_put_bytes_def kfifo_get_bytes_def kfifo_in_def
  kfifo_out_def kfifo_out_peek_def example_fifo_def kfifo_bytes_def ring_read_def kcount_def
  ksize_def upt_rec

lemma example_fifo_inv: "kfifo_inv example_fifo" "ksize example_fifo = 4"
proof -
  have "kmask example_fifo = mask 2" by (simp add: example_fifo_def mask_eq_exp_minus_1)
  moreover have "kcount example_fifo = 2" by (simp add: kfifo_eval)
  moreover show s: "ksize example_fifo = 4" by (simp add: kfifo_eval)
  ultimately show "kfifo_inv example_fifo"
    by (auto simp: kfifo_inv_def example_fifo_def intro!: bexI [of _ 2])
qed

lemma example_rec_inv: "kfifo_inv example_rec"
  using example_fifo_inv(1)
  by (rule kfifo_inv_update) (simp_all add: example_fifo_def example_rec_def kcount_def ksize_def)

lemma example_rec_bytes: "kfifo_bytes example_rec = [1, 20]" "kesize example_rec = 1"
  by (simp_all add: kfifo_eval)

lemma example_rec_records: "kfifo_records 1 example_rec [[20]]"
  by (simp add: kfifo_records_def rec_enc_def rec_hdr_def example_rec_inv example_rec_bytes)

lemma example_rec_room: "kcount example_rec + 1 + length [7 :: u8] \<le> ksize example_rec"
  by (simp add: kfifo_eval)

text \<open>
  C3. The ring buffer refines a bounded queue, wrap-around of the 32-bit indices included:
  \<open>kfifo_in\<close> appends the first \<open>n\<close> elements of the buffer to the contents, \<open>n\<close> being the smaller of
  the request and the free space; \<open>kfifo_out\<close> returns the first \<open>n\<close> elements of the contents and
  removes them, \<open>n\<close> being the smaller of the request and what is there; both keep the invariant
  and the capacity.
\<close>

theorem kfifo_refines_queue:
  assumes "kfifo_inv f" and "unat len * unat (kesize f) \<le> length buf"
    and "kfifo_in f buf len = (f1, n)" and "kfifo_out f len = (f2, bytes, m)"
  shows "unat n = min (unat len) (ksize f - kcount f) \<and>
    kfifo_bytes f1 = kfifo_bytes f @ take (unat n * unat (kesize f)) buf \<and>
    kfifo_inv f1 \<and> ksize f1 = ksize f \<and>
    unat m = min (unat len) (kcount f) \<and>
    bytes = take (unat m * unat (kesize f)) (kfifo_bytes f) \<and>
    kfifo_bytes f2 = drop (unat m * unat (kesize f)) (kfifo_bytes f) \<and>
    kfifo_inv f2 \<and> ksize f2 = ksize f"
  using kfifo_in_refines [OF assms(1,2,3)] kfifo_out_refines [OF assms(1,4)]
  by (simp add: ksize_def)

theorem kfifo_refines_queue_witness:
  "kfifo_bytes (fst (kfifo_in example_fifo [30, 40, 50] 3)) = [10, 20, 30, 40] \<and>
   fst (snd (kfifo_out example_fifo 3)) = [10, 20]"
proof -
  have r: "unat (3 :: u32) * unat (kesize example_fifo) \<le> length [30, 40, 50 :: u8]"
    "kfifo_bytes example_fifo = [10, 20]" "kcount example_fifo = 2" "kesize example_fifo = 1"
    by (simp_all add: kfifo_eval)
  obtain f1 n where i: "kfifo_in example_fifo [30, 40, 50] 3 = (f1, n)" by fastforce
  obtain f2 bytes m where o: "kfifo_out example_fifo 3 = (f2, bytes, m)"
    using prod_cases3 by blast
  show ?thesis
    using kfifo_refines_queue [OF example_fifo_inv(1) r(1) i o] r i o example_fifo_inv(2) by simp
qed

text \<open>
  For every sequence of writes and reads on the byte FIFO, from any valid state: the
  bytes accepted by the writes, after what the FIFO held before, are the bytes delivered by the
  reads followed by what is left inside. Nothing is lost, duplicated or reordered.
\<close>

theorem kfifo_stream_order:
  assumes "kfifo_inv f" "kesize f = 1" "\<forall>x\<in>set ops. op_within (2 ^ 32 - 1) x"
    and "fifo_run kfifo_put_bytes kfifo_get_bytes f ops = (f', ins, outs)"
  shows "kfifo_inv f' \<and> ksize f' = ksize f \<and> kfifo_bytes f @ ins = outs @ kfifo_bytes f'"
  using byte_fifo.run_stream [OF _ assms(3,4)] assms(1,2) by simp

theorem kfifo_stream_order_witness:
  "let (f', ins, outs) = fifo_run kfifo_put_bytes kfifo_get_bytes example_fifo
       [Put [30, 40, 50], Get 3, Put [60]]
   in [10, 20] @ ins = outs @ kfifo_bytes f' \<and> outs = [10, 20, 30]"
proof -
  let ?r = "fifo_run kfifo_put_bytes kfifo_get_bytes example_fifo [Put [30, 40, 50], Get 3, Put [60]]"
  obtain f' ins outs where r: "?r = (f', ins, outs)" using prod_cases3 by blast
  have "kfifo_bytes example_fifo = [10, 20]" "kesize example_fifo = 1" by (simp_all add: kfifo_eval)
  moreover have "snd (snd ?r) = [10, 20, 30]" by (simp add: kfifo_eval)
  ultimately show ?thesis
    using kfifo_stream_order [OF example_fifo_inv(1) _ _ r] r by simp
qed



end
