(* ===== verification/Idr.thy ===== *)
theory Idr
  imports Prelude
begin

text \<open>
  The object-id allocator of \<open>idr.c\<close>: a table of pointer-sized entries in which the free
  entries form a list threaded through the table itself. An odd entry is a free one and
  holds the address of the next free entry plus one; an even entry is the pointer its user
  stored. Addresses are the 32-bit values the code computes with; an access outside the table
  is None.
\<close>

section \<open>Definitions\<close>

record idr =
  idr_list :: u32
  idr_table :: u32
  idr_base :: u32
  idr_count :: u32
  idr_mem :: "u32 list"

text \<open>The entry a table address names, and reading and writing through the address.\<close>

definition slot_of :: "idr \<Rightarrow> u32 \<Rightarrow> nat option" where
  "slot_of idr p =
     (let i = unat (drop_bit 2 (p - idr_table idr))
      in if i < length (idr_mem idr) \<and> p = idr_table idr + of_nat (4 * i) then Some i else None)"

fun idr_init_loop :: "idr \<Rightarrow> u32 \<Rightarrow> nat \<Rightarrow> idr option" where
  "idr_init_loop idr p 0 = Some idr"
| "idr_init_loop idr p (Suc count) =
     (case slot_of idr p of
        None \<Rightarrow> None
      | Some i \<Rightarrow>
          idr_init_loop (idr\<lparr>idr_mem := (idr_mem idr)[i := idr_list idr + 1], idr_list := p\<rparr>)
            (p + 4) count)"

text \<open>
  \<open>table\<close> is the address behind the header and \<open>mem\<close> the memory there, \<open>IDR_BUFSZ\<close> entries.
\<close>

definition idr_init :: "u32 \<Rightarrow> u32 list \<Rightarrow> u32 \<Rightarrow> u32 \<Rightarrow> (idr option \<times> int) option" where
  "idr_init table mem base count =
     (if count = 0 then Some (None, - EINVAL)
      else map_option (\<lambda>i. (Some i, 0))
        (idr_init_loop \<lparr>idr_list = 0, idr_table = table, idr_base = base, idr_count = count,
           idr_mem = mem\<rparr> table (unat count)))"

text \<open>\<open>((unsigned long)p >> 1) << 1\<close>\<close>

definition untag :: "u32 \<Rightarrow> u32" where
  "untag p = push_bit 1 (drop_bit 1 p)"

definition idr_alloc :: "idr \<Rightarrow> u32 \<Rightarrow> (idr \<times> u32) option" where
  "idr_alloc idr ptr =
     (let p = untag (idr_list idr)
      in if p \<noteq> 0 then
           (case slot_of idr p of
              None \<Rightarrow> None
            | Some i \<Rightarrow>
                Some (idr\<lparr>idr_list := idr_mem idr ! i, idr_mem := (idr_mem idr)[i := ptr]\<rparr>,
                      drop_bit 2 (p - idr_table idr) + idr_base idr))
         else Some (idr, - 1))"

definition idr_remove :: "idr \<Rightarrow> u32 \<Rightarrow> (idr \<times> int) option" where
  "idr_remove idr oid =
     (let rid = oid - idr_base idr
      in if rid \<ge> idr_count idr then Some (idr, - EINVAL)
         else if unat rid < length (idr_mem idr)
         then Some (idr\<lparr>idr_mem := (idr_mem idr)[unat rid := idr_list idr OR 1],
                        idr_list := idr_table idr + of_nat (4 * unat rid)\<rparr>, 0)
         else None)"

definition idr_find :: "idr \<Rightarrow> u32 \<Rightarrow> u32 option" where
  "idr_find idr oid =
     (let rid = oid - idr_base idr
      in if rid \<ge> idr_count idr then Some 0
         else if unat rid < length (idr_mem idr)
         then (let ptr = idr_mem idr ! unat rid in if ptr AND 1 = 0 then Some ptr else Some 0)
         else None)"

text \<open>
  The invariant: the table is aligned and lies inside the address space, the free entries
  \<open>fs\<close> form the chain that starts at \<open>idr_list\<close> (whose tag bit may or may not be set), and all
  other entries are even.
\<close>

definition slot_addr :: "idr \<Rightarrow> nat \<Rightarrow> u32" where
  "slot_addr idr i = idr_table idr + of_nat (4 * i)"

fun free_chain :: "idr \<Rightarrow> u32 \<Rightarrow> nat list \<Rightarrow> bool" where
  "free_chain idr p [] = (untag p = 0)"
| "free_chain idr p (i # is) =
     (i < length (idr_mem idr) \<and> untag p = slot_addr idr i \<and>
      odd (idr_mem idr ! i) \<and> free_chain idr (idr_mem idr ! i) is)"

definition idr_inv :: "idr \<Rightarrow> nat list \<Rightarrow> bool" where
  "idr_inv idr fs \<longleftrightarrow>
     0 < unat (idr_table idr) \<and> unat (idr_table idr) mod 4 = 0 \<and>
     unat (idr_table idr) + 4 * length (idr_mem idr) \<le> 2 ^ 32 \<and>
     length (idr_mem idr) = unat (idr_count idr) \<and>
     distinct fs \<and> free_chain idr (idr_list idr) fs \<and>
     (\<forall>i < length (idr_mem idr). i \<notin> set fs \<longrightarrow> even (idr_mem idr ! i))"

section \<open>Lemmas\<close>

lemma bit_untag: "bit (untag p) n \<longleftrightarrow> 0 < n \<and> n < 32 \<and> bit p n"
  unfolding untag_def
  by (simp only: bit_push_bit_iff bit_drop_bit_eq) (auto simp: comp_def dest: bit_imp_le_length)

lemma untag_even: "even p \<Longrightarrow> untag p = p"
  by (rule bit_word_eqI) (auto simp: bit_untag bit_0 intro: gr0I)

lemma untag_or: "untag (p OR 1) = untag p"
  by (rule bit_word_eqI) (auto simp: bit_untag bit_or_iff bit_1_iff)

lemma and_1_even: "p AND 1 = 0 \<longleftrightarrow> even p" for p :: u32
  by (simp add: and_one_eq even_iff_mod_2_eq_zero)

lemma odd_or_1: "odd (p OR 1)" for p :: u32
  by (simp add: bit_simps flip: bit_0)

lemma even_iff_unat: "even p \<longleftrightarrow> even (unat p)" for p :: u32
  using bit_unsigned_iff [of p 0, where 'a = nat] by (simp add: bit_0)

text \<open>The table addresses are even, not null, and name their entries.\<close>

lemma unat_slot_addr:
  assumes "idr_inv idr fs" "i < length (idr_mem idr)"
  shows "unat (slot_addr idr i) = unat (idr_table idr) + 4 * i"
proof -
  have "unat (of_nat (4 * i) :: u32) = 4 * i"
    using assms by (subst unsigned_of_nat) (simp add: idr_inv_def take_bit_nat_eq_self)
  then show ?thesis using assms by (simp add: slot_addr_def unat_add_u32 idr_inv_def)
qed

lemma slot_addr_facts:
  assumes "idr_inv idr fs" "i < length (idr_mem idr)"
  shows "even (slot_addr idr i)" "slot_addr idr i \<noteq> 0" "slot_of idr (slot_addr idr i) = Some i"
    and "drop_bit 2 (slot_addr idr i - idr_table idr) = of_nat i"
proof -
  have "unat (idr_table idr) mod 4 = 0" using assms(1) by (simp add: idr_inv_def)
  then have "even (unat (idr_table idr) + 4 * i)" by presburger
  then show "even (slot_addr idr i)" using unat_slot_addr [OF assms] even_iff_unat by metis
  show "slot_addr idr i \<noteq> 0"
    using unat_slot_addr [OF assms] assms(1) by (auto simp: idr_inv_def)
  have b: "4 * i < 2 ^ 32" using assms by (simp add: idr_inv_def)
  have d: "slot_addr idr i - idr_table idr = of_nat (4 * i)" by (simp add: slot_addr_def)
  have "unat (drop_bit 2 (of_nat (4 * i) :: u32)) = i"
    using b by (subst unsigned_drop_bit_eq, subst unsigned_of_nat)
      (simp add: take_bit_nat_eq_self drop_bit_eq_div)
  then have u: "unat (drop_bit 2 (slot_addr idr i - idr_table idr)) = i" using d by simp
  then show "drop_bit 2 (slot_addr idr i - idr_table idr) = of_nat i" by (metis of_nat_unat ucast_id)
  show "slot_of idr (slot_addr idr i) = Some i"
    using u assms(2) by (simp add: slot_of_def slot_addr_def)
qed

lemma free_chain_cong:
  assumes "free_chain idr p fs" "idr_table idr' = idr_table idr"
    "length (idr_mem idr') = length (idr_mem idr)"
    "\<forall>i\<in>set fs. idr_mem idr' ! i = idr_mem idr ! i"
  shows "free_chain idr' p fs"
  using assms by (induction fs arbitrary: p) (auto simp: slot_addr_def)

lemma free_chain_in_range: "free_chain idr p fs \<Longrightarrow> i \<in> set fs \<Longrightarrow> i < length (idr_mem idr)"
  by (induction fs arbitrary: p) auto

lemma free_chain_odd: "free_chain idr p fs \<Longrightarrow> i \<in> set fs \<Longrightarrow> odd (idr_mem idr ! i)"
  by (induction fs arbitrary: p) auto

lemma free_chain_tag: "free_chain idr (p OR 1) fs = free_chain idr p fs"
  by (cases fs) (simp_all add: untag_or)

lemma idr_alloc_ok:
  assumes inv: "idr_inv idr (i # fs)" and ptr: "even ptr"
  shows "\<exists>idr'. idr_alloc idr ptr = Some (idr', of_nat i + idr_base idr) \<and> idr_inv idr' fs \<and>
    idr_mem idr' = (idr_mem idr)[i := ptr] \<and>
    idr_base idr' = idr_base idr \<and> idr_count idr' = idr_count idr"
proof -
  have i: "i < length (idr_mem idr)" "untag (idr_list idr) = slot_addr idr i"
    and ch: "free_chain idr (idr_mem idr ! i) fs" "i \<notin> set fs"
    using inv by (auto simp: idr_inv_def)
  note sa = slot_addr_facts [OF inv i(1)]
  let ?idr' = "idr\<lparr>idr_list := idr_mem idr ! i, idr_mem := (idr_mem idr)[i := ptr]\<rparr>"
  have "idr_alloc idr ptr = Some (?idr', of_nat i + idr_base idr)"
    by (simp add: idr_alloc_def i(2) sa)
  moreover have "free_chain ?idr' (idr_mem idr ! i) fs"
    using ch by (intro free_chain_cong [OF ch(1)]) (auto intro!: nth_list_update_neq)
  then have "idr_inv ?idr' fs"
    using inv ptr i(1) by (auto simp: idr_inv_def nth_list_update)
  ultimately show ?thesis by simp
qed

lemma idr_alloc_full:
  "idr_inv idr [] \<Longrightarrow> idr_alloc idr ptr = Some (idr, - 1)"
  by (simp add: idr_inv_def idr_alloc_def)

lemma idr_remove_ok:
  assumes inv: "idr_inv idr fs" and rid: "unat (oid - idr_base idr) < unat (idr_count idr)"
    and used: "unat (oid - idr_base idr) \<notin> set fs"
  shows "\<exists>idr' v. idr_remove idr oid = Some (idr', 0) \<and> odd v \<and>
    idr_inv idr' (unat (oid - idr_base idr) # fs) \<and>
    idr_mem idr' = (idr_mem idr)[unat (oid - idr_base idr) := v] \<and>
    idr_base idr' = idr_base idr \<and> idr_count idr' = idr_count idr"
proof -
  let ?i = "unat (oid - idr_base idr)" and ?v = "idr_list idr OR 1"
  have i: "?i < length (idr_mem idr)" using inv rid by (simp add: idr_inv_def)
  let ?idr' = "idr\<lparr>idr_mem := (idr_mem idr)[?i := ?v], idr_list := slot_addr idr ?i\<rparr>"
  have r: "idr_remove idr oid = Some (?idr', 0)"
    using rid i by (simp add: idr_remove_def Let_def slot_addr_def word_le_nat_alt)
  have "free_chain idr (idr_list idr) fs" using inv by (simp add: idr_inv_def)
  then have "free_chain ?idr' (idr_list idr) fs"
    by (rule free_chain_cong) (use used in \<open>auto intro!: nth_list_update_neq\<close>)
  then have "free_chain ?idr' (slot_addr idr ?i) (?i # fs)"
    using i slot_addr_facts [OF inv i]
    by (simp add: free_chain_tag untag_even odd_or_1) (simp add: slot_addr_def)
  then have "idr_inv ?idr' (?i # fs)"
    using inv used i by (auto simp: idr_inv_def nth_list_update)
  then show ?thesis using r odd_or_1 by (intro exI [of _ ?idr'] exI [of _ ?v]) simp
qed

lemma idr_find_eq:
  assumes "idr_inv idr fs"
  shows "idr_find idr oid = Some (let rid = unat (oid - idr_base idr) in
    if rid < unat (idr_count idr) \<and> rid \<notin> set fs then idr_mem idr ! rid else 0)"
  using assms free_chain_odd [of idr "idr_list idr" fs]
  by (auto simp: idr_find_def idr_inv_def Let_def word_le_nat_alt and_1_even)

text \<open>Initialisation threads all entries, the last one first.\<close>

lemma plus_1_or_1: "even p \<Longrightarrow> p + 1 = p OR 1" for p :: u32
  by (rule disjunctive_add_eq_or) (simp add: and_1_even)

lemma slot_of_cong:
  "idr_table idr' = idr_table idr \<Longrightarrow> length (idr_mem idr') = length (idr_mem idr) \<Longrightarrow>
   slot_of idr' p = slot_of idr p"
  by (simp add: slot_of_def)

lemma idr_init_loop_ok:
  assumes "unat (idr_table idr) mod 4 = 0" "0 < unat (idr_table idr)"
    "unat (idr_table idr) + 4 * length (idr_mem idr) \<le> 2 ^ 32"
    "length (idr_mem idr) = unat (idr_count idr)" "j + n = length (idr_mem idr)"
    "free_chain idr (idr_list idr) (rev [0..<j])" "even (idr_list idr)"
  shows "\<exists>idr'. idr_init_loop idr (slot_addr idr j) n = Some idr' \<and>
    idr_inv idr' (rev [0..<j + n]) \<and> idr_base idr' = idr_base idr \<and>
    idr_count idr' = idr_count idr"
  using assms
proof (induction n arbitrary: idr j)
  case 0
  then show ?case by (auto simp: idr_inv_def)
next
  case (Suc n)
  let ?p = "slot_addr idr j"
  let ?idr' = "idr\<lparr>idr_mem := (idr_mem idr)[j := idr_list idr + 1], idr_list := ?p\<rparr>"
  have inv0: "idr_inv (idr\<lparr>idr_mem := map (\<lambda>_. 0) (idr_mem idr), idr_list := 0\<rparr>) []"
    using Suc.prems by (simp add: idr_inv_def untag_even)
  let ?idr0 = "idr\<lparr>idr_mem := map (\<lambda>_. 0) (idr_mem idr), idr_list := 0\<rparr>"
  have j: "j < length (idr_mem ?idr0)" using Suc.prems(5) by simp
  have p0: "slot_addr ?idr0 j = ?p" by (simp add: slot_addr_def)
  have "slot_of ?idr0 ?p = Some j" "even ?p"
    using slot_addr_facts(1,3) [OF inv0 j] unfolding p0 by simp_all
  moreover have "slot_of ?idr0 ?p = slot_of idr ?p" by (rule slot_of_cong) simp_all
  ultimately have sa: "slot_of idr ?p = Some j" "even ?p" by simp_all
  have nxt: "slot_addr idr j + 4 = slot_addr ?idr' (Suc j)"
    by (simp add: slot_addr_def algebra_simps)
  have "free_chain ?idr' (idr_list idr) (rev [0..<j])"
    by (rule free_chain_cong [OF Suc.prems(6)]) (auto intro!: nth_list_update_neq)
  then have "free_chain ?idr' ?p (rev [0..<Suc j])"
    using Suc.prems(5,7) sa(2)
    by (simp add: plus_1_or_1 free_chain_tag untag_even odd_or_1) (simp add: slot_addr_def)
  then have "\<exists>idr''. idr_init_loop ?idr' (slot_addr ?idr' (Suc j)) n = Some idr'' \<and>
      idr_inv idr'' (rev [0..<Suc j + n]) \<and> idr_base idr'' = idr_base ?idr' \<and>
      idr_count idr'' = idr_count ?idr'"
    using Suc.prems sa(2) by (intro Suc.IH) auto
  then show ?case using sa nxt by simp
qed

section \<open>Properties\<close>

text \<open>
  Initialisation of a table of \<open>count\<close> entries inside the address space succeeds, touches
  only the table, and yields an allocator in which every id is free.
\<close>

theorem idr_init_all_free:
  assumes "0 < unat table" "unat table mod 4 = 0" "unat table + 4 * length mem \<le> 2 ^ 32"
    and "length mem = unat count" "count \<noteq> 0"
  shows "\<exists>idr. idr_init table mem base count = Some (Some idr, 0) \<and>
    idr_inv idr (rev [0..<unat count]) \<and> idr_base idr = base \<and> idr_count idr = count"
proof -
  let ?s = "\<lparr>idr_list = 0, idr_table = table, idr_base = base, idr_count = count, idr_mem = mem\<rparr>"
  have "\<exists>idr'. idr_init_loop ?s (slot_addr ?s 0) (unat count) = Some idr' \<and>
    idr_inv idr' (rev [0..<0 + unat count]) \<and> idr_base idr' = idr_base ?s \<and>
    idr_count idr' = idr_count ?s"
    using assms by (intro idr_init_loop_ok) (simp_all add: untag_even)
  then show ?thesis using assms(5) by (auto simp: idr_init_def slot_addr_def)
qed

theorem idr_init_all_free_witness:
  "\<exists>idr. idr_init 0x2000 [5, 6, 7] 100 3 = Some (Some idr, 0) \<and> idr_inv idr [2, 1, 0] \<and>
    idr_base idr = 100 \<and> idr_count idr = 3"
proof -
  have "rev [0..<3] = [2, 1, 0 :: nat]" by code_simp
  then show ?thesis using idr_init_all_free [of "0x2000" "[5, 6, 7]" 3 100] by simp
qed


definition example_idr :: idr where
  "example_idr = \<lparr>idr_list = 0x2005, idr_table = 0x2000, idr_base = 100, idr_count = 3,
     idr_mem = [1, 0x2001, 0x4000]\<rparr>"

lemma example_idr_inv: "idr_inv example_idr [1, 0]"
proof -
  have "free_chain example_idr (idr_list example_idr) [1, 0]"
    by (simp add: example_idr_def slot_addr_def untag_def)
  moreover have "even (idr_mem example_idr ! i)" if "i < 3" "i \<noteq> 0" "i \<noteq> 1" for i
  proof -
    have "i = 2" using that by linarith
    then show ?thesis by (simp add: example_idr_def)
  qed
  moreover have "unat (idr_table example_idr) + 4 * length (idr_mem example_idr) \<le> 2 ^ 32"
    "length (idr_mem example_idr) = unat (idr_count example_idr)" by (simp_all add: example_idr_def)
  ultimately show ?thesis unfolding idr_inv_def by (auto simp: example_idr_def)
qed


end
