(* ===== verification/Observer.thy ===== *)
theory Observer
  imports Prelude
begin

text \<open>
  The observer chains of \<open>container/observer.c\<close>: singly linked nodes that the code walks with
  a pointer to the link it came from. The heap maps a node to its \<open>next\<close> link; a link is the
  head of the chain or the \<open>next\<close> field of a node. Loops over the heap may not end on a
  cyclic chain, so they are partial functions; the lemmas show that they end on every chain
  the operations build. The callbacks of \<open>observer_notify\<close> are functions on the heap and
  the state of their owners, so an observer may change the chain it is on.
\<close>

section \<open>Definitions\<close>

type_synonym node = nat

record obs_heap =
  obs_head :: "node option"
  obs_next :: "node \<Rightarrow> node option"
  obs_prio :: "node \<Rightarrow> int"

datatype link = Head | Next node

fun deref :: "obs_heap \<Rightarrow> link \<Rightarrow> node option" where
  "deref h Head = obs_head h"
| "deref h (Next n) = obs_next h n"

fun store :: "obs_heap \<Rightarrow> link \<Rightarrow> node option \<Rightarrow> obs_heap" where
  "store h Head v = h\<lparr>obs_head := v\<rparr>"
| "store h (Next n) v = h\<lparr>obs_next := (obs_next h)(n := v)\<rparr>"

partial_function (option) register_loop :: "obs_heap \<Rightarrow> link \<Rightarrow> node \<Rightarrow> link option" where
  "register_loop h nl n =
     (case deref h nl of
        None \<Rightarrow> Some nl
      | Some x \<Rightarrow> if obs_prio h n > obs_prio h x then Some nl else register_loop h (Next x) n)"

definition link_in :: "obs_heap \<Rightarrow> link \<Rightarrow> node \<Rightarrow> obs_heap" where
  "link_in h nl n = (let h = store h (Next n) (deref h nl) in store h nl (Some n))"

definition observer_register :: "obs_heap \<Rightarrow> node \<Rightarrow> (obs_heap \<times> int) option" where
  "observer_register h n =
     (case register_loop h Head n of None \<Rightarrow> None | Some nl \<Rightarrow> Some (link_in h nl n, 0))"

text \<open>\<open>Inl\<close> is the early return on finding the node, \<open>Inr\<close> the link to insert at.\<close>

partial_function (option) cond_loop :: "obs_heap \<Rightarrow> link \<Rightarrow> node \<Rightarrow> (unit + link) option" where
  "cond_loop h nl n =
     (case deref h nl of
        None \<Rightarrow> Some (Inr nl)
      | Some x \<Rightarrow>
          if x = n then Some (Inl ())
          else if obs_prio h n > obs_prio h x then Some (Inr nl)
          else cond_loop h (Next x) n)"

definition observer_cond_register :: "obs_heap \<Rightarrow> node \<Rightarrow> (obs_heap \<times> int) option" where
  "observer_cond_register h n =
     (case cond_loop h Head n of
        None \<Rightarrow> None
      | Some (Inl _) \<Rightarrow> Some (h, 0)
      | Some (Inr nl) \<Rightarrow> Some (link_in h nl n, 0))"

partial_function (option) unregister_loop :: "obs_heap \<Rightarrow> link \<Rightarrow> node \<Rightarrow> (obs_heap \<times> int) option"
  where
  "unregister_loop h nl n =
     (case deref h nl of
        None \<Rightarrow> Some (h, - EEXIST)
      | Some x \<Rightarrow>
          if x = n then Some (store h nl (obs_next h n), 0) else unregister_loop h (Next x) n)"

definition observer_unregister :: "obs_heap \<Rightarrow> node \<Rightarrow> (obs_heap \<times> int) option" where
  "observer_unregister h n = unregister_loop h Head n"

definition NOTIFY_DONE :: u32 where "NOTIFY_DONE = 0x0000"
definition NOTIFY_STOP_MASK :: u32 where "NOTIFY_STOP_MASK = 0x8000"

text \<open>
  \<open>update x w\<close> is the callback of node \<open>x\<close> (with the notified value and data already given) on
  the heap and the rest of the world.
\<close>

partial_function (option) notify_loop ::
  "(node \<Rightarrow> obs_heap \<times> 'w \<Rightarrow> (obs_heap \<times> 'w) \<times> u32) \<Rightarrow> node option \<Rightarrow> obs_heap \<times> 'w \<Rightarrow> u32
     \<Rightarrow> ((obs_heap \<times> 'w) \<times> u32) option" where
  "notify_loop update nb w ret =
     (case nb of
        None \<Rightarrow> Some (w, ret)
      | Some x \<Rightarrow>
          let next_nb = obs_next (fst w) x; (w', ret) = update x w
          in if ret AND NOTIFY_STOP_MASK = NOTIFY_STOP_MASK then Some (w', ret)
             else notify_loop update next_nb w' ret)"

definition observer_notify ::
  "(node \<Rightarrow> obs_heap \<times> 'w \<Rightarrow> (obs_heap \<times> 'w) \<times> u32) \<Rightarrow> obs_heap \<times> 'w
     \<Rightarrow> ((obs_heap \<times> 'w) \<times> u32) option" where
  "observer_notify update w = notify_loop update (obs_head (fst w)) w NOTIFY_DONE"

text \<open>The list a chain represents, and what the chain promises: descending priority.\<close>

fun chain :: "obs_heap \<Rightarrow> node option \<Rightarrow> node list \<Rightarrow> bool" where
  "chain h p [] = (p = None)"
| "chain h p (x # xs) = (p = Some x \<and> chain h (obs_next h x) xs)"

definition obs_chain :: "obs_heap \<Rightarrow> node list \<Rightarrow> bool" where
  "obs_chain h xs \<longleftrightarrow> chain h (obs_head h) xs \<and> distinct xs \<and>
     sorted_wrt (\<lambda>x y. obs_prio h x \<ge> obs_prio h y) xs"

text \<open>Insertion behind the last node of at least the new node's priority.\<close>

definition obs_insert :: "obs_heap \<Rightarrow> node \<Rightarrow> node list \<Rightarrow> node list" where
  "obs_insert h n xs =
     takeWhile (\<lambda>x. obs_prio h n \<le> obs_prio h x) xs @
     n # dropWhile (\<lambda>x. obs_prio h n \<le> obs_prio h x) xs"

text \<open>Calling the observers of a list in order until one of them stops the notification.\<close>

fun notify_list ::
  "(node \<Rightarrow> obs_heap \<times> 'w \<Rightarrow> (obs_heap \<times> 'w) \<times> u32) \<Rightarrow> node list \<Rightarrow> obs_heap \<times> 'w \<Rightarrow> u32
     \<Rightarrow> (obs_heap \<times> 'w) \<times> u32" where
  "notify_list update [] w ret = (w, ret)"
| "notify_list update (x # xs) w ret =
     (let (w', ret) = update x w
      in if ret AND NOTIFY_STOP_MASK = NOTIFY_STOP_MASK then (w', ret)
         else notify_list update xs w' ret)"

text \<open>
  Callbacks that keep what follows their node on the chain: an observer may remove itself, or
  add and remove nodes before itself.
\<close>

definition keeps_tail ::
  "(node \<Rightarrow> obs_heap \<times> 'w \<Rightarrow> (obs_heap \<times> 'w) \<times> u32) \<Rightarrow> bool" where
  "keeps_tail update \<longleftrightarrow>
     (\<forall>x pre ys h w.
        chain h (obs_head h) (pre @ x # ys) \<longrightarrow> distinct (pre @ x # ys) \<longrightarrow>
        (let h' = fst (fst (update x (h, w)))
         in \<exists>pre'. chain h' (obs_head h') (pre' @ ys) \<and> distinct (pre' @ ys)))"

section \<open>Lemmas\<close>

lemma chain_frame:
  "chain h p xs \<Longrightarrow> \<forall>x\<in>set xs. obs_next h' x = obs_next h x \<Longrightarrow> chain h' p xs"
  by (induction xs arbitrary: p) auto

lemma chain_unique: "chain h p xs \<Longrightarrow> chain h p ys \<Longrightarrow> xs = ys"
proof (induction xs arbitrary: p ys)
  case Nil then show ?case by (cases ys) auto
next
  case (Cons x xs) then show ?case by (cases ys) auto
qed

text \<open>The link behind a prefix of the chain.\<close>

fun link_after :: "link \<Rightarrow> node list \<Rightarrow> link" where
  "link_after l [] = l"
| "link_after l (x # xs) = link_after (Next x) xs"

lemma link_after_snoc: "link_after l (xs @ [x]) = Next x"
  by (induction xs arbitrary: l) auto

lemma link_after_cases: "link_after l xs = (if xs = [] then l else Next (last xs))"
  by (induction xs arbitrary: l) auto

lemma register_loop_finds:
  assumes "chain h (deref h nl) xs"
  shows "register_loop h nl n =
    Some (link_after nl (takeWhile (\<lambda>x. obs_prio h n \<le> obs_prio h x) xs))"
  using assms
proof (induction xs arbitrary: nl)
  case Nil
  then show ?case by (simp add: register_loop.simps)
next
  case (Cons a xs)
  then show ?case using Cons.IH [of "Next a"] by (subst register_loop.simps) auto
qed

lemma chain_deref_append:
  assumes "chain h (deref h l) (xs @ ys)"
  shows "chain h (deref h (link_after l xs)) ys"
  using assms by (induction xs arbitrary: l) auto

text \<open>Linking a fresh node in behind a prefix.\<close>

lemma link_in_chain:
  assumes "chain h (deref h l) (xs @ ys)" "distinct (xs @ ys)" "n \<notin> set (xs @ ys)" "l \<noteq> Next n"
    "\<forall>x\<in>set (xs @ ys). l \<noteq> Next x"
  shows "chain (link_in h (link_after l xs) n) (deref (link_in h (link_after l xs) n) l)
    (xs @ n # ys)"
  using assms
proof (induction xs arbitrary: l)
  case Nil
  have "chain (store (store h (Next n) (deref h l)) l (Some n)) (deref h l) ys"
    by (rule chain_frame [of h]) (use Nil in \<open>cases l; auto\<close>)+
  then show ?case using Nil.prems(4) by (cases l) (auto simp: link_in_def)
next
  case (Cons x xs)
  have "chain (link_in h (link_after (Next x) xs) n)
      (deref (link_in h (link_after (Next x) xs) n) (Next x)) (xs @ n # ys)"
    using Cons.prems by (intro Cons.IH) auto
  moreover have "deref (link_in h (link_after (Next x) xs) n) l = deref h l"
    using Cons.prems by (cases l) (auto simp: link_in_def link_after_cases Let_def)
  ultimately show ?case using Cons.prems(1) by auto
qed

lemma link_in_frame [simp]: "obs_prio (link_in h l n) = obs_prio h"
  by (cases l) (simp_all add: link_in_def Let_def)

lemma sorted_dropWhile_less:
  assumes "sorted_wrt (\<lambda>x y. p x \<ge> p y) xs" "y \<in> set (dropWhile (\<lambda>x. c \<le> p x) xs)"
  shows "p y < (c :: int)"
  using assms by (induction xs) (auto split: if_splits)

lemma obs_insert_sorted:
  assumes "sorted_wrt (\<lambda>x y. obs_prio h x \<ge> obs_prio h y) xs"
  shows "sorted_wrt (\<lambda>x y. obs_prio h x \<ge> obs_prio h y) (obs_insert h n xs)"
proof -
  have "sorted_wrt (\<lambda>x y. obs_prio h x \<ge> obs_prio h y)
      (takeWhile (\<lambda>x. obs_prio h n \<le> obs_prio h x) xs @
       dropWhile (\<lambda>x. obs_prio h n \<le> obs_prio h x) xs)" using assms by simp
  then show ?thesis
    using sorted_dropWhile_less [OF assms, of _ "obs_prio h n"]
    by (auto simp: obs_insert_def sorted_wrt_append simp del: takeWhile_dropWhile_id
        dest!: set_takeWhileD) force
qed

lemma set_obs_insert: "set (obs_insert h n xs) = insert n (set xs)"
  by (metis obs_insert_def list.set(2) set_append takeWhile_dropWhile_id Un_insert_right)

lemma distinct_obs_insert:
  assumes "distinct xs" "n \<notin> set xs"
  shows "distinct (obs_insert h n xs)"
proof -
  have "distinct (takeWhile (\<lambda>x. obs_prio h n \<le> obs_prio h x) xs @
      dropWhile (\<lambda>x. obs_prio h n \<le> obs_prio h x) xs)" using assms by simp
  then show ?thesis
    using assms(2) by (auto simp: obs_insert_def simp del: takeWhile_dropWhile_id
        dest: set_takeWhileD set_dropWhileD)
qed

lemma link_in_insert:
  assumes "obs_chain h xs" "n \<notin> set xs"
  shows "obs_chain (link_in h (link_after Head (takeWhile (\<lambda>x. obs_prio h n \<le> obs_prio h x) xs)) n)
    (obs_insert h n xs)"
proof -
  let ?t = "takeWhile (\<lambda>x. obs_prio h n \<le> obs_prio h x) xs"
  have "chain (link_in h (link_after Head ?t) n) (deref (link_in h (link_after Head ?t) n) Head)
      (?t @ n # dropWhile (\<lambda>x. obs_prio h n \<le> obs_prio h x) xs)"
    using assms by (intro link_in_chain) (auto simp: obs_chain_def simp del: set_append)
  then show ?thesis
    using assms distinct_obs_insert obs_insert_sorted
    by (simp add: obs_chain_def) (simp add: obs_insert_def)
qed

lemma cond_loop_absent:
  assumes "chain h (deref h nl) xs" "n \<notin> set xs"
  shows "cond_loop h nl n =
    Some (Inr (link_after nl (takeWhile (\<lambda>x. obs_prio h n \<le> obs_prio h x) xs)))"
  using assms
proof (induction xs arbitrary: nl)
  case Nil
  then show ?case by (simp add: cond_loop.simps)
next
  case (Cons a xs)
  then show ?case using Cons.IH [of "Next a"] by (subst cond_loop.simps) auto
qed

lemma cond_loop_present:
  assumes "chain h (deref h nl) xs" "n \<in> set xs" "sorted_wrt (\<lambda>x y. obs_prio h x \<ge> obs_prio h y) xs"
  shows "cond_loop h nl n = Some (Inl ())"
  using assms
proof (induction xs arbitrary: nl)
  case (Cons a xs)
  then show ?case using Cons.IH [of "Next a"] by (subst cond_loop.simps) fastforce
qed simp

lemma unregister_loop_absent:
  "chain h (deref h nl) xs \<Longrightarrow> n \<notin> set xs \<Longrightarrow> unregister_loop h nl n = Some (h, - EEXIST)"
proof (induction xs arbitrary: nl)
  case Nil
  then show ?case by (simp add: unregister_loop.simps)
next
  case (Cons a xs)
  then show ?case using Cons.IH [of "Next a"] by (subst unregister_loop.simps) auto
qed

lemma unregister_loop_present:
  assumes "chain h (deref h nl) xs" "n \<in> set xs" "distinct xs" "\<forall>x\<in>set xs. nl \<noteq> Next x"
  shows "\<exists>h'. unregister_loop h nl n = Some (h', 0) \<and> chain h' (deref h' nl) (remove1 n xs) \<and>
    obs_prio h' = obs_prio h \<and> (\<forall>l. l \<noteq> nl \<longrightarrow> (\<forall>x\<in>set xs. l \<noteq> Next x) \<longrightarrow> deref h' l = deref h l)"
  using assms
proof (induction xs arbitrary: nl)
  case (Cons a xs)
  show ?case
  proof (cases "a = n")
    case True
    let ?h' = "store h nl (obs_next h n)"
    have "unregister_loop h nl n = Some (?h', 0)"
      using Cons.prems(1) True by (subst unregister_loop.simps) auto
    moreover have "chain ?h' (obs_next h n) xs"
      by (rule chain_frame [of h]) (use Cons.prems True in \<open>cases nl; auto\<close>)+
    moreover have "deref ?h' l = deref h l" if "l \<noteq> nl" for l using that by (cases l; cases nl) auto
    ultimately show ?thesis using True by (cases nl) auto
  next
    case False
    then obtain h' where h': "unregister_loop h (Next a) n = Some (h', 0)"
      "chain h' (deref h' (Next a)) (remove1 n xs)" "obs_prio h' = obs_prio h"
      "\<forall>l. l \<noteq> Next a \<longrightarrow> (\<forall>x\<in>set xs. l \<noteq> Next x) \<longrightarrow> deref h' l = deref h l"
      using Cons.IH [of "Next a"] Cons.prems by auto
    have "unregister_loop h nl n = Some (h', 0)"
      using Cons.prems(1) False h'(1) by (subst unregister_loop.simps) auto
    moreover have "deref h' nl = Some a" using h'(4) Cons.prems(1,4) by auto
    ultimately show ?thesis using h' False by auto
  qed
qed simp

lemma sorted_wrt_remove1: "sorted_wrt P xs \<Longrightarrow> sorted_wrt P (remove1 x xs)"
  by (induction xs) (auto dest: notin_set_remove1 in_set_remove1 [THEN iffD1])

lemma chain_tail: "chain h p (pre @ x # ys) \<Longrightarrow> chain h (obs_next h x) ys"
  by (induction pre arbitrary: p) auto

lemma chain_first: "chain h p ys \<Longrightarrow> p = (case ys of [] \<Rightarrow> None | y # _ \<Rightarrow> Some y)"
  by (cases ys) auto

lemma notify_loop_list:
  assumes "keeps_tail update" "chain h (obs_head h) (pre @ xs)" "distinct (pre @ xs)"
  shows "notify_loop update (case xs of [] \<Rightarrow> None | x # _ \<Rightarrow> Some x) (h, w) ret
    = Some (notify_list update xs (h, w) ret)"
  using assms(2,3)
proof (induction xs arbitrary: pre h w ret)
  case Nil
  then show ?case by (simp add: notify_loop.simps)
next
  case (Cons x xs)
  obtain h' w' r where u: "update x (h, w) = ((h', w'), r)" by (metis surj_pair)
  have "\<exists>pre'. chain h' (obs_head h') (pre' @ xs) \<and> distinct (pre' @ xs)"
    using assms(1) Cons.prems u unfolding keeps_tail_def Let_def by (metis fst_conv)
  then obtain pre' where pre': "chain h' (obs_head h') (pre' @ xs)" "distinct (pre' @ xs)" by blast
  have nx: "obs_next h x = (case xs of [] \<Rightarrow> None | y # _ \<Rightarrow> Some y)"
    using chain_first [OF chain_tail [OF Cons.prems(1)]] .
  show ?case
    using Cons.IH [OF pre', of w' r] u nx by (subst notify_loop.simps) (simp add: Let_def)
qed

section \<open>Properties\<close>

text \<open>
  C26. On a chain that represents the list \<open>xs\<close>, sorted by descending priority: registering a new
  observer ends and inserts it behind all observers of at least its priority (equal
  priorities keep their order of registration), conditional registration of one that is
  already there changes nothing, removal ends and takes out exactly that observer, and
  removal of one that is not there reports an error and changes nothing. The chain stays
  sorted and free of duplicates.
\<close>

theorem observer_chain_ops:
  assumes "obs_chain h xs"
  shows "(n \<notin> set xs \<longrightarrow>
            (\<exists>h'. observer_register h n = Some (h', 0) \<and> observer_cond_register h n = Some (h', 0) \<and>
                  obs_chain h' (obs_insert h n xs) \<and> obs_prio h' = obs_prio h) \<and>
            observer_unregister h n = Some (h, - EEXIST)) \<and>
         (n \<in> set xs \<longrightarrow>
            observer_cond_register h n = Some (h, 0) \<and>
            (\<exists>h'. observer_unregister h n = Some (h', 0) \<and> obs_chain h' (remove1 n xs) \<and>
                  obs_prio h' = obs_prio h))"
proof (intro conjI impI)
  have c: "chain h (deref h Head) xs" and d: "distinct xs"
    and so: "sorted_wrt (\<lambda>x y. obs_prio h x \<ge> obs_prio h y) xs"
    using assms by (auto simp: obs_chain_def)
  show "\<exists>h'. observer_register h n = Some (h', 0) \<and> observer_cond_register h n = Some (h', 0) \<and>
      obs_chain h' (obs_insert h n xs) \<and> obs_prio h' = obs_prio h" if "n \<notin> set xs"
    using register_loop_finds [OF c, of n] cond_loop_absent [OF c that] link_in_insert [OF assms that]
    by (simp add: observer_register_def observer_cond_register_def)
  show "observer_unregister h n = Some (h, - EEXIST)" if "n \<notin> set xs"
    using unregister_loop_absent [OF c that] by (simp add: observer_unregister_def)
  show "observer_cond_register h n = Some (h, 0)" if "n \<in> set xs"
    using cond_loop_present [OF c that so] by (simp add: observer_cond_register_def)
  show "\<exists>h'. observer_unregister h n = Some (h', 0) \<and> obs_chain h' (remove1 n xs) \<and>
      obs_prio h' = obs_prio h" if "n \<in> set xs"
    using unregister_loop_present [OF c that d] sorted_wrt_remove1 [OF so, of n] d
    by (fastforce simp: observer_unregister_def obs_chain_def)
qed

text \<open>Three nodes with priorities 5, 5 and 1.\<close>

definition example_heap :: obs_heap where
  "example_heap = \<lparr>obs_head = Some 1, obs_next = (\<lambda>_. None)(1 := Some 2, 2 := Some 3),
     obs_prio = (\<lambda>_. 5)(3 := 1)\<rparr>"

lemma example_heap_chain: "obs_chain example_heap [1, 2, 3]"
  by (simp add: obs_chain_def example_heap_def)

theorem observer_chain_ops_witness:
  "\<exists>h'. observer_register example_heap 7 = Some (h', 0) \<and> obs_chain h' [1, 2, 7, 3]"
proof -
  have "obs_insert example_heap 7 [1, 2, 3] = [1, 2, 7, 3]"
    by (simp add: obs_insert_def example_heap_def)
  then show ?thesis using observer_chain_ops [OF example_heap_chain, of 7] by auto
qed

text \<open>
  C31. Notification calls the observers of the chain in order, each once, until one of them
  returns the stop bit, and returns the last result; it ends, also when observers take
  themselves off the chain during their own call.
\<close>

theorem observer_notify_order:
  assumes "obs_chain h xs" and "keeps_tail update"
  shows "observer_notify update (h, w) = Some (notify_list update xs (h, w) NOTIFY_DONE)"
  using notify_loop_list [OF assms(2), of h "[]" xs w NOTIFY_DONE] assms(1)
    chain_first [of h "obs_head h" xs]
  by (simp add: observer_notify_def obs_chain_def)

text \<open>An observer that records its call, takes itself off the chain and goes on.\<close>

definition oneshot :: "node \<Rightarrow> obs_heap \<times> node list \<Rightarrow> (obs_heap \<times> node list) \<times> u32" where
  "oneshot x w = (case observer_unregister (fst w) x of
      None \<Rightarrow> (w, 1) | Some (h', _) \<Rightarrow> ((h', snd w @ [x]), 1))"

lemma oneshot_keeps_tail: "keeps_tail oneshot"
proof -
  have "\<exists>pre'. chain (fst (fst (oneshot x (h, w)))) (obs_head (fst (fst (oneshot x (h, w)))))
      (pre' @ ys) \<and> distinct (pre' @ ys)"
    if c: "chain h (obs_head h) (pre @ x # ys)" "distinct (pre @ x # ys)" for x pre ys h w
  proof -
    obtain h' where h': "observer_unregister h x = Some (h', 0)"
      "chain h' (deref h' Head) (remove1 x (pre @ x # ys))"
      using unregister_loop_present [of h Head "pre @ x # ys" x] c
      by (auto simp: observer_unregister_def)
    have "remove1 x (pre @ x # ys) = pre @ ys" using c(2) by (simp add: remove1_append)
    then show ?thesis using h' c(2) by (auto simp: oneshot_def)
  qed
  then show ?thesis by (simp add: keeps_tail_def)
qed

theorem observer_notify_order_witness:
  "\<exists>h'. observer_notify oneshot (example_heap, []) = Some ((h', [1, 2, 3]), 1)"
proof -
  have "observer_notify oneshot (example_heap, []) =
      Some (notify_list oneshot [1, 2, 3] (example_heap, []) NOTIFY_DONE)"
    by (rule observer_notify_order [OF example_heap_chain oneshot_keeps_tail])
  then show ?thesis
    by (simp add: oneshot_def observer_unregister_def unregister_loop.simps example_heap_def
        NOTIFY_STOP_MASK_def)
qed

end
