(* ===== verification/Timer_List.thy ===== *)
theory Timer_List
  imports Prelude
begin

text \<open>
  The software timers of \<open>lib/timer/timer_list.c\<close>: a list in which every timer stores its
  expiry relative to its predecessor. The abstraction \<open>deadlines\<close> is the list of timers with
  their absolute expiries; insertion, removal and the tick are shown to act on it as the
  names say. Times are C \<open>long\<close>s in the range where their sums do not overflow. The expiry
  callbacks of \<open>timer_schedule\<close> run with the list unlocked and may call any operation of the
  module, so they are functions on its state and the rest of the world, and the loop, which
  such callbacks can keep running, is a partial function.
\<close>

section \<open>Definitions\<close>

type_synonym timer = nat

datatype timer_state = TIMER_STATE_IDLE | TIMER_STATE_INSERT | TIMER_STATE_ACTIVED
  | TIMER_STATE_INVALID

record timers =
  timer_list :: "timer list"
  expires_of :: "timer \<Rightarrow> int"
  state_of :: "timer \<Rightarrow> timer_state"

definition timer_first :: "timers \<Rightarrow> timer option" where
  "timer_first s = (case timer_list s of [] \<Rightarrow> None | t # _ \<Rightarrow> Some t)"

text \<open>
  The search for the insertion point: the nodes passed, the nodes behind it, what is left of
  the new timer's expiry, and the expiries after the node behind it has been adjusted.
\<close>

fun add_walk :: "(timer \<Rightarrow> int) \<Rightarrow> timer list \<Rightarrow> int
    \<Rightarrow> (timer \<Rightarrow> int) \<times> int \<times> timer list \<times> timer list" where
  "add_walk ex [] e = (ex, e, [], [])"
| "add_walk ex (tnode # ts) e =
     (if e < ex tnode then (ex(tnode := ex tnode - e), e, [], tnode # ts)
      else let (ex', e', pre, post) = add_walk ex ts (e - ex tnode)
           in (ex', e', tnode # pre, post))"

definition timer_add_locked :: "timers \<Rightarrow> timer \<Rightarrow> int \<Rightarrow> timers \<times> int" where
  "timer_add_locked s t e =
     (if state_of s t \<noteq> TIMER_STATE_IDLE then (s, - EBUSY)
      else
        let s = s\<lparr>state_of := (state_of s)(t := TIMER_STATE_INSERT)\<rparr>;
            (ex', e', pre, post) = add_walk (expires_of s) (timer_list s) e
        in (s\<lparr>timer_list := pre @ t # post, expires_of := ex'(t := e'),
              state_of := (state_of s)(t := TIMER_STATE_ACTIVED)\<rparr>, 0))"

text \<open>The neighbour behind a timer on the list, None for the list head.\<close>

definition next_timer :: "timers \<Rightarrow> timer \<Rightarrow> timer option" where
  "next_timer s t =
     (case tl (dropWhile (\<lambda>x. x \<noteq> t) (timer_list s)) of [] \<Rightarrow> None | n # _ \<Rightarrow> Some n)"

definition timer_remove_locked :: "timers \<Rightarrow> timer \<Rightarrow> timers \<times> int" where
  "timer_remove_locked s t =
     (if state_of s t = TIMER_STATE_IDLE then (s, 0)
      else
        let ex = (case next_timer s t of
                    None \<Rightarrow> expires_of s
                  | Some n \<Rightarrow> (expires_of s)(n := expires_of s n + expires_of s t))
        in (s\<lparr>timer_list := remove1 t (timer_list s), expires_of := ex,
              state_of := (state_of s)(t := TIMER_STATE_IDLE)\<rparr>, 1))"

definition timer_init :: "timers \<Rightarrow> timer \<Rightarrow> timers" where
  "timer_init s t = s\<lparr>expires_of := (expires_of s)(t := 0),
     state_of := (state_of s)(t := TIMER_STATE_IDLE)\<rparr>"

definition timer_mod :: "timers \<Rightarrow> timer \<Rightarrow> int \<Rightarrow> timers \<times> int" where
  "timer_mod s t e = (let (s, _) = timer_remove_locked s t in timer_add_locked s t e)"

definition timer_add :: "timers \<Rightarrow> timer \<Rightarrow> int \<Rightarrow> timers \<times> int" where
  "timer_add s t e = timer_add_locked s t e"

definition timer_del :: "timers \<Rightarrow> timer \<Rightarrow> timers \<times> int" where
  "timer_del s t = timer_remove_locked s t"

text \<open>The tail of \<open>timer_schedule\<close>: the first timer is not due.\<close>

definition schedule_out :: "timers \<Rightarrow> timer \<Rightarrow> int \<Rightarrow> timers \<times> int" where
  "schedule_out s t e =
     (let next_expired = expires_of s t - e
      in (s\<lparr>expires_of := (expires_of s)(t := next_expired)\<rparr>, next_expired))"

partial_function (option) schedule_loop ::
  "(timer \<Rightarrow> timers \<times> 'w \<Rightarrow> timers \<times> 'w) \<Rightarrow> timers \<times> 'w \<Rightarrow> timer \<Rightarrow> int
     \<Rightarrow> ((timers \<times> 'w) \<times> int) option" where
  "schedule_loop fn w t e =
     (let s = fst w;
          s = s\<lparr>timer_list := remove1 t (timer_list s)\<rparr>;
          e = e - expires_of s t;
          s = s\<lparr>state_of := (state_of s)(t := TIMER_STATE_IDLE)\<rparr>;
          (s, w) = fn t (s, snd w)
      in case timer_first s of
           None \<Rightarrow> Some ((s, w), 0)
         | Some t' \<Rightarrow>
             if expires_of s t' \<le> e then schedule_loop fn (s, w) t' e
             else let (s, r) = schedule_out s t' e in Some ((s, w), r))"

definition timer_schedule ::
  "(timer \<Rightarrow> timers \<times> 'w \<Rightarrow> timers \<times> 'w) \<Rightarrow> timers \<times> 'w \<Rightarrow> int \<Rightarrow> ((timers \<times> 'w) \<times> int) option"
  where
  "timer_schedule fn w e =
     (case timer_first (fst w) of
        None \<Rightarrow> Some (w, 0)
      | Some t \<Rightarrow>
          if expires_of (fst w) t > e
          then let (s, r) = schedule_out (fst w) t e in Some ((s, snd w), r)
          else schedule_loop fn w t e)"

definition timer_visit :: "(timer \<Rightarrow> 'w \<Rightarrow> 'w) \<Rightarrow> timers \<Rightarrow> 'w \<Rightarrow> 'w" where
  "timer_visit visitor s w = fold visitor (timer_list s) w"

text \<open>
  The absolute expiries, counted from the last tick, and the invariant: the timers that are
  not idle are on the list, each once.
\<close>

fun deadlines_from :: "(timer \<Rightarrow> int) \<Rightarrow> int \<Rightarrow> timer list \<Rightarrow> (timer \<times> int) list" where
  "deadlines_from ex b [] = []"
| "deadlines_from ex b (t # ts) = (t, b + ex t) # deadlines_from ex (b + ex t) ts"

definition deadlines :: "timers \<Rightarrow> (timer \<times> int) list" where
  "deadlines s = deadlines_from (expires_of s) 0 (timer_list s)"

definition timers_inv :: "timers \<Rightarrow> bool" where
  "timers_inv s \<longleftrightarrow> distinct (timer_list s) \<and>
     (\<forall>t. t \<in> set (timer_list s) \<longleftrightarrow> state_of s t \<noteq> TIMER_STATE_IDLE)"

text \<open>Insertion behind every timer that is due no later.\<close>

definition insert_deadline :: "timer \<Rightarrow> int \<Rightarrow> (timer \<times> int) list \<Rightarrow> (timer \<times> int) list" where
  "insert_deadline t e D =
     takeWhile (\<lambda>(_, d). d \<le> e) D @ (t, e) # dropWhile (\<lambda>(_, d). d \<le> e) D"

text \<open>
  Callbacks that leave the timers alone, the timers due within \<open>e\<close>, and the ones that are not
  with the time that remains.
\<close>

definition inert :: "(timer \<Rightarrow> 'w \<Rightarrow> 'w) \<Rightarrow> timer \<Rightarrow> timers \<times> 'w \<Rightarrow> timers \<times> 'w" where
  "inert f t w = (fst w, f t (snd w))"

definition due :: "int \<Rightarrow> (timer \<times> int) list \<Rightarrow> timer list" where
  "due e D = map fst (takeWhile (\<lambda>(_, d). d \<le> e) D)"

definition pending :: "int \<Rightarrow> (timer \<times> int) list \<Rightarrow> (timer \<times> int) list" where
  "pending e D = map (\<lambda>(t, d). (t, d - e)) (dropWhile (\<lambda>(_, d). d \<le> e) D)"

section \<open>Lemmas\<close>

lemma deadlines_from_cong:
  "\<forall>t\<in>set ts. ex t = ex' t \<Longrightarrow> deadlines_from ex b ts = deadlines_from ex' b ts"
  by (induction ts arbitrary: b) auto

lemma deadlines_from_append:
  "deadlines_from ex b (xs @ ys) =
   deadlines_from ex b xs @ deadlines_from ex (b + sum_list (map ex xs)) ys"
  by (induction xs arbitrary: b) (auto simp: add.assoc)

lemma map_fst_deadlines_from [simp]: "map fst (deadlines_from ex b ts) = ts"
  by (induction ts arbitrary: b) auto

lemma add_walk_split:
  "add_walk ex ts e = (ex', e', pre, post) \<Longrightarrow>
   pre @ post = ts \<and> (\<forall>x. x \<notin> set post \<longrightarrow> ex' x = ex x)"
  by (induction ex ts e arbitrary: ex' e' pre post rule: add_walk.induct)
     (auto split: if_splits prod.splits)

lemma add_walk_deadlines:
  assumes "add_walk ex ts e = (ex', e', pre, post)" "distinct ts" "t \<notin> set ts"
  shows "deadlines_from (ex'(t := e')) b (pre @ t # post) =
    insert_deadline t (b + e) (deadlines_from ex b ts)"
  using assms
proof (induction ex ts e arbitrary: ex' e' pre post b rule: add_walk.induct)
  case (1 ex e)
  then show ?case by (simp add: insert_deadline_def)
next
  case (2 ex tnode ts e)
  show ?case
  proof (cases "e < ex tnode")
    case True
    have "deadlines_from (ex(tnode := ex tnode - e, t := e)) c ts = deadlines_from ex c ts" for c
      using 2(3,4) by (intro deadlines_from_cong) auto
    moreover have "ex' = ex(tnode := ex tnode - e)" "e' = e" "pre = []" "post = tnode # ts"
      using 2(2) True by auto
    ultimately show ?thesis using 2(3,4) True by (simp add: insert_deadline_def fun_upd_def)
  next
    case False
    then obtain pre' where w: "add_walk ex ts (e - ex tnode) = (ex', e', pre', post)"
      "pre = tnode # pre'" using 2(2) by (auto split: prod.splits)
    have "ex' tnode = ex tnode" "tnode \<noteq> t"
      using add_walk_split [OF w(1)] 2(3,4) by auto
    then show ?thesis
      using 2(1) [OF False w(1), of "b + ex tnode"] 2(3,4) False w(2)
      by (simp add: insert_deadline_def)
  qed
qed

lemma insert_deadline_id:
  "map fst (insert_deadline t e D) = map fst (takeWhile (\<lambda>(_, d). d \<le> e) D) @
     t # map fst (dropWhile (\<lambda>(_, d). d \<le> e) D)"
  by (simp add: insert_deadline_def)

lemma timer_add_ok:
  assumes inv: "timers_inv s" and idle: "state_of s t = TIMER_STATE_IDLE"
    and r: "timer_add s t e = (s', r)"
  shows "r = 0 \<and> timers_inv s' \<and> deadlines s' = insert_deadline t e (deadlines s)"
proof -
  obtain ex' e' pre post where w: "add_walk (expires_of s) (timer_list s) e = (ex', e', pre, post)"
    using prod_cases4 by blast
  have n: "t \<notin> set (timer_list s)" "distinct (timer_list s)" using inv idle by (auto simp: timers_inv_def)
  have sp: "pre @ post = timer_list s" using add_walk_split [OF w] by simp
  have s': "r = 0" "timer_list s' = pre @ t # post" "expires_of s' = ex'(t := e')"
    "state_of s' = (state_of s)(t := TIMER_STATE_ACTIVED)"
    using r idle w by (auto simp: timer_add_def timer_add_locked_def Let_def)
  have "distinct (pre @ post)" "set (pre @ post) = set (timer_list s)" using n sp by auto
  then have "timers_inv s'" using inv n s' by (auto simp: timers_inv_def)
  then show ?thesis
    using add_walk_deadlines [OF w n(2) n(1), of 0] s' by (simp add: deadlines_def)
qed

lemma remove_deadlines:
  assumes "distinct (pre @ t # post)"
    and "ex' = (case post of [] \<Rightarrow> ex | n # _ \<Rightarrow> ex(n := ex n + ex t))"
  shows "deadlines_from ex' b (pre @ post) =
    filter (\<lambda>(x, _). x \<noteq> t) (deadlines_from ex b (pre @ t # post))"
proof -
  have f: "filter (\<lambda>(x, _). x \<noteq> t) (deadlines_from ex c xs) = deadlines_from ex c xs"
    if "t \<notin> set xs" for c xs using that by (induction xs arbitrary: c) auto
  have "deadlines_from ex' c pre = deadlines_from ex c pre" for c
    using assms by (intro deadlines_from_cong) (auto split: list.splits)
  moreover have "map ex' pre = map ex pre" using assms by (auto split: list.splits)
  moreover have "deadlines_from ex' c post = deadlines_from ex (c + ex t) post" for c
  proof (cases post)
    case (Cons n ns)
    have "deadlines_from ex' d ns = deadlines_from ex d ns" for d
      using assms Cons by (intro deadlines_from_cong) auto
    then show ?thesis using assms Cons by (simp add: algebra_simps)
  qed simp
  ultimately show ?thesis
    using assms(1) by (simp add: deadlines_from_append f del: map_eq_conv)
qed

lemma timer_del_ok:
  assumes inv: "timers_inv s" and act: "state_of s t \<noteq> TIMER_STATE_IDLE"
    and r: "timer_del s t = (s', r)"
  shows "r = 1 \<and> timers_inv s' \<and> state_of s' t = TIMER_STATE_IDLE \<and>
    deadlines s' = filter (\<lambda>(x, _). x \<noteq> t) (deadlines s)"
proof -
  have "t \<in> set (timer_list s)" and d: "distinct (timer_list s)"
    using inv act by (auto simp: timers_inv_def)
  then obtain pre post where l: "timer_list s = pre @ t # post" by (meson split_list)
  have np: "t \<notin> set pre" "t \<notin> set post" using d l by auto
  then have dw: "dropWhile (\<lambda>x. x \<noteq> t) (timer_list s) = t # post"
    by (simp add: l dropWhile_append3) (metis dropWhile_append2 dropWhile_eq_Cons_conv)
  have "remove1 t (timer_list s) = pre @ post" using np by (simp add: l remove1_append)
  then have s': "r = 1" "timer_list s' = pre @ post"
    "expires_of s' = (case post of [] \<Rightarrow> expires_of s
       | n # _ \<Rightarrow> (expires_of s)(n := expires_of s n + expires_of s t))"
    "state_of s' = (state_of s)(t := TIMER_STATE_IDLE)"
    using r act dw
    by (auto simp: timer_del_def timer_remove_locked_def next_timer_def Let_def split: list.splits)
  have "timers_inv s'" using inv s' l d by (auto simp: timers_inv_def)
  then show ?thesis
    using remove_deadlines [OF _ s'(3), of pre 0] d l s' by (simp add: deadlines_def)
qed

text \<open>
  Callbacks that leave the timers alone: the tick fires the due timers in order, and the
  others move closer by the time that has passed.
\<close>

lemma deadlines_from_shift:
  "deadlines_from ex (b + c) ts = map (\<lambda>(t, d). (t, d + c)) (deadlines_from ex b ts)"
proof (induction ts arbitrary: b)
  case (Cons t ts)
  have eq: "b + c + ex t = (b + ex t) + c" by simp
  show ?case using Cons.IH [of "b + ex t"] unfolding deadlines_from.simps eq by simp
qed simp

lemma schedule_out_deadlines:
  assumes "timer_list s = t # ts" "distinct (t # ts)" "schedule_out s t e = (s', r)"
  shows "timer_list s' = t # ts \<and> state_of s' = state_of s \<and> r = expires_of s t - e \<and>
    deadlines s' = map (\<lambda>(x, d). (x, d - e)) (deadlines s)"
proof -
  have s': "s' = s\<lparr>expires_of := (expires_of s)(t := expires_of s t - e)\<rparr>" "r = expires_of s t - e"
    using assms(3) by (auto simp: schedule_out_def Let_def)
  have "deadlines_from ((expires_of s)(t := expires_of s t - e)) c ts
      = deadlines_from (expires_of s) c ts" for c
    using assms(2) by (intro deadlines_from_cong) auto
  moreover have "deadlines_from (expires_of s) (expires_of s t - e) ts
      = map (\<lambda>(x, d). (x, d - e)) (deadlines_from (expires_of s) (expires_of s t) ts)"
    using deadlines_from_shift [of "expires_of s" "expires_of s t" "- e" ts] by simp
  ultimately show ?thesis using s' assms(1) by (simp add: deadlines_def)
qed

lemma pending_shift:
  "pending (e + c) (map (\<lambda>(t, d). (t, d + c)) D) = pending e D"
  "due (e + c) (map (\<lambda>(t, d). (t, d + c)) D) = due e D"
  by (induction D) (auto simp: pending_def due_def)

lemma schedule_loop_inert:
  assumes "timer_list s = t # ts" "distinct (t # ts)" "expires_of s t \<le> e"
  shows "\<exists>s' r. schedule_loop (inert f) (s, w) t e = Some ((s', fold f (due e (deadlines s)) w), r) \<and>
    deadlines s' = pending e (deadlines s) \<and>
    state_of s' = (\<lambda>x. if x \<in> set (due e (deadlines s)) then TIMER_STATE_IDLE else state_of s x) \<and>
    r = (case pending e (deadlines s) of [] \<Rightarrow> 0 | (_, d) # _ \<Rightarrow> d)"
  using assms
proof (induction ts arbitrary: s t e w)
  case Nil
  then show ?case
    by (subst schedule_loop.simps)
       (auto simp: inert_def timer_first_def deadlines_def due_def pending_def)
next
  case (Cons t' ts)
  let ?s1 = "s\<lparr>timer_list := t' # ts, state_of := (state_of s)(t := TIMER_STATE_IDLE)\<rparr>"
  let ?e1 = "e - expires_of s t"
  have D: "deadlines s = (t, expires_of s t) #
      map (\<lambda>(x, d). (x, d + expires_of s t)) (deadlines ?s1)"
    using Cons.prems(1) deadlines_from_shift [of "expires_of s" 0 "expires_of s t" "t' # ts"]
    by (simp add: deadlines_def)
  have due: "due e (deadlines s) = t # due ?e1 (deadlines ?s1)"
    and pen: "pending e (deadlines s) = pending ?e1 (deadlines ?s1)"
    using D Cons.prems(3) pending_shift [of ?e1 "expires_of s t" "deadlines ?s1"]
    by (simp_all add: due_def pending_def)
  have step: "schedule_loop (inert f) (s, w) t e =
      (if expires_of ?s1 t' \<le> ?e1 then schedule_loop (inert f) (?s1, f t w) t' ?e1
       else let (s, r) = schedule_out ?s1 t' ?e1 in Some ((s, f t w), r))"
    using Cons.prems(1) by (subst schedule_loop.simps) (simp add: inert_def timer_first_def Let_def)
  show ?case
  proof (cases "expires_of ?s1 t' \<le> ?e1")
    case True
    obtain s' r where "schedule_loop (inert f) (?s1, f t w) t' ?e1 =
        Some ((s', fold f (due ?e1 (deadlines ?s1)) (f t w)), r)"
      "deadlines s' = pending ?e1 (deadlines ?s1)"
      "state_of s' = (\<lambda>x. if x \<in> set (due ?e1 (deadlines ?s1)) then TIMER_STATE_IDLE
         else state_of ?s1 x)"
      "r = (case pending ?e1 (deadlines ?s1) of [] \<Rightarrow> 0 | (_, d) # _ \<Rightarrow> d)"
      using Cons.IH [of ?s1 t' ?e1 "f t w"] Cons.prems True by auto
    then show ?thesis using step True due pen by (auto simp: fun_eq_iff)
  next
    case False
    obtain s' r where o: "schedule_out ?s1 t' ?e1 = (s', r)" by fastforce
    have "due ?e1 (deadlines ?s1) = []" "dropWhile (\<lambda>(_, d). d \<le> ?e1) (deadlines ?s1) = deadlines ?s1"
      using False by (simp_all add: due_def deadlines_def)
    then show ?thesis
      using schedule_out_deadlines [OF _ _ o, of ts] Cons.prems step False due pen o
      by (auto simp: pending_def deadlines_def fun_eq_iff)
  qed
qed

lemma timer_schedule_inert:
  assumes "timers_inv s"
  shows "\<exists>s' r. timer_schedule (inert f) (s, w) e =
      Some ((s', fold f (due e (deadlines s)) w), r) \<and>
    timers_inv s' \<and> deadlines s' = pending e (deadlines s) \<and>
    r = (case pending e (deadlines s) of [] \<Rightarrow> 0 | (_, d) # _ \<Rightarrow> d)"
proof (cases "timer_list s")
  case Nil
  then show ?thesis using assms
    by (simp add: timer_schedule_def timer_first_def deadlines_def due_def pending_def)
next
  case (Cons t ts)
  have d: "distinct (t # ts)" using assms Cons by (simp add: timers_inv_def)
  have idl: "map fst (deadlines s) = timer_list s" for s by (simp add: deadlines_def)
  show ?thesis
  proof (cases "expires_of s t > e")
    case True
    obtain s' r where o: "schedule_out s t e = (s', r)" by fastforce
    note so = schedule_out_deadlines [OF Cons d o]
    have "due e (deadlines s) = []" "dropWhile (\<lambda>(_, d). d \<le> e) (deadlines s) = deadlines s"
      using True Cons by (simp_all add: due_def deadlines_def)
    moreover have "deadlines s = (t, expires_of s t) # deadlines_from (expires_of s) (expires_of s t) ts"
      using Cons by (simp add: deadlines_def)
    ultimately show ?thesis
      using so True o Cons assms
      by (auto simp: timer_schedule_def timer_first_def pending_def timers_inv_def)
  next
    case False
    then obtain s' r where sl: "schedule_loop (inert f) (s, w) t e =
        Some ((s', fold f (due e (deadlines s)) w), r)"
      "deadlines s' = pending e (deadlines s)"
      "state_of s' = (\<lambda>x. if x \<in> set (due e (deadlines s)) then TIMER_STATE_IDLE else state_of s x)"
      "r = (case pending e (deadlines s) of [] \<Rightarrow> 0 | (_, d) # _ \<Rightarrow> d)"
      using schedule_loop_inert [OF Cons d, of e f w] by auto
    have tl: "timer_list s' = map fst (dropWhile (\<lambda>(_, d). d \<le> e) (deadlines s))"
      using arg_cong [OF sl(2), of "map fst"] idl [of s'] by (simp add: pending_def comp_def case_prod_beta)
    have app: "due e (deadlines s) @ timer_list s' = timer_list s"
      unfolding due_def tl map_append [symmetric] takeWhile_dropWhile_id by (rule idl)
    then have ds: "distinct (due e (deadlines s) @ timer_list s')"
      "set (timer_list s) = set (due e (deadlines s)) \<union> set (timer_list s')"
      using d Cons by (metis app, metis app set_append)
    have "timers_inv s'"
      using assms ds sl(3) by (auto simp: timers_inv_def)
    then show ?thesis using sl False Cons by (simp add: timer_schedule_def timer_first_def)
  qed
qed

lemma due_split:
  "0 \<le> e2 \<Longrightarrow> due (e1 + e2) D = due e1 D @ due e2 (pending e1 D)"
proof (induction D)
  case (Cons x D)
  then show ?case
    using pending_shift(2) [of e2 e1 "map (\<lambda>(t, d). (t, d - e1)) (x # D)"]
    by (cases x) (auto simp: due_def pending_def comp_def case_prod_beta algebra_simps)
qed (simp add: due_def pending_def)

lemma pending_split:
  "0 \<le> e2 \<Longrightarrow> pending (e1 + e2) D = pending e2 (pending e1 D)"
proof (induction D)
  case (Cons x D)
  then show ?case
    using pending_shift(1) [of e2 e1 "map (\<lambda>(t, d). (t, d - e1)) (x # D)"]
    by (cases x) (auto simp: pending_def comp_def case_prod_beta algebra_simps)
qed (simp add: pending_def)

section \<open>Properties\<close>

text \<open>
  C4. On the absolute expiries: adding an idle timer puts it behind every timer due no later
  (timers of equal expiry fire in the order they were added) and changes no other expiry;
  deleting an active timer removes it and changes no other expiry; \<open>timer_mod\<close> is the two in
  sequence; adding a timer that is not idle is refused, deleting an idle one does nothing.
\<close>

theorem timer_ops_deadlines:
  assumes "timers_inv s"
  shows "(if state_of s t = TIMER_STATE_IDLE
          then timer_del s t = (s, 0) \<and>
               (\<exists>s'. timer_add s t e = (s', 0) \<and> timer_mod s t e = (s', 0) \<and> timers_inv s' \<and>
                     deadlines s' = insert_deadline t e (deadlines s))
          else timer_add s t e = (s, - EBUSY) \<and>
               (\<exists>s'. timer_del s t = (s', 1) \<and> timers_inv s' \<and>
                     deadlines s' = filter (\<lambda>(x, _). x \<noteq> t) (deadlines s)) \<and>
               (\<exists>s'. timer_mod s t e = (s', 0) \<and> timers_inv s' \<and>
                     deadlines s' = insert_deadline t e (filter (\<lambda>(x, _). x \<noteq> t) (deadlines s))))"
proof (cases "state_of s t = TIMER_STATE_IDLE")
  case True
  obtain s' r where a: "timer_add s t e = (s', r)" by fastforce
  have "timer_del s t = (s, 0)" using True by (simp add: timer_del_def timer_remove_locked_def)
  moreover have "timer_mod s t e = timer_add s t e"
    using True by (simp add: timer_mod_def timer_add_def timer_remove_locked_def)
  ultimately show ?thesis using timer_add_ok [OF assms True a] a True by simp
next
  case False
  obtain s1 r where d: "timer_del s t = (s1, r)" by fastforce
  note dd = timer_del_ok [OF assms False d]
  obtain s' r' where a: "timer_add s1 t e = (s', r')" by fastforce
  have "timer_mod s t e = timer_add s1 t e"
    using d by (simp add: timer_mod_def timer_add_def timer_del_def)
  then show ?thesis
    using timer_add_ok [of s1 t e s' r'] dd a d False
    by (simp add: timer_add_def timer_add_locked_def)
qed

text \<open>Timer 1 due in 10, timer 2 in 15, timer 3 in 15.\<close>

definition example_timers :: timers where
  "example_timers = \<lparr>timer_list = [1, 2, 3], expires_of = (\<lambda>_. 0)(1 := 10, 2 := 5),
     state_of = (\<lambda>_. TIMER_STATE_IDLE)(1 := TIMER_STATE_ACTIVED, 2 := TIMER_STATE_ACTIVED,
       3 := TIMER_STATE_ACTIVED)\<rparr>"

lemma example_timers_inv: "timers_inv example_timers"
  by (auto simp: timers_inv_def example_timers_def)

lemma example_timers_deadlines: "deadlines example_timers = [(1, 10), (2, 15), (3, 15)]"
  by (simp add: deadlines_def example_timers_def)

theorem timer_ops_deadlines_witness:
  "\<exists>s'. timer_add example_timers 9 15 = (s', 0) \<and>
     deadlines s' = [(1, 10), (2, 15), (3, 15), (9, 15)]"
proof -
  have "state_of example_timers 9 = TIMER_STATE_IDLE" by (simp add: example_timers_def)
  then show ?thesis
    using timer_ops_deadlines [OF example_timers_inv, of 9 15]
    by (auto simp: example_timers_deadlines insert_deadline_def)
qed



text \<open>
  Ticks add up: a tick of \<open>e1\<close> followed by one of \<open>e2\<close> calls the same timers in the same order,
  leaves the same expiries and returns the same time as one tick of \<open>e1 + e2\<close>.
\<close>

theorem timer_ticks_add_up:
  assumes "timers_inv s" "0 \<le> e2"
    and "timer_schedule (inert f) (s, w) e1 = Some ((s1, w1), r1)"
    and "timer_schedule (inert f) (s1, w1) e2 = Some ((s2, w2), r2)"
    and "timer_schedule (inert f) (s, w) (e1 + e2) = Some ((s3, w3), r3)"
  shows "w2 = w3 \<and> deadlines s2 = deadlines s3 \<and> r2 = r3"
proof -
  have 1: "timers_inv s1" "deadlines s1 = pending e1 (deadlines s)"
    "w1 = fold f (due e1 (deadlines s)) w"
    using timer_schedule_inert [OF assms(1), of f w e1] assms(3) by auto
  have 2: "w2 = fold f (due e2 (deadlines s1)) w1" "deadlines s2 = pending e2 (deadlines s1)"
    "r2 = (case pending e2 (deadlines s1) of [] \<Rightarrow> 0 | (_, d) # _ \<Rightarrow> d)"
    using timer_schedule_inert [OF 1(1), of f w1 e2] assms(4) by auto
  have 3: "w3 = fold f (due (e1 + e2) (deadlines s)) w"
    "deadlines s3 = pending (e1 + e2) (deadlines s)"
    "r3 = (case pending (e1 + e2) (deadlines s) of [] \<Rightarrow> 0 | (_, d) # _ \<Rightarrow> d)"
    using timer_schedule_inert [OF assms(1), of f w "e1 + e2"] assms(5) by auto
  show ?thesis
    unfolding 2 3 1 due_split [OF assms(2)] pending_split [OF assms(2)] by simp
qed

theorem timer_ticks_add_up_witness:
  "\<exists>s1 w1 r1 s2 w2 r2 s3 w3 r3 :: int.
     timer_schedule (inert (\<lambda>t fired. fired @ [t])) (example_timers, []) 12 = Some ((s1, w1), r1) \<and>
     timer_schedule (inert (\<lambda>t fired. fired @ [t])) (s1, w1) 3 = Some ((s2, w2), r2) \<and>
     timer_schedule (inert (\<lambda>t fired. fired @ [t])) (example_timers, []) 15 = Some ((s3, w3), r3) \<and>
     w2 = w3 \<and> deadlines s2 = deadlines s3 \<and> r2 = r3"
proof -
  let ?fn = "inert (\<lambda>t fired. fired @ [t])"
  obtain s1 w1 r1 where 1: "timer_schedule ?fn (example_timers, []) 12 = Some ((s1, w1), r1)"
    "timers_inv s1" using timer_schedule_inert [OF example_timers_inv, of "\<lambda>t fired. fired @ [t]" "[]" 12]
    by blast
  obtain s2 w2 r2 where 2: "timer_schedule ?fn (s1, w1) 3 = Some ((s2, w2), r2)"
    using timer_schedule_inert [OF 1(2), of "\<lambda>t fired. fired @ [t]" w1 3] by blast
  obtain s3 w3 r3 where 3: "timer_schedule ?fn (example_timers, []) (12 + 3) = Some ((s3, w3), r3)"
    using timer_schedule_inert [OF example_timers_inv, of "\<lambda>t fired. fired @ [t]" "[]" "12 + 3"]
    by blast
  show ?thesis
    using timer_ticks_add_up [OF example_timers_inv _ 1(1) 2 3] 1(1) 2 3 by auto
qed

end
