(* ===== verification/Linked_List.thy ===== *)
theory Linked_List
  imports Prelude
begin

text \<open>
  The intrusive lists of \<open>container/list.h\<close> on a heap of links: the circular doubly linked
  lists with a head (\<open>struct rte_list\<close>) and the hash-bucket lists whose nodes point back to the
  link that points to them (\<open>struct rte_hlist\<close>, \<open>struct rte_hnode\<close>). \<open>ring h head xs\<close> says that the
  head \<open>head\<close> represents the list \<open>xs\<close>; the operations are shown to be the list operations their
  names say.
\<close>

section \<open>Definitions: circular lists\<close>

type_synonym ptr = nat

abbreviation (input) NULL :: ptr where "NULL \<equiv> 0"

record lheap =
  lnext :: "ptr \<Rightarrow> ptr"
  lprev :: "ptr \<Rightarrow> ptr"

definition set_next :: "ptr \<Rightarrow> ptr \<Rightarrow> lheap \<Rightarrow> lheap" where
  "set_next p v h = h\<lparr>lnext := (lnext h)(p := v)\<rparr>"

definition set_prev :: "ptr \<Rightarrow> ptr \<Rightarrow> lheap \<Rightarrow> lheap" where
  "set_prev p v h = h\<lparr>lprev := (lprev h)(p := v)\<rparr>"

definition init_list :: "ptr \<Rightarrow> lheap \<Rightarrow> lheap" where
  "init_list l h = set_prev l l (set_next l l h)"

definition list_add_between :: "ptr \<Rightarrow> ptr \<Rightarrow> ptr \<Rightarrow> lheap \<Rightarrow> lheap" where
  "list_add_between newn prev nxt h =
     (let h = set_prev nxt newn h; h = set_next newn nxt h; h = set_prev newn prev h
      in set_next prev newn h)"

definition rte_list_add :: "ptr \<Rightarrow> ptr \<Rightarrow> lheap \<Rightarrow> lheap" where
  "rte_list_add newn head h = list_add_between newn head (lnext h head) h"

definition rte_list_add_tail :: "ptr \<Rightarrow> ptr \<Rightarrow> lheap \<Rightarrow> lheap" where
  "rte_list_add_tail newn head h = list_add_between newn (lprev h head) head h"

definition list_del_between :: "ptr \<Rightarrow> ptr \<Rightarrow> lheap \<Rightarrow> lheap" where
  "list_del_between prev nxt h = (let h = set_prev nxt prev h in set_next prev nxt h)"

definition list_del_entry :: "ptr \<Rightarrow> lheap \<Rightarrow> lheap" where
  "list_del_entry e h = list_del_between (lprev h e) (lnext h e) h"

definition rte_list_del :: "ptr \<Rightarrow> lheap \<Rightarrow> lheap" where
  "rte_list_del e h = (let h = list_del_entry e h; h = set_next e NULL h in set_prev e NULL h)"

definition rte_list_replace :: "ptr \<Rightarrow> ptr \<Rightarrow> lheap \<Rightarrow> lheap" where
  "rte_list_replace old newn h =
     (let h = set_next newn (lnext h old) h;
          h = set_prev (lnext h newn) newn h;
          h = set_prev newn (lprev h old) h
      in set_next (lprev h newn) newn h)"

definition rte_list_replace_init :: "ptr \<Rightarrow> ptr \<Rightarrow> lheap \<Rightarrow> lheap" where
  "rte_list_replace_init old newn h = init_list old (rte_list_replace old newn h)"

definition rte_list_del_init :: "ptr \<Rightarrow> lheap \<Rightarrow> lheap" where
  "rte_list_del_init e h = init_list e (list_del_entry e h)"

definition rte_list_move :: "ptr \<Rightarrow> ptr \<Rightarrow> lheap \<Rightarrow> lheap" where
  "rte_list_move l head h = rte_list_add l head (list_del_entry l h)"

definition rte_list_move_tail :: "ptr \<Rightarrow> ptr \<Rightarrow> lheap \<Rightarrow> lheap" where
  "rte_list_move_tail l head h = rte_list_add_tail l head (list_del_entry l h)"

definition rte_list_is_last :: "ptr \<Rightarrow> ptr \<Rightarrow> lheap \<Rightarrow> bool" where
  "rte_list_is_last l head h \<longleftrightarrow> lnext h l = head"

definition rte_list_empty :: "ptr \<Rightarrow> lheap \<Rightarrow> bool" where
  "rte_list_empty head h \<longleftrightarrow> lnext h head = head"

definition rte_list_empty_careful :: "ptr \<Rightarrow> lheap \<Rightarrow> bool" where
  "rte_list_empty_careful head h \<longleftrightarrow> (let nxt = lnext h head in nxt = head \<and> nxt = lprev h head)"

definition rte_list_rotate_left :: "ptr \<Rightarrow> lheap \<Rightarrow> lheap" where
  "rte_list_rotate_left head h =
     (if \<not> rte_list_empty head h then rte_list_move_tail (lnext h head) head h else h)"

definition rte_list_is_singular :: "ptr \<Rightarrow> lheap \<Rightarrow> bool" where
  "rte_list_is_singular head h \<longleftrightarrow> \<not> rte_list_empty head h \<and> lnext h head = lprev h head"

definition list_cut_position_in :: "ptr \<Rightarrow> ptr \<Rightarrow> ptr \<Rightarrow> lheap \<Rightarrow> lheap" where
  "list_cut_position_in l head e h =
     (let new_first = lnext h e;
          h = set_next l (lnext h head) h;
          h = set_prev (lnext h l) l h;
          h = set_prev l e h;
          h = set_next e l h;
          h = set_next head new_first h
      in set_prev new_first head h)"

definition rte_list_cut_position :: "ptr \<Rightarrow> ptr \<Rightarrow> ptr \<Rightarrow> lheap \<Rightarrow> lheap" where
  "rte_list_cut_position l head e h =
     (if rte_list_empty head h then h
      else if rte_list_is_singular head h \<and> (lnext h head \<noteq> e \<and> head \<noteq> e) then h
      else if e = head then init_list l h
      else list_cut_position_in l head e h)"

definition rte_list_cut_before :: "ptr \<Rightarrow> ptr \<Rightarrow> ptr \<Rightarrow> lheap \<Rightarrow> lheap" where
  "rte_list_cut_before l head e h =
     (if lnext h head = e then init_list l h
      else
        let h = set_next l (lnext h head) h;
            h = set_prev (lnext h l) l h;
            h = set_prev l (lprev h e) h;
            h = set_next (lprev h l) l h;
            h = set_next head e h
        in set_prev e head h)"

definition list_splice_between :: "ptr \<Rightarrow> ptr \<Rightarrow> ptr \<Rightarrow> lheap \<Rightarrow> lheap" where
  "list_splice_between l prev nxt h =
     (let first = lnext h l; lst = lprev h l;
          h = set_prev first prev h;
          h = set_next prev first h;
          h = set_next lst nxt h
      in set_prev nxt lst h)"

definition rte_list_splice :: "ptr \<Rightarrow> ptr \<Rightarrow> lheap \<Rightarrow> lheap" where
  "rte_list_splice l head h =
     (if \<not> rte_list_empty l h then list_splice_between l head (lnext h head) h else h)"

definition rte_list_splice_tail :: "ptr \<Rightarrow> ptr \<Rightarrow> lheap \<Rightarrow> lheap" where
  "rte_list_splice_tail l head h =
     (if \<not> rte_list_empty l h then list_splice_between l (lprev h head) head h else h)"

definition rte_list_splice_init :: "ptr \<Rightarrow> ptr \<Rightarrow> lheap \<Rightarrow> lheap" where
  "rte_list_splice_init l head h =
     (if \<not> rte_list_empty l h then init_list l (list_splice_between l head (lnext h head) h) else h)"

definition rte_list_splice_tail_init :: "ptr \<Rightarrow> ptr \<Rightarrow> lheap \<Rightarrow> lheap" where
  "rte_list_splice_tail_init l head h =
     (if \<not> rte_list_empty l h then init_list l (list_splice_between l (lprev h head) head h) else h)"

text \<open>
  \<open>rte_list_foreach\<close> and its relatives: the nodes the loop visits, from a start node on; a
  broken list may make it run forever.
\<close>

partial_function (option) foreach_from :: "(ptr \<Rightarrow> ptr) \<Rightarrow> ptr \<Rightarrow> ptr \<Rightarrow> ptr list option" where
  "foreach_from step pos head =
     (if pos = head then Some []
      else Option.bind (foreach_from step (step pos) head) (\<lambda>xs. Some (pos # xs)))"

definition rte_list_foreach :: "ptr \<Rightarrow> lheap \<Rightarrow> ptr list option" where
  "rte_list_foreach head h = foreach_from (lnext h) (lnext h head) head"

definition rte_list_foreach_prev :: "ptr \<Rightarrow> lheap \<Rightarrow> ptr list option" where
  "rte_list_foreach_prev head h = foreach_from (lprev h) (lprev h head) head"

definition rte_list_first_entry_or_null :: "ptr \<Rightarrow> lheap \<Rightarrow> ptr" where
  "rte_list_first_entry_or_null head h = (let pos = lnext h head in if pos \<noteq> head then pos else NULL)"

section \<open>Definitions: hash-bucket lists\<close>

text \<open>
  A \<open>pprev\<close> is the address of a link: a bucket's \<open>first\<close>, a node's \<open>next\<close>, or NULL. A store
  through NULL, which the code only does for a node that is on no list, has no effect here.
\<close>

datatype hlink = HNull | HFirst ptr | HNext ptr

record hheap =
  hfirst :: "ptr \<Rightarrow> ptr"
  hnext :: "ptr \<Rightarrow> ptr"
  hpprev :: "ptr \<Rightarrow> hlink"

fun set_hlink :: "hlink \<Rightarrow> ptr \<Rightarrow> hheap \<Rightarrow> hheap" where
  "set_hlink HNull v h = h"
| "set_hlink (HFirst b) v h = h\<lparr>hfirst := (hfirst h)(b := v)\<rparr>"
| "set_hlink (HNext n) v h = h\<lparr>hnext := (hnext h)(n := v)\<rparr>"

definition set_pprev :: "ptr \<Rightarrow> hlink \<Rightarrow> hheap \<Rightarrow> hheap" where
  "set_pprev n l h = h\<lparr>hpprev := (hpprev h)(n := l)\<rparr>"

definition init_hlist :: "ptr \<Rightarrow> hheap \<Rightarrow> hheap" where
  "init_hlist b h = set_hlink (HFirst b) NULL h"

definition init_hlist_node :: "ptr \<Rightarrow> hheap \<Rightarrow> hheap" where
  "init_hlist_node n h = set_pprev n HNull (set_hlink (HNext n) NULL h)"

definition rte_hlist_unhashed :: "ptr \<Rightarrow> hheap \<Rightarrow> bool" where
  "rte_hlist_unhashed n h \<longleftrightarrow> hpprev h n = HNull"

definition rte_hlist_empty :: "ptr \<Rightarrow> hheap \<Rightarrow> bool" where
  "rte_hlist_empty b h \<longleftrightarrow> hfirst h b = NULL"

definition hlist_del_in :: "ptr \<Rightarrow> hheap \<Rightarrow> hheap" where
  "hlist_del_in n h =
     (let nxt = hnext h n; pprev = hpprev h n; h = set_hlink pprev nxt h
      in if nxt \<noteq> NULL then set_pprev nxt pprev h else h)"

definition rte_hlist_del :: "ptr \<Rightarrow> hheap \<Rightarrow> hheap" where
  "rte_hlist_del n h = set_pprev n HNull (set_hlink (HNext n) NULL (hlist_del_in n h))"

definition rte_hlist_del_init :: "ptr \<Rightarrow> hheap \<Rightarrow> hheap" where
  "rte_hlist_del_init n h =
     (if \<not> rte_hlist_unhashed n h then init_hlist_node n (hlist_del_in n h) else h)"

definition rte_hlist_add_head :: "ptr \<Rightarrow> ptr \<Rightarrow> hheap \<Rightarrow> hheap" where
  "rte_hlist_add_head n b h =
     (let first = hfirst h b;
          h = set_hlink (HNext n) first h;
          h = (if first \<noteq> NULL then set_pprev first (HNext n) h else h);
          h = set_hlink (HFirst b) n h
      in set_pprev n (HFirst b) h)"

definition rte_hlist_add_before :: "ptr \<Rightarrow> ptr \<Rightarrow> hheap \<Rightarrow> hheap" where
  "rte_hlist_add_before n nxt h =
     (let h = set_pprev n (hpprev h nxt) h;
          h = set_hlink (HNext n) nxt h;
          h = set_pprev nxt (HNext n) h
      in set_hlink (hpprev h n) n h)"

definition rte_hlist_add_behind :: "ptr \<Rightarrow> ptr \<Rightarrow> hheap \<Rightarrow> hheap" where
  "rte_hlist_add_behind n prev h =
     (let h = set_hlink (HNext n) (hnext h prev) h;
          h = set_hlink (HNext prev) n h;
          h = set_pprev n (HNext prev) h
      in if hnext h n \<noteq> NULL then set_pprev (hnext h n) (HNext n) h else h)"

definition rte_hlist_add_fake :: "ptr \<Rightarrow> hheap \<Rightarrow> hheap" where
  "rte_hlist_add_fake n h = set_pprev n (HNext n) h"

definition rte_hlist_fake :: "ptr \<Rightarrow> hheap \<Rightarrow> bool" where
  "rte_hlist_fake n h \<longleftrightarrow> hpprev h n = HNext n"

definition rte_hlist_is_singular_node :: "ptr \<Rightarrow> ptr \<Rightarrow> hheap \<Rightarrow> bool" where
  "rte_hlist_is_singular_node n b h \<longleftrightarrow> hnext h n = NULL \<and> hpprev h n = HFirst b"

definition rte_hlist_move_list :: "ptr \<Rightarrow> ptr \<Rightarrow> hheap \<Rightarrow> hheap" where
  "rte_hlist_move_list old newn h =
     (let h = set_hlink (HFirst newn) (hfirst h old) h;
          h = (if hfirst h newn \<noteq> NULL then set_pprev (hfirst h newn) (HFirst newn) h else h)
      in set_hlink (HFirst old) NULL h)"

text \<open>The lists that heads represent.\<close>

fun links :: "lheap \<Rightarrow> ptr list \<Rightarrow> bool" where
  "links h (x # y # zs) = (lnext h x = y \<and> lprev h y = x \<and> links h (y # zs))"
| "links h _ = True"

definition ring :: "lheap \<Rightarrow> ptr \<Rightarrow> ptr list \<Rightarrow> bool" where
  "ring h head xs \<longleftrightarrow> links h (head # xs @ [head]) \<and> distinct (head # xs)"

fun hchain :: "hheap \<Rightarrow> hlink \<Rightarrow> ptr \<Rightarrow> ptr list \<Rightarrow> bool" where
  "hchain h l p [] = (p = NULL)"
| "hchain h l p (x # xs) =
     (p = x \<and> x \<noteq> NULL \<and> hpprev h x = l \<and> hchain h (HNext x) (hnext h x) xs)"

definition bucket :: "hheap \<Rightarrow> ptr \<Rightarrow> ptr list \<Rightarrow> bool" where
  "bucket h b xs \<longleftrightarrow> hchain h (HFirst b) (hfirst h b) xs \<and> distinct xs"

text \<open>Several lists at once: \<open>F\<close> maps the heads to the lists they represent, which share no node.\<close>

definition lists_at :: "lheap \<Rightarrow> (ptr \<rightharpoonup> ptr list) \<Rightarrow> bool" where
  "lists_at h F \<longleftrightarrow>
     (\<forall>l xs. F l = Some xs \<longrightarrow> ring h l xs \<and> NULL \<notin> set (l # xs)) \<and>
     (\<forall>l k xs zs. l \<noteq> k \<longrightarrow> F l = Some xs \<longrightarrow> F k = Some zs \<longrightarrow> set (l # xs) \<inter> set (k # zs) = {})"

definition unlinked :: "lheap \<Rightarrow> ptr \<Rightarrow> bool" where
  "unlinked h x \<longleftrightarrow> lnext h x = NULL"

definition fresh :: "(ptr \<rightharpoonup> ptr list) \<Rightarrow> ptr \<Rightarrow> bool" where
  "fresh F n \<longleftrightarrow> n \<noteq> NULL \<and> (\<forall>l xs. F l = Some xs \<longrightarrow> n \<notin> set (l # xs))"

definition same_outside :: "ptr set \<Rightarrow> lheap \<Rightarrow> lheap \<Rightarrow> bool" where
  "same_outside S h h' \<longleftrightarrow> (\<forall>x. x \<notin> S \<longrightarrow> lnext h' x = lnext h x \<and> lprev h' x = lprev h x)"

section \<open>Lemmas: circular lists\<close>

lemmas heap_defs = set_next_def set_prev_def init_list_def list_add_between_def
  list_del_between_def list_del_entry_def list_splice_between_def list_cut_position_in_def Let_def

lemma links_append:
  "links h (xs @ ys) \<longleftrightarrow> links h xs \<and> links h ys \<and>
     (xs \<noteq> [] \<longrightarrow> ys \<noteq> [] \<longrightarrow> lnext h (last xs) = hd ys \<and> lprev h (hd ys) = last xs)"
proof (induction xs)
  case (Cons x xs)
  then show ?case by (cases xs; cases ys) auto
qed simp

text \<open>A run of links depends on the \<open>next\<close> of all but its last node and the \<open>prev\<close> of all but its first.\<close>

lemma links_frame:
  assumes "links h xs" "\<forall>x\<in>set (butlast xs). lnext h' x = lnext h x"
    "\<forall>x\<in>set (tl xs). lprev h' x = lprev h x"
  shows "links h' xs"
  using assms
proof (induction xs rule: induct_list012)
  case (3 x y zs)
  have "links h' (y # zs)" using 3 by simp
  moreover have "lnext h' x = lnext h x" "lprev h' y = lprev h y" using 3(4,5) by simp_all
  ultimately show ?case using 3(3) by simp
qed simp_all

lemma ring_frame:
  assumes "ring h head xs" "\<forall>x\<in>set (head # xs). lnext h' x = lnext h x \<and> lprev h' x = lprev h x"
  shows "ring h' head xs"
proof -
  have "links h' (head # xs @ [head])"
  proof (rule links_frame)
    show "links h (head # xs @ [head])" using assms(1) by (simp add: ring_def)
    show "\<forall>x\<in>set (butlast (head # xs @ [head])). lnext h' x = lnext h x"
      "\<forall>x\<in>set (tl (head # xs @ [head])). lprev h' x = lprev h x"
      using assms(2) by (simp_all add: butlast_append)
  qed
  then show ?thesis using assms(1) by (simp add: ring_def)
qed

lemma ring_first: "ring h head xs \<Longrightarrow> lnext h head = (if xs = [] then head else hd xs)"
  by (cases xs) (auto simp: ring_def)

lemma ring_last: "ring h head xs \<Longrightarrow> lprev h head = (if xs = [] then head else last xs)"
  using links_append [of h "head # xs" "[head]"] by (auto simp: ring_def)

lemma ring_empty: "ring h head xs \<Longrightarrow> rte_list_empty head h \<longleftrightarrow> xs = []"
  by (cases xs) (auto simp: ring_def rte_list_empty_def)

text \<open>
  A ring cut at any place: the part before the cut with the head, the part behind it with the
  head again, and the two nodes \<open>a\<close> and \<open>b\<close> at the cut.
\<close>

lemma ringE:
  assumes "ring h head (xs @ ys)"
  obtains a b where "a = last (head # xs)" "b = hd (ys @ [head])"
    "links h (head # xs)" "links h (ys @ [head])" "lnext h a = b" "lprev h b = a"
    "a \<in> set (head # xs)" "b \<in> set (head # ys)" "a \<notin> set (butlast (head # xs))" "a \<notin> set ys"
    "b \<notin> set xs" "b \<notin> set (tl (ys @ [head]))"
proof -
  define a where "a = last (head # xs)"
  define b where "b = hd (ys @ [head])"
  have d: "distinct (head # xs @ ys)" using assms by (simp add: ring_def)
  have l: "links h ((head # xs) @ (ys @ [head]))" using assms by (simp add: ring_def)
  have ai: "a \<in> set (head # xs)" unfolding a_def by (rule last_in_set) simp
  have bi: "b \<in> set (head # ys)" unfolding b_def by (cases ys) simp_all
  have "a \<notin> set (butlast (head # xs))" unfolding a_def using d by (cases xs rule: rev_cases) auto
  moreover have "b \<notin> set (tl (ys @ [head]))" unfolding b_def using d by (cases ys) auto
  moreover have "a \<notin> set ys" using d ai by auto
  moreover have "b \<notin> set xs" using d bi by auto
  moreover have "links h (head # xs)" "links h (ys @ [head])" "lnext h a = b" "lprev h b = a"
    using l unfolding links_append a_def b_def by simp_all
  ultimately show thesis using that a_def b_def ai bi by blast
qed

lemma ringI:
  assumes "links h (head # xs)" "links h (ys @ [head])" "a = last (head # xs)"
    "b = hd (ys @ [head])" "lnext h a = b" "lprev h b = a" "distinct (head # xs @ ys)"
  shows "ring h head (xs @ ys)"
  using assms links_append [of h "head # xs" "ys @ [head]"] by (simp add: ring_def)

text \<open>Changes of a heap outside the inner links of a part keep the part.\<close>

lemma links_prefix_frame:
  assumes "links h (head # xs)" "\<forall>x\<in>set (butlast (head # xs)). lnext h' x = lnext h x"
    "\<forall>x\<in>set xs. lprev h' x = lprev h x"
  shows "links h' (head # xs)"
  by (rule links_frame [OF assms(1,2)]) (use assms(3) in simp)

lemma links_suffix_frame:
  assumes "links h (ys @ [head])" "\<forall>x\<in>set ys. lnext h' x = lnext h x"
    "\<forall>x\<in>set (tl (ys @ [head])). lprev h' x = lprev h x"
  shows "links h' (ys @ [head])"
  by (rule links_frame [OF assms(1) _ assms(3)]) (use assms(2) in simp)

lemma tl_snoc_subset: "x \<in> set (tl (ys @ [z])) \<Longrightarrow> x \<in> set ys \<or> x = z"
  by (cases ys) auto

lemma list_add_between_ring:
  assumes "ring h head (xs @ ys)" "n \<notin> set (head # xs @ ys)"
  shows "ring (list_add_between n (last (head # xs)) (hd (ys @ [head])) h) head (xs @ n # ys)"
proof -
  from assms(1) obtain a b where ab: "a = last (head # xs)" "b = hd (ys @ [head])"
    and l: "links h (head # xs)" "links h (ys @ [head])" "lnext h a = b" "lprev h b = a"
    and i: "a \<in> set (head # xs)" "b \<in> set (head # ys)" "a \<notin> set (butlast (head # xs))" "a \<notin> set ys"
    "b \<notin> set xs" "b \<notin> set (tl (ys @ [head]))" by (rule ringE)
  let ?h = "list_add_between n a b h"
  have nx: "lnext ?h = (lnext h)(n := b, a := n)" and pv: "lprev ?h = (lprev h)(b := n, n := a)"
    by (simp_all add: heap_defs)
  have an: "a \<noteq> n" "b \<noteq> n" using assms(2) i(1,2) by auto
  have A: "links ?h (head # xs)"
    using i assms(2) by (intro links_prefix_frame [OF l(1)]) (auto simp: nx pv dest: in_set_butlastD)
  have B: "links ?h (ys @ [head])"
    using i assms(2) by (intro links_suffix_frame [OF l(2)]) (auto simp: nx pv dest: tl_snoc_subset)
  have "hd (ys @ [head]) = b" using ab(2) by simp
  then have B': "links ?h (n # ys @ [head])"
    using B an by (cases ys) (simp_all add: nx pv)
  have "ring ?h head (xs @ n # ys)"
  proof (rule ringI [OF A])
    show "links ?h ((n # ys) @ [head])" using B' by simp
    show "a = last (head # xs)" by (rule ab(1))
    show "n = hd ((n # ys) @ [head])" "lnext ?h a = n" "lprev ?h n = a" using an by (simp_all add: nx pv)
    show "distinct (head # xs @ n # ys)" using assms by (auto simp: ring_def)
  qed
  then show ?thesis using ab by simp
qed

text \<open>
  Taking a node out: any heap that joins its neighbours and otherwise differs at the node only.
\<close>

lemma list_del_ring:
  assumes "ring h head (xs @ e # ys)" "lnext h' (lprev h e) = lnext h e"
    "lprev h' (lnext h e) = lprev h e"
    and nx: "\<forall>x. x \<noteq> lprev h e \<longrightarrow> x \<noteq> e \<longrightarrow> lnext h' x = lnext h x"
    and pv: "\<forall>x. x \<noteq> lnext h e \<longrightarrow> x \<noteq> e \<longrightarrow> lprev h' x = lprev h x"
  shows "ring h' head (xs @ ys)"
proof -
  have d: "distinct (head # xs @ e # ys)" using assms(1) by (simp add: ring_def)
  from assms(1) obtain a c where a: "a = last (head # xs)" "c = hd ((e # ys) @ [head])"
    "links h (head # xs)" "lprev h c = a" "a \<in> set (head # xs)"
    "a \<notin> set (butlast (head # xs))" "a \<notin> set (e # ys)" by (rule ringE)
  have "ring h head ((xs @ [e]) @ ys)" using assms(1) by simp
  then obtain b c' where b: "b = hd (ys @ [head])" "c' = last (head # xs @ [e])"
    "links h (ys @ [head])" "lnext h c' = b" "b \<in> set (head # ys)" "b \<notin> set (xs @ [e])"
    "b \<notin> set (tl (ys @ [head]))" by (rule ringE)
  have pe: "lprev h e = a" "lnext h e = b" using a(2,4) b(2,4) by simp_all
  note nx' = nx [unfolded pe] and pv' = pv [unfolded pe]
  show ?thesis
  proof (rule ringI)
    have "\<forall>x\<in>set (butlast (head # xs)). x \<noteq> a \<and> x \<noteq> e" "\<forall>x\<in>set xs. x \<noteq> b \<and> x \<noteq> e"
      using a(6) b(6) d by (auto dest: in_set_butlastD)
    then show "links h' (head # xs)"
      using nx' pv' by (intro links_prefix_frame [OF a(3)]) blast+
    have "\<forall>x\<in>set ys. x \<noteq> a \<and> x \<noteq> e" "\<forall>x\<in>set (tl (ys @ [head])). x \<noteq> b \<and> x \<noteq> e"
      using a(7) b(7) d by (auto dest: tl_snoc_subset)
    then show "links h' (ys @ [head])"
      using nx' pv' by (intro links_suffix_frame [OF b(3)]) blast+
    show "lnext h' a = b" "lprev h' b = a" using assms(2,3) pe by simp_all
    show "distinct (head # xs @ ys)" using d by auto
  qed (rule a(1), rule b(1))
qed

section \<open>Lemmas: the operations on circular lists\<close>

lemma init_list_ring: "ring (init_list l h) l []"
  by (simp add: ring_def heap_defs)

lemma rte_list_add_ring:
  assumes "ring h head xs" "n \<notin> set (head # xs)"
  shows "ring (rte_list_add n head h) head (n # xs)"
  using list_add_between_ring [of h head "[]" xs n] assms ring_first [OF assms(1)]
  by (cases xs) (simp_all add: rte_list_add_def)

lemma rte_list_add_tail_ring:
  assumes "ring h head xs" "n \<notin> set (head # xs)"
  shows "ring (rte_list_add_tail n head h) head (xs @ [n])"
  using list_add_between_ring [of h head xs "[]" n] assms ring_last [OF assms(1)]
  by (cases "xs = []") (simp_all add: rte_list_add_tail_def)

text \<open>A node of a ring is not its own neighbour.\<close>

lemma ring_neighbours:
  assumes "ring h head (xs @ e # ys)"
  shows "lprev h e = last (head # xs)" "lnext h e = hd (ys @ [head])"
    "lprev h e \<noteq> e" "lnext h e \<noteq> e"
proof -
  have d: "distinct (head # xs @ e # ys)" using assms by (simp add: ring_def)
  from assms obtain a c where a: "a = last (head # xs)" "c = hd ((e # ys) @ [head])"
    "lprev h c = a" "a \<in> set (head # xs)" by (rule ringE)
  have "ring h head ((xs @ [e]) @ ys)" using assms by simp
  then obtain b c' where b: "b = hd (ys @ [head])" "c' = last (head # xs @ [e])"
    "lnext h c' = b" "b \<in> set (head # ys)" by (rule ringE)
  show pe: "lprev h e = last (head # xs)" "lnext h e = hd (ys @ [head])"
    using a(1-3) b(1-3) by simp_all
  show "lprev h e \<noteq> e" using d a(4) unfolding pe(1) a(1) [symmetric] by auto
  show "lnext h e \<noteq> e" using d b(4) unfolding pe(2) b(1) [symmetric] by auto
qed

lemma list_del_entry_links:
  "lnext (list_del_entry e h) = (lnext h)(lprev h e := lnext h e)"
  "lprev (list_del_entry e h) = (lprev h)(lnext h e := lprev h e)"
  by (simp_all add: heap_defs)

lemma list_del_entry_ring:
  assumes "ring h head (xs @ e # ys)"
  shows "ring (list_del_entry e h) head (xs @ ys)"
  by (rule list_del_ring [OF assms]) (simp_all add: list_del_entry_links)

lemma rte_list_del_ring:
  assumes "ring h head (xs @ e # ys)"
  shows "ring (rte_list_del e h) head (xs @ ys)"
    and "lnext (rte_list_del e h) e = NULL" "lprev (rte_list_del e h) e = NULL"
proof -
  note n = ring_neighbours(3,4) [OF assms]
  have nx: "lnext (rte_list_del e h) = (lnext h)(lprev h e := lnext h e, e := NULL)"
    and pv: "lprev (rte_list_del e h) = (lprev h)(lnext h e := lprev h e, e := NULL)"
    by (simp_all add: rte_list_del_def heap_defs)
  show "ring (rte_list_del e h) head (xs @ ys)"
    using n by (intro list_del_ring [OF assms]) (simp_all add: nx pv)
  show "lnext (rte_list_del e h) e = NULL" "lprev (rte_list_del e h) e = NULL"
    by (simp_all add: nx pv)
qed

lemma rte_list_del_init_ring:
  assumes "ring h head (xs @ e # ys)"
  shows "ring (rte_list_del_init e h) head (xs @ ys)" "ring (rte_list_del_init e h) e []"
proof -
  note n = ring_neighbours(3,4) [OF assms]
  have nx: "lnext (rte_list_del_init e h) = (lnext h)(lprev h e := lnext h e, e := e)"
    and pv: "lprev (rte_list_del_init e h) = (lprev h)(lnext h e := lprev h e, e := e)"
    by (simp_all add: rte_list_del_init_def heap_defs)
  show "ring (rte_list_del_init e h) head (xs @ ys)"
    using n by (intro list_del_ring [OF assms]) (simp_all add: nx pv)
  show "ring (rte_list_del_init e h) e []" by (simp add: rte_list_del_init_def init_list_ring)
qed

text \<open>Another ring of the heap keeps its list when a node outside it is taken out of its ring.\<close>

lemma list_del_entry_other:
  assumes "ring h head (xs @ e # ys)" "ring h k zs" "set (k # zs) \<inter> set (head # xs @ e # ys) = {}"
  shows "ring (list_del_entry e h) k zs"
proof -
  have "lprev h e \<in> set (head # xs @ e # ys)" "lnext h e \<in> set (head # xs @ e # ys)"
    unfolding ring_neighbours(1,2) [OF assms(1)] by (simp, cases ys) auto
  then have "\<forall>x\<in>set (k # zs). x \<noteq> lprev h e \<and> x \<noteq> lnext h e" using assms(3) by blast
  then show ?thesis by (intro ring_frame [OF assms(2)]) (simp add: list_del_entry_links)
qed

lemma rte_list_move_ring:
  assumes "ring h k (xs @ e # ys)" "ring h head zs" "set (head # zs) \<inter> set (k # xs @ e # ys) = {}"
  shows "ring (rte_list_move e head h) head (e # zs)"
    and "ring (rte_list_move_tail e head h) head (zs @ [e])"
proof -
  have r: "ring (list_del_entry e h) head zs" using list_del_entry_other assms by blast
  have f: "e \<notin> set (head # zs)" using assms(3) by auto
  show "ring (rte_list_move e head h) head (e # zs)"
    unfolding rte_list_move_def by (rule rte_list_add_ring [OF r f])
  show "ring (rte_list_move_tail e head h) head (zs @ [e])"
    unfolding rte_list_move_tail_def by (rule rte_list_add_tail_ring [OF r f])
qed

lemma rte_list_rotate_left_ring:
  assumes "ring h head xs"
  shows "ring (rte_list_rotate_left head h) head (case xs of [] \<Rightarrow> [] | x # xs \<Rightarrow> xs @ [x])"
proof (cases xs)
  case Nil
  then show ?thesis using assms ring_empty [OF assms] by (simp add: rte_list_rotate_left_def)
next
  case (Cons x ys)
  have f: "lnext h head = x" using ring_first [OF assms] Cons by simp
  have r: "ring (list_del_entry x h) head ys" using list_del_entry_ring [of h head "[]" x ys] assms Cons by simp
  have "x \<notin> set (head # ys)" using assms Cons by (auto simp: ring_def)
  from rte_list_add_tail_ring [OF r this] show ?thesis
    using Cons f ring_empty [OF assms] by (simp add: rte_list_rotate_left_def rte_list_move_tail_def)
qed

lemma ring_inner: "ring h l zs \<Longrightarrow> links h zs"
  using links_append [of h "l # zs" "[l]"] links_append [of h "[l]" zs] by (auto simp: ring_def)

lemma last_notin_butlast: "distinct zs \<Longrightarrow> zs \<noteq> [] \<Longrightarrow> last zs \<notin> set (butlast zs)"
  by (cases zs rule: rev_cases) auto

lemma hd_notin_tl: "distinct zs \<Longrightarrow> zs \<noteq> [] \<Longrightarrow> hd zs \<notin> set (tl zs)"
  by (cases zs) auto

text \<open>Linking the nodes of one ring into another at a cut between \<open>a\<close> and \<open>b\<close>.\<close>

lemma list_splice_between_ring:
  assumes "ring h head (xs @ ys)" "ring h l zs" "zs \<noteq> []"
    "set (l # zs) \<inter> set (head # xs @ ys) = {}"
  shows "ring (list_splice_between l (last (head # xs)) (hd (ys @ [head])) h) head (xs @ zs @ ys)"
proof -
  from assms(1) obtain a b where ab: "a = last (head # xs)" "b = hd (ys @ [head])"
    and k: "links h (head # xs)" "links h (ys @ [head])"
    and i: "a \<in> set (head # xs)" "b \<in> set (head # ys)" "a \<notin> set (butlast (head # xs))" "a \<notin> set ys"
    "b \<notin> set xs" "b \<notin> set (tl (ys @ [head]))" by (rule ringE)
  have z: "hd zs \<in> set zs" "last zs \<in> set zs" "lnext h l = hd zs" "lprev h l = last zs"
    using assms(3) ring_first [OF assms(2)] ring_last [OF assms(2)] by simp_all
  have dz: "distinct zs" using assms(2) by (simp add: ring_def)
  let ?h = "list_splice_between l a b h"
  have nx: "lnext ?h = (lnext h)(a := hd zs, last zs := b)"
    and pv: "lprev ?h = (lprev h)(hd zs := a, b := last zs)"
    using z by (simp_all add: heap_defs)
  have ne: "a \<notin> set zs" "b \<notin> set zs" using i(1,2) assms(4) by auto
  have A: "links ?h (head # xs)"
  proof (rule links_prefix_frame [OF k(1)])
    have "\<forall>x\<in>set (butlast (head # xs)). x \<noteq> a \<and> x \<noteq> last zs" "\<forall>x\<in>set xs. x \<noteq> b \<and> x \<noteq> hd zs"
      using i z assms(4) by (auto dest: in_set_butlastD)
    then show "\<forall>x\<in>set (butlast (head # xs)). lnext ?h x = lnext h x"
      "\<forall>x\<in>set xs. lprev ?h x = lprev h x" by (simp_all add: nx pv)
  qed
  have B: "links ?h (ys @ [head])"
  proof (rule links_suffix_frame [OF k(2)])
    have "\<forall>x\<in>set ys. x \<noteq> a \<and> x \<noteq> last zs" "\<forall>x\<in>set (tl (ys @ [head])). x \<noteq> b \<and> x \<noteq> hd zs"
      using i z assms(4) by (auto dest: tl_snoc_subset)
    then show "\<forall>x\<in>set ys. lnext ?h x = lnext h x"
      "\<forall>x\<in>set (tl (ys @ [head])). lprev ?h x = lprev h x" by (simp_all add: nx pv)
  qed
  have Z: "links ?h zs"
  proof (rule links_frame [OF ring_inner [OF assms(2)]])
    have "\<forall>x\<in>set (butlast zs). x \<noteq> a \<and> x \<noteq> last zs" "\<forall>x\<in>set (tl zs). x \<noteq> b \<and> x \<noteq> hd zs"
      using ne last_notin_butlast [OF dz assms(3)] hd_notin_tl [OF dz assms(3)]
      by (auto dest: in_set_butlastD list.set_sel(2) [OF assms(3)])
    then show "\<forall>x\<in>set (butlast zs). lnext ?h x = lnext h x"
      "\<forall>x\<in>set (tl zs). lprev ?h x = lprev h x" by (simp_all add: nx pv)
  qed
  have ln: "a \<noteq> last zs" "b \<noteq> hd zs" using ne z(1,2) by auto
  have "links ?h (zs @ ys @ [head])"
    unfolding links_append [of _ zs] ab(2) [symmetric] using Z B assms(3) by (simp add: nx pv)
  then have "links ?h ((head # xs) @ zs @ ys @ [head])"
    unfolding links_append [of _ "head # xs"] ab(1) [symmetric]
    using A assms(3) ln by (simp add: nx pv)
  moreover have "distinct (head # xs @ zs @ ys)"
    using assms by (auto simp: ring_def)
  ultimately show ?thesis using ab by (simp add: ring_def)
qed

lemma rte_list_splice_ring:
  assumes "ring h head xs" "ring h l zs" "set (l # zs) \<inter> set (head # xs) = {}"
  shows "ring (rte_list_splice l head h) head (zs @ xs)"
    and "ring (rte_list_splice_tail l head h) head (xs @ zs)"
proof -
  show "ring (rte_list_splice l head h) head (zs @ xs)"
    using list_splice_between_ring [of h head "[]" xs l zs] assms ring_first [OF assms(1)]
      ring_empty [OF assms(2)]
    by (cases xs) (auto simp: rte_list_splice_def)
  show "ring (rte_list_splice_tail l head h) head (xs @ zs)"
    using list_splice_between_ring [of h head xs "[]" l zs] assms ring_last [OF assms(1)]
      ring_empty [OF assms(2)]
    by (cases "xs = []") (auto simp: rte_list_splice_tail_def)
qed

text \<open>Reinitialising a head that is on no ring of interest.\<close>

lemma init_list_other: "ring h head xs \<Longrightarrow> l \<notin> set (head # xs) \<Longrightarrow> ring (init_list l h) head xs"
  by (rule ring_frame) (auto simp: heap_defs)

lemma rte_list_splice_init_ring:
  assumes "ring h head xs" "ring h l zs" "set (l # zs) \<inter> set (head # xs) = {}"
  shows "ring (rte_list_splice_init l head h) head (zs @ xs)"
    "ring (rte_list_splice_tail_init l head h) head (xs @ zs)"
    "ring (rte_list_splice_init l head h) l []" "ring (rte_list_splice_tail_init l head h) l []"
proof -
  have l: "l \<notin> set (head # zs @ xs)" "l \<notin> set (head # xs @ zs)"
    using assms(2,3) by (auto simp: ring_def)
  note e = ring_empty [OF assms(2)]
  note s = rte_list_splice_ring [OF assms]
  show "ring (rte_list_splice_init l head h) head (zs @ xs)"
    using s(1) init_list_other [OF s(1) l(1)] e
    by (auto simp: rte_list_splice_init_def rte_list_splice_def)
  show "ring (rte_list_splice_tail_init l head h) head (xs @ zs)"
    using s(2) init_list_other [OF s(2) l(2)] e
    by (auto simp: rte_list_splice_tail_init_def rte_list_splice_tail_def)
  show "ring (rte_list_splice_init l head h) l []" "ring (rte_list_splice_tail_init l head h) l []"
    using assms(2) e init_list_ring
    by (auto simp: rte_list_splice_init_def rte_list_splice_tail_init_def)
qed

text \<open>Replacing a node is taking it out and linking the new one in at the same place.\<close>

lemma rte_list_replace_ring:
  assumes "ring h head (xs @ e # ys)" "n \<notin> set (head # xs @ e # ys)"
  shows "ring (rte_list_replace e n h) head (xs @ n # ys)"
proof -
  note nb = ring_neighbours [OF assms(1)]
  have r: "ring (list_del_entry e h) head (xs @ ys)" by (rule list_del_entry_ring [OF assms(1)])
  have "n \<notin> set (head # xs @ ys)" using assms(2) by auto
  note add = list_add_between_ring [OF r this, folded nb(1,2)]
  have in_a: "lprev h e \<in> set (head # xs @ e # ys)" unfolding nb(1) by simp
  have in_b: "lnext h e \<in> set (head # xs @ e # ys)" unfolding nb(2) by (cases ys) auto
  have "n \<noteq> lprev h e" "n \<noteq> lnext h e" "n \<noteq> e" using assms(2) in_a in_b by auto
  then have "lnext (rte_list_replace e n h) = lnext (list_add_between n (lprev h e) (lnext h e)
      (list_del_entry e h))" "lprev (rte_list_replace e n h) = lprev (list_add_between n
      (lprev h e) (lnext h e) (list_del_entry e h))"
    using nb(4) by (auto simp: rte_list_replace_def heap_defs)
  then show ?thesis by (intro ring_frame [OF add]) simp
qed

text \<open>Cutting a ring behind a node \<open>e\<close>: the front part goes to the new head \<open>l\<close>.\<close>

lemma list_cut_position_in_ring:
  assumes "ring h head (xs @ e # ys)" "l \<notin> set (head # xs @ e # ys)"
  shows "ring (list_cut_position_in l head e h) l (xs @ [e])"
    and "ring (list_cut_position_in l head e h) head ys"
proof -
  let ?h = "list_cut_position_in l head e h" and ?f = "hd (xs @ [e])" and ?b = "hd (ys @ [head])"
  have d: "distinct (head # xs @ e # ys)" using assms(1) by (simp add: ring_def)
  have "links h ([head] @ (xs @ [e]) @ (ys @ [head]))" using assms(1) by (simp add: ring_def)
  then have k: "links h (xs @ [e])" "links h (ys @ [head])" unfolding links_append by simp_all
  have f: "lnext h head = ?f" using ring_first [OF assms(1)] by (cases xs) simp_all
  have b: "lnext h e = ?b" using ring_neighbours(2) [OF assms(1)] .
  have nx: "lnext ?h = (lnext h)(l := ?f, e := l, head := ?b)"
    and pv: "lprev ?h = (lprev h)(?f := l, l := e, ?b := head)"
    using f b assms(2) by (simp_all add: heap_defs)
  have fi: "?f \<in> set (xs @ [e])" and bi: "?b \<in> set (head # ys)" by (cases xs; cases ys; simp)+
  have df: "?f \<notin> set (tl (xs @ [e]))" and db: "?b \<notin> set (tl (ys @ [head]))"
    using d by (cases xs; cases ys; auto)+
  have F: "links ?h (xs @ [e])"
  proof (rule links_frame [OF k(1)])
    have "\<forall>x\<in>set xs. x \<noteq> l \<and> x \<noteq> e \<and> x \<noteq> head"
      "\<forall>x\<in>set (tl (xs @ [e])). x \<noteq> ?f \<and> x \<noteq> l \<and> x \<noteq> ?b"
      using d assms(2) df bi by (auto dest: tl_snoc_subset)
    then show "\<forall>x\<in>set (butlast (xs @ [e])). lnext ?h x = lnext h x"
      "\<forall>x\<in>set (tl (xs @ [e])). lprev ?h x = lprev h x" by (simp_all add: nx pv)
  qed
  have B: "links ?h (ys @ [head])"
  proof (rule links_suffix_frame [OF k(2)])
    have "\<forall>x\<in>set ys. x \<noteq> l \<and> x \<noteq> e \<and> x \<noteq> head"
      "\<forall>x\<in>set (tl (ys @ [head])). x \<noteq> ?f \<and> x \<noteq> l \<and> x \<noteq> ?b"
      using d assms(2) db fi by (auto dest: tl_snoc_subset)
    then show "\<forall>x\<in>set ys. lnext ?h x = lnext h x"
      "\<forall>x\<in>set (tl (ys @ [head])). lprev ?h x = lprev h x" by (simp_all add: nx pv)
  qed
  have ne: "l \<noteq> e" "l \<noteq> head" "e \<noteq> head" "?f \<noteq> l" "?f \<noteq> ?b" "?b \<noteq> l" using d assms(2) fi bi by auto
  have "links ?h ((xs @ [e]) @ [l])"
    unfolding links_append [of _ "xs @ [e]"] using F ne by (simp add: nx pv)
  moreover have "hd ((xs @ [e]) @ [l]) = ?f" by (cases xs) simp_all
  ultimately have "links ?h ([l] @ (xs @ [e]) @ [l])"
    unfolding links_append [of _ "[l]"] using ne by (simp add: nx pv)
  then show "ring ?h l (xs @ [e])" using d assms(2) by (auto simp: ring_def)
  have "links ?h ([head] @ (ys @ [head]))"
    unfolding links_append [of _ "[head]"] using B ne by (simp add: nx pv)
  then show "ring ?h head ys" using d by (simp add: ring_def)
qed

lemma rte_list_cut_before_eq:
  assumes "ring h head (xs @ [p] @ e # ys)" "l \<notin> set (head # xs @ [p] @ e # ys)"
  shows "ring (rte_list_cut_before l head e h) l (xs @ [p])"
    "ring (rte_list_cut_before l head e h) head (e # ys)"
proof -
  have r: "ring h head (xs @ p # e # ys)" "ring h head ((xs @ [p]) @ e # ys)" using assms(1) by simp_all
  have l: "l \<notin> set (head # xs @ p # e # ys)" using assms(2) by simp
  have pe: "lprev h e = p" "lnext h p = e"
    using ring_neighbours(1) [OF r(2)] ring_neighbours(2) [OF r(1)] by simp_all
  have f: "lnext h head = hd (xs @ [p])" using ring_first [OF r(1)] by (cases xs) simp_all
  have d: "distinct (head # xs @ [p] @ e # ys)" using assms(1) by (simp add: ring_def)
  have fi: "hd (xs @ [p]) \<in> set (xs @ [p])" by (cases xs) simp_all
  have ne: "hd (xs @ [p]) \<noteq> e" "l \<noteq> p" "l \<noteq> head" "l \<noteq> e" "hd (xs @ [p]) \<noteq> l" "p \<noteq> head"
    using d assms(2) fi by auto
  have "rte_list_cut_before l head e h = list_cut_position_in l head p h"
    using f pe ne by (auto simp: rte_list_cut_before_def heap_defs fun_eq_iff)
  then show "ring (rte_list_cut_before l head e h) l (xs @ [p])"
    "ring (rte_list_cut_before l head e h) head (e # ys)"
    using list_cut_position_in_ring [OF r(1) l] by simp_all
qed

lemma foreach_from_links:
  "links h (xs @ [head]) \<Longrightarrow> head \<notin> set xs \<Longrightarrow>
   foreach_from (lnext h) (hd (xs @ [head])) head = Some xs"
proof (induction xs)
  case (Cons x xs)
  have "lnext h x = hd (xs @ [head])" "links h (xs @ [head])" using Cons.prems(1) by (cases xs; simp)+
  then show ?case using Cons by (subst foreach_from.simps) simp
qed (simp add: foreach_from.simps)

lemma foreach_from_links_prev:
  "links h (head # xs) \<Longrightarrow> head \<notin> set xs \<Longrightarrow>
   foreach_from (lprev h) (last (head # xs)) head = Some (rev xs)"
proof (induction xs rule: rev_induct)
  case (snoc x xs)
  have "links h ((head # xs) @ [x])" using snoc.prems(1) by simp
  then have "lprev h x = last (head # xs)" "links h (head # xs)"
    unfolding links_append by simp_all
  then show ?case using snoc by (subst foreach_from.simps) simp
qed (simp add: foreach_from.simps)

lemma rte_list_foreach_ring:
  assumes "ring h head xs"
  shows "rte_list_foreach head h = Some xs" "rte_list_foreach_prev head h = Some (rev xs)"
proof -
  have l: "links h ([head] @ (xs @ [head]))" "links h ((head # xs) @ [head])" "head \<notin> set xs"
    using assms by (simp_all add: ring_def)
  have "links h (xs @ [head])" "links h (head # xs)"
    "lnext h head = hd (xs @ [head])" "lprev h head = last (head # xs)"
    using l(1) l(2) unfolding links_append [of h "[head]"] links_append [of h "head # xs"] by simp_all
  then show "rte_list_foreach head h = Some xs" "rte_list_foreach_prev head h = Some (rev xs)"
    using foreach_from_links [of h xs head] foreach_from_links_prev [of h head xs] l(3)
    by (simp_all add: rte_list_foreach_def rte_list_foreach_prev_def)
qed

section \<open>Lemmas: hash-bucket lists\<close>

fun get_hlink :: "hheap \<Rightarrow> hlink \<Rightarrow> ptr" where
  "get_hlink h HNull = NULL"
| "get_hlink h (HFirst b) = hfirst h b"
| "get_hlink h (HNext n) = hnext h n"

lemma get_set_hlink [simp]:
  "get_hlink (set_hlink l v h) k = (if k = l \<and> l \<noteq> HNull then v else get_hlink h k)"
  by (cases l; cases k) auto

lemma set_hlink_pprev [simp]: "hpprev (set_hlink l v h) = hpprev h"
  by (cases l) auto

lemma get_hlink_pprev [simp]: "get_hlink (set_pprev n v h) k = get_hlink h k"
  by (cases k) (simp_all add: set_pprev_def)

lemma hpprev_set [simp]: "hpprev (set_pprev n v h) = (hpprev h)(n := v)"
  by (simp add: set_pprev_def)

lemma hchain_frame:
  assumes "hchain h l p xs" "\<forall>x\<in>set xs. get_hlink h' (HNext x) = get_hlink h (HNext x)"
    "\<forall>x\<in>set xs. hpprev h' x = hpprev h x"
  shows "hchain h' l p xs"
  using assms by (induction xs arbitrary: l p) auto

lemma hchain_relink:
  assumes "hchain h l p xs" "distinct xs"
    "\<forall>x\<in>set xs. get_hlink h' (HNext x) = get_hlink h (HNext x)"
    "\<forall>x\<in>set xs. x \<noteq> p \<longrightarrow> hpprev h' x = hpprev h x" "p \<noteq> NULL \<longrightarrow> hpprev h' p = l'"
  shows "hchain h' l' p xs"
proof (cases xs)
  case (Cons x ys)
  have c: "hchain h (HNext x) (hnext h x) ys" "p = x" "x \<noteq> NULL" "x \<notin> set ys"
    using assms(1,2) Cons by simp_all
  have "\<forall>y\<in>set ys. y \<noteq> p" using c(2,4) by blast
  then have "hchain h' (HNext x) (hnext h x) ys"
    using assms(3,4) Cons by (intro hchain_frame [OF c(1)]) simp_all
  then show ?thesis using c assms(3,5) Cons by simp
qed (use assms in simp)

lemma hchain_split:
  "hchain h l p (xs @ ys) \<Longrightarrow>
   hchain h (if xs = [] then l else HNext (last xs)) (if xs = [] then p else hnext h (last xs)) ys"
  by (induction xs arbitrary: l p) auto

text \<open>Changing the link behind a prefix to any chain.\<close>

lemma hchain_join:
  assumes "hchain h l (get_hlink h l) (xs @ zs)" "distinct xs"
    and k: "k = (if xs = [] then l else HNext (last xs))"
    and new: "hchain h' k (get_hlink h' k) ys"
    and pp: "\<forall>x\<in>set xs. hpprev h' x = hpprev h x"
    and nx: "\<forall>m. m \<noteq> k \<longrightarrow> (m = l \<or> (\<exists>x\<in>set xs. m = HNext x)) \<longrightarrow> get_hlink h' m = get_hlink h m"
    and l: "\<forall>x\<in>set xs. l \<noteq> HNext x"
  shows "hchain h' l (get_hlink h' l) (xs @ ys)"
  using assms
proof (induction xs arbitrary: l)
  case (Cons x xs)
  have h1: "get_hlink h l = x" "x \<noteq> NULL" "hpprev h x = l" "hchain h (HNext x) (get_hlink h (HNext x)) (xs @ zs)"
    using Cons.prems(1) by simp_all
  have kl: "k \<noteq> l" using Cons.prems(3,7) by (auto split: if_splits)
  have "hchain h' (HNext x) (get_hlink h' (HNext x)) (xs @ ys)"
  proof (rule Cons.IH [OF h1(4)])
    show "distinct xs" "\<forall>y\<in>set xs. HNext x \<noteq> HNext y" using Cons.prems(2) by auto
    show "k = (if xs = [] then HNext x else HNext (last xs))" using Cons.prems(3) by simp
    show "hchain h' k (get_hlink h' k) ys" by (rule Cons.prems(4))
    show "\<forall>x\<in>set xs. hpprev h' x = hpprev h x" using Cons.prems(5) by simp
    show "\<forall>m. m \<noteq> k \<longrightarrow> (m = HNext x \<or> (\<exists>x\<in>set xs. m = HNext x)) \<longrightarrow> get_hlink h' m = get_hlink h m"
      using Cons.prems(6) by auto
  qed
  moreover have "get_hlink h' l = x" using Cons.prems(6) kl h1(1) by auto
  ultimately show ?case using h1 Cons.prems(5) by simp
qed simp

lemma bucket_get: "bucket h b xs \<longleftrightarrow> hchain h (HFirst b) (get_hlink h (HFirst b)) xs \<and> distinct xs"
  by (simp add: bucket_def)

lemma hchain_NULL: "hchain h l p xs \<Longrightarrow> NULL \<notin> set xs"
  by (induction xs arbitrary: l p) auto

text \<open>The link before a node of a bucket.\<close>

lemma bucket_pprev:
  assumes "bucket h b (xs @ e # ys)"
  shows "hpprev h e = (if xs = [] then HFirst b else HNext (last xs))" "e \<noteq> NULL"
    "get_hlink h (hpprev h e) = e" "hchain h (HNext e) (hnext h e) ys"
  using hchain_split [of h "HFirst b" "hfirst h b" xs "e # ys"] assms
  by (auto simp: bucket_def split: if_splits)

lemma hlist_del_in_links:
  "get_hlink (hlist_del_in n h) k = get_hlink (set_hlink (hpprev h n) (hnext h n) h) k"
  "hpprev (hlist_del_in n h) =
     (if hnext h n \<noteq> NULL then (hpprev h)(hnext h n := hpprev h n) else hpprev h)"
  by (simp_all add: hlist_del_in_def Let_def del: get_set_hlink)

lemma hlist_del_in_bucket:
  assumes "bucket h b (xs @ e # ys)"
  shows "bucket (hlist_del_in e h) b (xs @ ys)"
proof -
  let ?h = "hlist_del_in e h" and ?k = "if xs = [] then HFirst b else HNext (last xs)"
  note p = bucket_pprev [OF assms]
  have d: "distinct (xs @ e # ys)" and c: "hchain h (HFirst b) (get_hlink h (HFirst b)) (xs @ e # ys)"
    using assms by (simp_all add: bucket_get)
  have kn: "?k \<noteq> HNull" "\<forall>y\<in>set ys. ?k \<noteq> HNext y" 
    using d by (cases xs rule: rev_cases; auto)+
  have fst: "hnext h e \<noteq> NULL \<Longrightarrow> hnext h e \<in> set ys" using p(4) by (cases ys) auto
  have "hchain ?h ?k (hnext h e) ys"
  proof (rule hchain_relink [OF p(4)])
    show "distinct ys" using d by simp
    show "\<forall>x\<in>set ys. get_hlink ?h (HNext x) = get_hlink h (HNext x)"
      unfolding hlist_del_in_links p(1) using kn(2) by auto
    show "\<forall>x\<in>set ys. x \<noteq> hnext h e \<longrightarrow> hpprev ?h x = hpprev h x"
      "hnext h e \<noteq> NULL \<longrightarrow> hpprev ?h (hnext h e) = ?k"
      unfolding hlist_del_in_links p(1) by simp_all
  qed
  then have new: "hchain ?h ?k (get_hlink ?h ?k) ys" using p(1) kn(1) by (simp add: hlist_del_in_links)
  have "hchain ?h (HFirst b) (get_hlink ?h (HFirst b)) (xs @ ys)"
  proof (rule hchain_join [OF c _ refl new])
    show "distinct xs" using d by simp
    have "hnext h e \<noteq> NULL \<Longrightarrow> hnext h e \<notin> set xs" using fst d by auto
    then show "\<forall>x\<in>set xs. hpprev ?h x = hpprev h x" unfolding hlist_del_in_links by auto
    show "\<forall>m. m \<noteq> ?k \<longrightarrow> (m = HFirst b \<or> (\<exists>x\<in>set xs. m = HNext x)) \<longrightarrow>
        get_hlink ?h m = get_hlink h m" unfolding hlist_del_in_links p(1) by simp
  qed simp
  then show ?thesis using d by (simp add: bucket_get)
qed

lemma rte_hlist_add_head_bucket:
  assumes "bucket h b xs" "n \<notin> set xs" "n \<noteq> NULL"
  shows "bucket (rte_hlist_add_head n b h) b (n # xs)"
proof -
  let ?h = "rte_hlist_add_head n b h"
  have g: "get_hlink ?h (HFirst b) = n" "get_hlink ?h (HNext n) = hfirst h b"
    "\<forall>x. x \<noteq> n \<longrightarrow> get_hlink ?h (HNext x) = get_hlink h (HNext x)"
    by (simp_all add: rte_hlist_add_head_def Let_def set_pprev_def)
  have pp: "hpprev ?h n = HFirst b" "\<forall>x. x \<noteq> n \<longrightarrow> x \<noteq> hfirst h b \<longrightarrow> hpprev ?h x = hpprev h x"
    "hfirst h b \<noteq> NULL \<longrightarrow> hfirst h b \<noteq> n \<longrightarrow> hpprev ?h (hfirst h b) = HNext n"
    by (simp_all add: rte_hlist_add_head_def Let_def)
  have c: "hchain h (HFirst b) (hfirst h b) xs" "distinct xs" using assms(1) by (simp_all add: bucket_def)
  have fn: "hfirst h b \<noteq> n" using c(1) assms(2,3) by (cases xs) auto
  have "hchain ?h (HNext n) (hfirst h b) xs"
    using assms(2) g(3) pp fn by (intro hchain_relink [OF c]) auto
  then show ?thesis using g pp assms by (simp add: bucket_get c(2))
qed

lemma rte_hlist_add_before_links:
  assumes "n \<noteq> e" "hpprev h e \<noteq> HNull" "hpprev h e \<noteq> HNext n"
  shows "get_hlink (rte_hlist_add_before n e h) k =
      (if k = hpprev h e then n else if k = HNext n then e else get_hlink h k)"
    "hpprev (rte_hlist_add_before n e h) = (hpprev h)(n := hpprev h e, e := HNext n)"
  using assms by (auto simp: rte_hlist_add_before_def Let_def simp del: set_hlink.simps)

lemma rte_hlist_add_before_bucket:
  assumes "bucket h b (xs @ e # ys)" "n \<notin> set (xs @ e # ys)" "n \<noteq> NULL"
  shows "bucket (rte_hlist_add_before n e h) b (xs @ n # e # ys)"
proof -
  let ?h = "rte_hlist_add_before n e h" and ?k = "if xs = [] then HFirst b else HNext (last xs)"
  note p = bucket_pprev [OF assms(1)]
  have d: "distinct (xs @ e # ys)" and c: "hchain h (HFirst b) (get_hlink h (HFirst b)) (xs @ e # ys)"
    using assms(1) by (simp_all add: bucket_get)
  have kn: "?k \<noteq> HNull" "\<forall>y\<in>set (e # ys). ?k \<noteq> HNext y" "?k \<noteq> HNext n"
    using d assms(2) by (cases xs rule: rev_cases; auto)+
  have ne: "n \<noteq> e" using assms(2) by auto
  note ln = rte_hlist_add_before_links [OF ne, of h, unfolded p(1), OF kn(1,3)]
  have e2: "get_hlink ?h (HNext n) = e" "get_hlink ?h (HNext e) = get_hlink h (HNext e)"
    using ln(1) [of "HNext n"] ln(1) [of "HNext e"] kn(2,3) ne by (auto simp del: get_hlink.simps)
  have "hchain ?h (HNext e) (hnext h e) ys"
  proof (rule hchain_frame [OF p(4)])
    show "\<forall>x\<in>set ys. get_hlink ?h (HNext x) = get_hlink h (HNext x)"
      unfolding ln(1) using kn(2) assms(2) by auto
    show "\<forall>x\<in>set ys. hpprev ?h x = hpprev h x" unfolding ln(2) using d assms(2) by auto
  qed
  then have "hchain ?h ?k n (n # e # ys)" using e2 ln(2) ne assms(3) p(2) by simp
  then have new: "hchain ?h ?k (get_hlink ?h ?k) (n # e # ys)" using ln(1) [of ?k] by simp
  have "hchain ?h (HFirst b) (get_hlink ?h (HFirst b)) (xs @ n # e # ys)"
  proof (rule hchain_join [OF c _ refl new])
    show "distinct xs" using d by simp
    show "\<forall>x\<in>set xs. hpprev ?h x = hpprev h x" unfolding ln(2) using d assms(2) by auto
    show "\<forall>m. m \<noteq> ?k \<longrightarrow> (m = HFirst b \<or> (\<exists>x\<in>set xs. m = HNext x)) \<longrightarrow>
        get_hlink ?h m = get_hlink h m" unfolding ln(1) using assms(2) by auto
  qed simp
  then show ?thesis using d assms(2) by (simp add: bucket_get)
qed

lemma rte_hlist_move_list_bucket:
  assumes "bucket h old xs" "old \<noteq> newn"
  shows "bucket (rte_hlist_move_list old newn h) newn xs" "bucket (rte_hlist_move_list old newn h) old []"
proof -
  let ?h = "rte_hlist_move_list old newn h"
  have g: "get_hlink ?h (HFirst newn) = hfirst h old" "get_hlink ?h (HFirst old) = NULL"
    "\<forall>x. get_hlink ?h (HNext x) = get_hlink h (HNext x)"
    using assms(2) by (simp_all add: rte_hlist_move_list_def Let_def set_pprev_def)
  have pp: "\<forall>x. x \<noteq> hfirst h old \<longrightarrow> hpprev ?h x = hpprev h x"
    "hfirst h old \<noteq> NULL \<longrightarrow> hpprev ?h (hfirst h old) = HFirst newn"
    by (simp_all add: rte_hlist_move_list_def Let_def)
  have c: "hchain h (HFirst old) (hfirst h old) xs" "distinct xs" using assms(1) by (simp_all add: bucket_def)
  have "hchain ?h (HFirst newn) (hfirst h old) xs"
    by (rule hchain_relink [OF c]) (use g(3) pp in simp_all)
  then show "bucket ?h newn xs" using g(1) c(2) by (simp add: bucket_get)
  show "bucket ?h old []" using g(2) by (simp add: bucket_get)
qed

lemma rte_hlist_del_bucket:
  assumes "bucket h b (xs @ e # ys)"
  shows "bucket (rte_hlist_del e h) b (xs @ ys)" "rte_hlist_unhashed e (rte_hlist_del e h)"
proof -
  have r: "bucket (hlist_del_in e h) b (xs @ ys)" by (rule hlist_del_in_bucket [OF assms])
  have e: "e \<notin> set (xs @ ys)" using assms by (auto simp: bucket_def)
  let ?h = "rte_hlist_del e h"
  have "hchain ?h (HFirst b) (hfirst (hlist_del_in e h) b) (xs @ ys)"
  proof (rule hchain_frame [of "hlist_del_in e h"])
    show "hchain (hlist_del_in e h) (HFirst b) (hfirst (hlist_del_in e h) b) (xs @ ys)"
      using r by (simp add: bucket_def)
    have "\<forall>x\<in>set (xs @ ys). x \<noteq> e" using e by blast
    then show "\<forall>x\<in>set (xs @ ys). get_hlink ?h (HNext x) = get_hlink (hlist_del_in e h) (HNext x)"
      "\<forall>x\<in>set (xs @ ys). hpprev ?h x = hpprev (hlist_del_in e h) x"
      by (simp_all add: rte_hlist_del_def set_pprev_def)
  qed
  then show "bucket ?h b (xs @ ys)"
    using r by (simp add: bucket_def rte_hlist_del_def set_pprev_def)
  show "rte_hlist_unhashed e ?h" by (simp add: rte_hlist_unhashed_def rte_hlist_del_def)
qed

section \<open>Lemmas: what an operation leaves alone\<close>

lemma ring_ends: "ring h l xs \<Longrightarrow> lnext h l \<in> set (l # xs) \<and> lprev h l \<in> set (l # xs)"
  using ring_first [of h l xs] ring_last [of h l xs] by (cases "xs = []") auto

lemma ring_neighbours_in:
  assumes "ring h l (xs @ e # ys)"
  shows "lnext h e \<in> set (l # xs @ e # ys)" "lprev h e \<in> set (l # xs @ e # ys)"
proof -
  have "last (l # xs) \<in> set (l # xs)" "hd (ys @ [l]) \<in> set (ys @ [l])"
    by (rule last_in_set, simp, rule hd_in_set, simp)
  then show "lnext h e \<in> set (l # xs @ e # ys)" "lprev h e \<in> set (l # xs @ e # ys)"
    unfolding ring_neighbours(1,2) [OF assms] by auto
qed

lemma add_outside:
  assumes "ring h l xs"
  shows "same_outside (insert n (set (l # xs))) h (rte_list_add n l h)"
    and "same_outside (insert n (set (l # xs))) h (rte_list_add_tail n l h)"
  using ring_ends [OF assms]
  by (auto simp: same_outside_def rte_list_add_def rte_list_add_tail_def heap_defs)

lemma del_outside:
  assumes "ring h l (xs @ e # ys)"
  shows "same_outside (set (l # xs @ e # ys)) h (rte_list_del e h)"
  using ring_neighbours_in [OF assms]
  by (auto simp: same_outside_def rte_list_del_def heap_defs)

lemma init_outside: "same_outside {l} h (init_list l h)"
  by (simp add: same_outside_def heap_defs)

lemma splice_outside:
  assumes "ring h l xs" "ring h k zs"
  shows "same_outside (set (l # xs) \<union> set (k # zs)) h (rte_list_splice k l h)"
    and "same_outside (set (l # xs) \<union> set (k # zs)) h (rte_list_splice_tail k l h)"
    and "same_outside (set (l # xs) \<union> set (k # zs)) h (rte_list_splice_tail_init k l h)"
  using ring_ends [OF assms(1)] ring_ends [OF assms(2)]
  by (auto simp: same_outside_def rte_list_splice_def rte_list_splice_tail_def
      rte_list_splice_tail_init_def heap_defs)

lemma lists_at_ring: "lists_at h F \<Longrightarrow> F l = Some xs \<Longrightarrow> ring h l xs \<and> NULL \<notin> set (l # xs)"
  unfolding lists_at_def by blast

lemma lists_at_apart:
  "lists_at h F \<Longrightarrow> F l = Some xs \<Longrightarrow> F k = Some zs \<Longrightarrow> l \<noteq> k \<Longrightarrow> set (l # xs) \<inter> set (k # zs) = {}"
  unfolding lists_at_def by blast

lemma lists_at_frame:
  assumes "lists_at h F" "same_outside S h h'" "F k = Some zs" "set (k # zs) \<inter> S = {}"
  shows "ring h' k zs"
proof (rule ring_frame)
  show "ring h k zs" using lists_at_ring [OF assms(1,3)] by simp
  show "\<forall>x\<in>set (k # zs). lnext h' x = lnext h x \<and> lprev h' x = lprev h x"
    using assms(2,4) unfolding same_outside_def by blast
qed

lemma lists_at_update:
  assumes "lists_at h F" "F l = Some xs" "ring h' l xs'" "same_outside S h h'"
    and "S \<subseteq> set (l # xs) \<union> N" "set xs' \<subseteq> set xs \<union> N" "\<forall>n\<in>N. fresh F n"
  shows "lists_at h' (F(l \<mapsto> xs'))"
proof -
  have far: "set (k # zs) \<inter> (set (l # xs) \<union> N) = {}" if "F k = Some zs" "k \<noteq> l" for k zs
    using lists_at_apart [OF assms(1) that(1) assms(2)] that assms(7) unfolding fresh_def by blast
  have "ring h' k zs" if "F k = Some zs" "k \<noteq> l" for k zs
    by (rule lists_at_frame [OF assms(1,4) that(1)]) (use far [OF that] assms(5) in blast)
  moreover have "NULL \<notin> set (l # xs')"
    using lists_at_ring [OF assms(1,2)] assms(6,7) unfolding fresh_def by auto
  moreover have "set (k # zs) \<inter> set (l # xs') = {}" if "F k = Some zs" "k \<noteq> l" for k zs
    using far [OF that] assms(6) by auto
  ultimately show ?thesis
    using assms(1,3) unfolding lists_at_def by (simp add: Int_commute)
qed

lemma lists_at_add:
  assumes "lists_at h F" "F l = Some xs" "fresh F n"
  shows "lists_at (rte_list_add n l h) (F(l \<mapsto> n # xs))"
    and "lists_at (rte_list_add_tail n l h) (F(l \<mapsto> xs @ [n]))"
proof -
  have r: "ring h l xs" using lists_at_ring [OF assms(1,2)] by simp
  have n: "n \<notin> set (l # xs)" using assms(2,3) unfolding fresh_def by blast
  show "lists_at (rte_list_add n l h) (F(l \<mapsto> n # xs))"
    by (rule lists_at_update [OF assms(1,2) rte_list_add_ring [OF r n] add_outside(1) [OF r], of "{n}"])
      (use assms(3) in auto)
  show "lists_at (rte_list_add_tail n l h) (F(l \<mapsto> xs @ [n]))"
    by (rule lists_at_update [OF assms(1,2) rte_list_add_tail_ring [OF r n] add_outside(2) [OF r], of "{n}"])
      (use assms(3) in auto)
qed

lemma lists_at_del:
  assumes "lists_at h F" "F l = Some (xs @ e # ys)"
  shows "lists_at (rte_list_del e h) (F(l \<mapsto> xs @ ys))" "unlinked (rte_list_del e h) e"
    and "fresh (F(l \<mapsto> xs @ ys)) e"
proof -
  have r: "ring h l (xs @ e # ys)" "NULL \<notin> set (l # xs @ e # ys)"
    using lists_at_ring [OF assms] by simp_all
  show "lists_at (rte_list_del e h) (F(l \<mapsto> xs @ ys))"
    by (rule lists_at_update [OF assms rte_list_del_ring(1) [OF r(1)] del_outside [OF r(1)], of "{}"]) auto
  show "unlinked (rte_list_del e h) e" using rte_list_del_ring(2) [OF r(1)] by (simp add: unlinked_def)
  have "e \<notin> set (l # xs @ ys)" "e \<noteq> NULL" using r by (auto simp: ring_def)
  moreover have "e \<notin> set (k # zs)" if "F k = Some zs" "k \<noteq> l" for k zs
    using lists_at_apart [OF assms(1) that(1) assms(2) that(2)] by auto
  ultimately show "fresh (F(l \<mapsto> xs @ ys)) e" unfolding fresh_def by simp
qed

lemma linked_not_NULL:
  assumes "lists_at h F" "F l = Some xs" "x \<in> set xs"
  shows "\<not> unlinked h x"
proof -
  obtain us vs where xs: "xs = us @ x # vs" using split_list [OF assms(3)] by blast
  have "ring h l (us @ x # vs)" "NULL \<notin> set (l # us @ x # vs)"
    using lists_at_ring [OF assms(1,2)] xs by simp_all
  then show ?thesis using ring_neighbours_in(1) [of h l us x vs] unfolding unlinked_def by metis
qed

lemma unlinked_outside: "same_outside S h h' \<Longrightarrow> x \<notin> S \<Longrightarrow> unlinked h' x = unlinked h x"
  by (simp add: same_outside_def unlinked_def)

lemma unlinked_ops:
  assumes "lists_at h F" "F l = Some xs" "x \<notin> set (l # xs)"
  shows "x \<noteq> n \<Longrightarrow> unlinked (rte_list_add n l h) x = unlinked h x"
    and "x \<noteq> n \<Longrightarrow> unlinked (rte_list_add_tail n l h) x = unlinked h x"
    and "e \<in> set xs \<Longrightarrow> unlinked (rte_list_del e h) x = unlinked h x"
proof -
  have r: "ring h l xs" using lists_at_ring [OF assms(1,2)] by simp
  show "unlinked (rte_list_add n l h) x = unlinked h x" if "x \<noteq> n"
    by (rule unlinked_outside [OF add_outside(1) [OF r]]) (use assms(3) that in auto)
  show "unlinked (rte_list_add_tail n l h) x = unlinked h x" if "x \<noteq> n"
    by (rule unlinked_outside [OF add_outside(2) [OF r]]) (use assms(3) that in auto)
  assume "e \<in> set xs"
  then obtain us vs where xs: "xs = us @ e # vs" using split_list by metis
  show "unlinked (rte_list_del e h) x = unlinked h x"
    by (rule unlinked_outside [OF del_outside]) (use r assms(3) xs in auto)
qed

lemma lists_at_new:
  assumes "lists_at h F" "fresh F l" "F l = None"
  shows "lists_at (init_list l h) (F(l \<mapsto> []))"
proof -
  have "ring (init_list l h) k zs" if "F k = Some zs" for k zs
    by (rule lists_at_frame [OF assms(1) init_outside that]) (use assms(2) that in \<open>auto simp: fresh_def\<close>)
  then show ?thesis using assms init_list_ring [of l h]
    unfolding lists_at_def fresh_def by (auto 0 0)
qed

lemma lists_at_forget: "lists_at h F \<Longrightarrow> lists_at h (F(l := None))"
  unfolding lists_at_def by (auto 0 0 split: if_splits)

lemma lists_at_splice:
  assumes "lists_at h F" "F l = Some xs" "F k = Some zs" "l \<noteq> k"
  shows "lists_at (rte_list_splice_tail_init k l h) (F(l \<mapsto> xs @ zs, k \<mapsto> []))"
    and "lists_at (rte_list_splice k l h) (F(l \<mapsto> zs @ xs, k := None))"
proof -
  have r: "ring h l xs" "ring h k zs" using lists_at_ring [OF assms(1)] assms(2,3) by simp_all
  have d: "set (k # zs) \<inter> set (l # xs) = {}" using lists_at_apart [OF assms(1,3,2)] assms(4) by simp
  have n: "NULL \<notin> set (l # xs)" "NULL \<notin> set (k # zs)"
    using lists_at_ring [OF assms(1)] assms(2,3) by simp_all
  have far: "set (m # us) \<inter> (set (l # xs) \<union> set (k # zs)) = {}" if "F m = Some us" "m \<noteq> l" "m \<noteq> k" for m us
    using lists_at_apart [OF assms(1) that(1) assms(2) that(2)]
      lists_at_apart [OF assms(1) that(1) assms(3) that(3)] by blast
  have o: "ring h' m us" if "F m = Some us" "m \<noteq> l" "m \<noteq> k"
      "same_outside (set (l # xs) \<union> set (k # zs)) h h'" for m us h'
    by (rule lists_at_frame [OF assms(1) that(4,1)]) (rule far [OF that(1-3)])
  have ap: "set (m # us) \<inter> set (m' # us') = {}"
    if "F m = Some us" "F m' = Some us'" "m \<noteq> m'" for m m' us us'
    by (rule lists_at_apart [OF assms(1) that])
  have nn: "NULL \<notin> set (m # us)" if "F m = Some us" for m us using lists_at_ring [OF assms(1) that] by simp
  let ?a = "rte_list_splice_tail_init k l h" and ?b = "rte_list_splice k l h"
  have "ring ?a l (xs @ zs)" "ring ?a k []" "ring ?b l (zs @ xs)"
    using rte_list_splice_init_ring(2,4) [OF r d] rte_list_splice_ring(1) [OF r d] by simp_all
  moreover have "ring ?a m us" "ring ?b m us" if "F m = Some us" "m \<noteq> l" "m \<noteq> k" for m us
    using o [OF that splice_outside(3) [OF r]] o [OF that splice_outside(1) [OF r]] by simp_all
  moreover have "set (m # us) \<inter> set (l # xs @ zs) = {}" "set (m # us) \<inter> set [k] = {}"
    "set (m # us) \<inter> set (l # zs @ xs) = {}"
    if "F m = Some us" "m \<noteq> l" "m \<noteq> k" for m us
    using far [OF that] by auto
  moreover have "set (l # xs @ zs) \<inter> set [k] = {}" "set [k] \<inter> set (l # xs @ zs) = {}"
    using d r assms(4) by (auto simp: ring_def)
  ultimately show "lists_at ?a (F(l \<mapsto> xs @ zs, k \<mapsto> []))" "lists_at ?b (F(l \<mapsto> zs @ xs, k := None))"
    using n nn ap assms(4) unfolding lists_at_def by (simp_all add: Int_commute)
qed

text \<open>
  The contract the run queue relies on: lists of nodes that share nothing, nodes added at either
  end, deleted from any list, and a test for a node that is in no list.
\<close>

locale node_lists =
  fixes lists :: "'h \<Rightarrow> (ptr \<rightharpoonup> ptr list) \<Rightarrow> bool"
    and push push_back :: "ptr \<Rightarrow> ptr \<Rightarrow> 'h \<Rightarrow> 'h"
    and del :: "ptr \<Rightarrow> 'h \<Rightarrow> 'h"
    and first :: "'h \<Rightarrow> ptr \<Rightarrow> ptr"
    and free_node :: "'h \<Rightarrow> ptr \<Rightarrow> bool"
  assumes push: "lists h F \<Longrightarrow> F l = Some xs \<Longrightarrow> fresh F n \<Longrightarrow> lists (push n l h) (F(l \<mapsto> n # xs))"
    and push_back: "lists h F \<Longrightarrow> F l = Some xs \<Longrightarrow> fresh F n \<Longrightarrow>
          lists (push_back n l h) (F(l \<mapsto> xs @ [n]))"
    and del: "lists h F \<Longrightarrow> F l = Some (xs @ e # ys) \<Longrightarrow> lists (del e h) (F(l \<mapsto> xs @ ys))"
    and del_fresh: "lists h F \<Longrightarrow> F l = Some (xs @ e # ys) \<Longrightarrow> fresh (F(l \<mapsto> xs @ ys)) e"
    and first: "lists h F \<Longrightarrow> F l = Some xs \<Longrightarrow> first h l = (case xs of [] \<Rightarrow> l | x # _ \<Rightarrow> x)"
    and head_out: "lists h F \<Longrightarrow> F l = Some xs \<Longrightarrow> l \<notin> set xs"
    and free_del: "lists h F \<Longrightarrow> F l = Some (xs @ e # ys) \<Longrightarrow> free_node (del e h) e"
    and free_not_in: "lists h F \<Longrightarrow> F l = Some xs \<Longrightarrow> x \<in> set xs \<Longrightarrow> \<not> free_node h x"
    and free_push: "lists h F \<Longrightarrow> F l = Some xs \<Longrightarrow> x \<notin> set (n # l # xs) \<Longrightarrow>
          free_node (push n l h) x = free_node h x"
    and free_push_back: "lists h F \<Longrightarrow> F l = Some xs \<Longrightarrow> x \<notin> set (n # l # xs) \<Longrightarrow>
          free_node (push_back n l h) x = free_node h x"
    and free_del_other: "lists h F \<Longrightarrow> F l = Some xs \<Longrightarrow> e \<in> set xs \<Longrightarrow> x \<notin> set (l # xs) \<Longrightarrow>
          free_node (del e h) x = free_node h x"
begin

lemma first_empty: "lists h F \<Longrightarrow> F l = Some xs \<Longrightarrow> first h l = l \<longleftrightarrow> xs = []"
  using first [of h F l xs] head_out [of h F l xs] by (cases xs) auto

lemma pop:
  assumes "lists h F" "F l = Some (e # xs)"
  shows "lists (del e h) (F(l \<mapsto> xs))" "fresh (F(l \<mapsto> xs)) e" "free_node (del e h) e"
  using del [of h F l "[]" e xs] del_fresh [of h F l "[]" e xs] free_del [of h F l "[]" e xs] assms
  by simp_all

lemma pop_push_back:
  assumes "lists h F" "F l = Some (e # xs)" "F k = Some zs" "l \<noteq> k"
  shows "lists (push_back e k (del e h)) (F(l \<mapsto> xs, k \<mapsto> zs @ [e]))"
    and "lists (push e k (del e h)) (F(l \<mapsto> xs, k \<mapsto> e # zs))"
  using push_back [OF pop(1) [OF assms(1,2)] _ pop(2) [OF assms(1,2)], of k zs]
    push [OF pop(1) [OF assms(1,2)] _ pop(2) [OF assms(1,2)], of k zs] assms(3,4)
  by simp_all

lemma free_pop_push:
  assumes "lists h F" "F l = Some (e # xs)" "F k = Some zs" "l \<noteq> k"
    and "x \<notin> set (l # e # xs)" "x \<notin> set (k # zs)"
  shows "free_node (push_back e k (del e h)) x = free_node h x"
    and "free_node (push e k (del e h)) x = free_node h x"
proof -
  have d: "lists (del e h) (F(l \<mapsto> xs))" using pop(1) [OF assms(1,2)] .
  have f: "free_node (del e h) x = free_node h x"
    using free_del_other [OF assms(1,2), of e x] assms(5) by simp
  show "free_node (push_back e k (del e h)) x = free_node h x"
    using free_push_back [OF d, of k zs x e] f assms(3-6) by simp
  show "free_node (push e k (del e h)) x = free_node h x"
    using free_push [OF d, of k zs x e] f assms(3-6) by simp
qed

end

interpretation lists: node_lists lists_at rte_list_add rte_list_add_tail rte_list_del lnext unlinked
proof unfold_locales
  show "lnext h l = (case xs of [] \<Rightarrow> l | x # _ \<Rightarrow> x)" if "lists_at h F" "F l = Some xs" for h F l xs
    using lists_at_ring [OF that] ring_first [of h l xs] by (cases xs) simp_all
  show "l \<notin> set xs" if "lists_at h F" "F l = Some xs" for h F l xs
    using lists_at_ring [OF that] by (simp add: ring_def)
qed (use lists_at_add lists_at_del linked_not_NULL unlinked_ops in \<open>simp_all; fail\<close>)+

section \<open>Properties\<close>

lemma rte_list_ops_parts:
  assumes "ring h head (xs @ e # ys)" "n \<notin> set (head # xs @ e # ys)"
  shows "ring (rte_list_add n head h) head (n # xs @ e # ys)"
    and "ring (rte_list_add_tail n head h) head (xs @ e # ys @ [n])"
    and "ring (rte_list_del e h) head (xs @ ys) \<and> lnext (rte_list_del e h) e = NULL"
    and "ring (rte_list_del_init e h) head (xs @ ys) \<and> ring (rte_list_del_init e h) e []"
    and "ring (rte_list_replace e n h) head (xs @ n # ys)"
    and "ring (rte_list_rotate_left head h) head (tl (xs @ e # ys) @ [hd (xs @ e # ys)])"
    and "rte_list_foreach head h = Some (xs @ e # ys)"
    and "rte_list_foreach_prev head h = Some (rev (xs @ e # ys))"
proof -
  show "ring (rte_list_add n head h) head (n # xs @ e # ys)"
    using rte_list_add_ring [OF assms] .
  show "ring (rte_list_add_tail n head h) head (xs @ e # ys @ [n])"
    using rte_list_add_tail_ring [OF assms] by simp
  show "ring (rte_list_rotate_left head h) head (tl (xs @ e # ys) @ [hd (xs @ e # ys)])"
    using rte_list_rotate_left_ring [OF assms(1)] by (cases xs) simp_all
qed (use rte_list_del_ring [OF assms(1)] rte_list_del_init_ring [OF assms(1)]
    rte_list_replace_ring [OF assms] rte_list_foreach_ring [OF assms(1)] in simp_all)


text \<open>A list of the three nodes 2, 3 and 4 with head 1, and an empty list with head 9.\<close>

definition example_lheap :: lheap where
  "example_lheap = \<lparr>lnext = (\<lambda>x. if x = 9 then 9 else if x = 4 then 1 else x + 1),
     lprev = (\<lambda>x. if x = 9 then 9 else if x = 1 then 4 else x - 1)\<rparr>"

lemma example_ring: "ring example_lheap 1 ([2] @ 3 # [4])" "ring example_lheap 9 []"
  by (simp_all add: ring_def example_lheap_def)


lemma rte_list_two_lists_parts:
  assumes "ring h head (xs @ e # ys)" "ring h l zs" "set (l # zs) \<inter> set (head # xs @ e # ys) = {}"
  shows "ring (rte_list_move e l h) l (e # zs)" "ring (rte_list_move_tail e l h) l (zs @ [e])"
    and "ring (rte_list_splice l head h) head (zs @ xs @ e # ys)"
    and "ring (rte_list_splice_tail l head h) head ((xs @ e # ys) @ zs)"
    and "ring (rte_list_splice_tail_init l head h) head ((xs @ e # ys) @ zs)"
    and "ring (rte_list_splice_tail_init l head h) l []"
    and "ring (rte_list_cut_position l head e h) l (xs @ [e])"
    and "ring (rte_list_cut_position l head e h) head ys"
proof -
  have lf: "l \<notin> set (head # xs @ e # ys)" using assms(3) by auto
  have eh: "e \<noteq> head" using assms(1) by (auto simp: ring_def)
  have nx: "\<not> rte_list_empty head h" using ring_empty [OF assms(1)] by simp
  have "lnext h head = e" if "rte_list_is_singular head h"
  proof -
    have "lnext h head = lprev h head" using that by (simp add: rte_list_is_singular_def)
    then have "hd (xs @ [e]) = last (e # ys)"
      using ring_first [OF assms(1)] ring_last [OF assms(1)] by (cases xs) auto
    moreover have "hd (xs @ [e]) \<in> set (xs @ [e])" "last (e # ys) \<in> set (e # ys)"
      by (rule hd_in_set, simp, rule last_in_set, simp)
    ultimately have "hd (xs @ [e]) = e" using assms(1) by (auto simp: ring_def simp del: last.simps)
    then show ?thesis using ring_first [OF assms(1)] by (cases xs) auto
  qed
  then have "rte_list_cut_position l head e h = list_cut_position_in l head e h"
    using nx eh by (auto simp: rte_list_cut_position_def)
  then show "ring (rte_list_cut_position l head e h) l (xs @ [e])"
    "ring (rte_list_cut_position l head e h) head ys"
    using list_cut_position_in_ring [OF assms(1) lf] by simp_all
qed (use rte_list_move_ring [OF assms] rte_list_splice_ring [OF assms]
    rte_list_splice_init_ring [OF assms] in simp_all)

text \<open>
  On two disjoint lists: moving a node takes it to the front or the end of the other list,
  splicing puts one list before or behind the nodes of the other, and cutting a list behind or
  before a node moves the front part to the new head.
\<close>

theorem rte_list_two_lists:
  assumes "ring h head (xs @ e # ys)" "ring h l zs" "set (l # zs) \<inter> set (head # xs @ e # ys) = {}"
  shows "(ring (rte_list_move e l h) l (e # zs)) \<and>
    (ring (rte_list_move_tail e l h) l (zs @ [e])) \<and>
    (ring (rte_list_splice l head h) head (zs @ xs @ e # ys)) \<and>
    (ring (rte_list_splice_tail l head h) head ((xs @ e # ys) @ zs)) \<and>
    (ring (rte_list_splice_tail_init l head h) head ((xs @ e # ys) @ zs)) \<and>
    (ring (rte_list_splice_tail_init l head h) l []) \<and>
    (ring (rte_list_cut_position l head e h) l (xs @ [e])) \<and>
    (ring (rte_list_cut_position l head e h) head ys)"
  using rte_list_two_lists_parts [OF assms] by blast

theorem rte_list_two_lists_witness:
  "ring (rte_list_cut_position 9 1 3 example_lheap) 9 [2, 3] \<and>
   ring (rte_list_cut_position 9 1 3 example_lheap) 1 [4]"
  using rte_list_two_lists [OF example_ring] by simp

lemma rte_hlist_ops_parts:
  assumes "bucket h b (xs @ e # ys)" "n \<notin> set (xs @ e # ys)" "n \<noteq> NULL" "b \<noteq> c"
  shows "bucket (rte_hlist_add_head n b h) b (n # xs @ e # ys)"
    and "bucket (rte_hlist_add_before n e h) b (xs @ n # e # ys)"
    and "bucket (rte_hlist_del e h) b (xs @ ys) \<and> rte_hlist_unhashed e (rte_hlist_del e h)"
    and "bucket (rte_hlist_move_list b c h) c (xs @ e # ys) \<and> bucket (rte_hlist_move_list b c h) b []"
  using rte_hlist_add_head_bucket [OF assms(1-3)] rte_hlist_add_before_bucket [OF assms(1-3)]
    rte_hlist_del_bucket [OF assms(1)] rte_hlist_move_list_bucket [OF assms(1,4)] by blast+

text \<open>
  On a hash bucket that represents \<open>xs @ e # ys\<close>, with a node \<open>n\<close> outside it: adding at the head,
  adding before \<open>e\<close>, deletion of \<open>e\<close> (which then counts as unhashed) and moving the whole list to
  another bucket represent the lists their names say, back links included.
\<close>

theorem rte_hlist_ops:
  assumes "bucket h b (xs @ e # ys)" "n \<notin> set (xs @ e # ys)" "n \<noteq> NULL" "b \<noteq> c"
  shows "(bucket (rte_hlist_add_head n b h) b (n # xs @ e # ys)) \<and>
    (bucket (rte_hlist_add_before n e h) b (xs @ n # e # ys)) \<and>
    (bucket (rte_hlist_del e h) b (xs @ ys) \<and> rte_hlist_unhashed e (rte_hlist_del e h)) \<and>
    (bucket (rte_hlist_move_list b c h) c (xs @ e # ys) \<and> bucket (rte_hlist_move_list b c h) b [])"
  using rte_hlist_ops_parts [OF assms] by blast

theorem rte_hlist_ops_witness:
  "bucket (rte_hlist_add_head 7 1 (rte_hlist_add_head 5 1
     \<lparr>hfirst = \<lambda>_. 0, hnext = \<lambda>_. 0, hpprev = \<lambda>_. HNull\<rparr>)) 1 [7, 5]"
proof -
  have "bucket (rte_hlist_add_head 5 1 \<lparr>hfirst = \<lambda>_. 0, hnext = \<lambda>_. 0, hpprev = \<lambda>_. HNull\<rparr>) 1 ([] @ 5 # [])"
    by (simp add: bucket_def rte_hlist_add_head_def set_pprev_def Let_def)
  from rte_hlist_ops [OF this, of 7 2] show ?thesis by simp
qed

end
