(* ===== verification/Run_Queue.thy ===== *)
theory Run_Queue
  imports Linked_List
begin

text \<open>
  The run queue of \<open>rq.c\<close> and \<open>rq.h\<close>: a fixed pool of nodes on a free list, a pending list in
  the order of execution, submission with and without a copy of the data, cancellation through
  the node's reference cell, the visitor, and the scheduling loop. The queue lives on the link
  heap of \<open>Linked_List\<close> and uses its operations. Each critical section is one definition; the
  scheduler thread, the submitting threads and a visitor interleave between them (\<open>rq_step\<close>).
  The completion is the binary semaphore of the Zephyr port; \<open>os_panic\<close> does not return.
\<close>

section \<open>Definitions: the context and its operations\<close>

text \<open>What a node executes: nothing, a user function, or \<open>exec_adaptor_cb\<close>.\<close>

datatype rq_exec = ExecNull | Exec nat | ExecAdaptor

record rq_node =
  exec :: rq_exec
  arg :: ptr
  refp :: ptr
  dofree :: bool

record buffer_hdr =
  cb :: rq_exec
  bh_len :: nat
  bh_data :: "u8 list"

text \<open>
  The context with the memory it works on: the links, the nodes, the cells that \<open>refp\<close> points to
  and the buffers from \<open>general_malloc\<close>. The list heads are the first two members of the context
  at address \<open>rq\<close>.
\<close>

record rq_context =
  heap :: lheap
  node_of :: "ptr \<Rightarrow> rq_node"
  cells :: "ptr \<Rightarrow> ptr"
  bufs :: "ptr \<rightharpoonup> buffer_hdr"
  completion :: bool
  buffer :: ptr
  fn_executing :: rq_exec
  nq :: u16
  nr :: u16

abbreviation (input) frees :: "ptr \<Rightarrow> ptr" where "frees rq \<equiv> rq"
abbreviation (input) pending :: "ptr \<Rightarrow> ptr" where "pending rq \<equiv> rq + 8"
abbreviation (input) sizeof_rq_node :: nat where "sizeof_rq_node \<equiv> 24"

datatype outcome = Returns int | Panics

definition os_completed :: "rq_context \<Rightarrow> rq_context" where
  "os_completed s = s\<lparr>completion := True\<rparr>"

definition rq_set_executing :: "rq_exec \<Rightarrow> rq_context \<Rightarrow> rq_context" where
  "rq_set_executing fn s = s\<lparr>fn_executing := fn\<rparr>"

primrec add_nodes :: "nat \<Rightarrow> ptr \<Rightarrow> ptr \<Rightarrow> lheap \<Rightarrow> lheap" where
  "add_nodes 0 p head h = h"
| "add_nodes (Suc n) p head h = add_nodes n (p + sizeof_rq_node) head (rte_list_add_tail p head h)"

definition rq_static_init :: "ptr \<Rightarrow> rq_context \<Rightarrow> rq_context" where
  "rq_static_init rq s =
     (let h = init_list (frees rq) (heap s);
          h = init_list (pending rq) h
      in s\<lparr>completion := False, heap := add_nodes (unat (nq s)) (buffer s) (frees rq) h\<rparr>)"

definition rq_init :: "ptr \<Rightarrow> ptr \<Rightarrow> nat \<Rightarrow> rq_context \<Rightarrow> rq_context \<times> int" where
  "rq_init rq buf sz s =
     (if rq = NULL \<or> buf = NULL \<or> buf mod 4 \<noteq> 0 then (s, - EINVAL)
      else if sz < sizeof_rq_node then (s, - EINVAL)
      else (rq_static_init rq (s\<lparr>nq := of_nat (sz div sizeof_rq_node), buffer := buf\<rparr>), 0))"

definition rq_put_locked :: "ptr \<Rightarrow> ptr \<Rightarrow> rq_context \<Rightarrow> rq_context" where
  "rq_put_locked rq rn s = s\<lparr>heap := rte_list_add rn (frees rq) (heap s)\<rparr>"

definition rq_get_first_locked :: "ptr \<Rightarrow> rq_context \<Rightarrow> ptr \<times> rq_context" where
  "rq_get_first_locked head s =
     (if \<not> rte_list_empty head (heap s)
      then let rn = lnext (heap s) head in (rn, s\<lparr>heap := rte_list_del rn (heap s)\<rparr>)
      else (NULL, s))"

definition rq_add_node_locked :: "ptr \<Rightarrow> ptr \<Rightarrow> bool \<Rightarrow> rq_context \<Rightarrow> rq_context" where
  "rq_add_node_locked rq rn prepend s =
     (let need_wakeup = rte_list_empty (pending rq) (heap s);
          h = (if prepend then rte_list_add rn (pending rq) (heap s)
               else rte_list_add_tail rn (pending rq) (heap s));
          s = s\<lparr>heap := h, nr := nr s + 1\<rparr>
      in if need_wakeup then os_completed s else s)"

definition set_node :: "ptr \<Rightarrow> rq_node \<Rightarrow> rq_context \<Rightarrow> rq_context" where
  "set_node p n s = s\<lparr>node_of := (node_of s)(p := n)\<rparr>"

text \<open>\<open>bh\<close> is the address \<open>general_malloc\<close> returned, NULL when it had no memory.\<close>

definition rq_submit_with_copy ::
  "ptr \<Rightarrow> ptr \<Rightarrow> rq_exec \<Rightarrow> u8 list \<Rightarrow> bool \<Rightarrow> rq_context \<Rightarrow> rq_context \<times> outcome" where
  "rq_submit_with_copy rq bh fn data prepend s =
     (if bh = NULL then (s, Panics)
      else
        let s = s\<lparr>bufs := (bufs s)(bh \<mapsto> \<lparr>cb = fn, bh_len = length data, bh_data = data\<rparr>)\<rparr>;
            (rn, s) = rq_get_first_locked (frees rq) s
        in if rn = NULL then (s\<lparr>bufs := (bufs s)(bh := None)\<rparr>, Panics)
           else
             let s = set_node rn \<lparr>exec = ExecAdaptor, arg = bh, refp = NULL, dofree = True\<rparr> s
             in (rq_add_node_locked rq rn prepend s, Returns 0))"

definition rq_submit_entry :: "ptr \<Rightarrow> ptr \<Rightarrow> bool \<Rightarrow> rq_context \<Rightarrow> rq_context \<times> outcome" where
  "rq_submit_entry rq rn prepend s =
     (if exec (node_of s rn) = ExecNull then (s, Returns (- EINVAL))
      else
        let s = (if lnext (heap s) rn = NULL then rq_add_node_locked rq rn prepend s else s);
            s = set_node rn ((node_of s rn)\<lparr>dofree := False\<rparr>) s
        in (s, Returns 0))"

definition rq_submit :: "ptr \<Rightarrow> rq_exec \<Rightarrow> ptr \<Rightarrow> bool \<Rightarrow> rq_context \<Rightarrow> rq_context \<times> outcome" where
  "rq_submit rq fn a prepend s =
     (let (rn, s) = rq_get_first_locked (frees rq) s
      in if rn = NULL then (s, Panics)
         else
           let s = set_node rn \<lparr>exec = fn, arg = a, refp = NULL, dofree = True\<rparr> s
           in (rq_add_node_locked rq rn prepend s, Returns 0))"

definition rq_submit_ext ::
  "ptr \<Rightarrow> rq_exec \<Rightarrow> ptr \<Rightarrow> bool \<Rightarrow> ptr \<Rightarrow> rq_context \<Rightarrow> rq_context \<times> outcome" where
  "rq_submit_ext rq fn a prepend pnode s =
     (let (rn, s) = rq_get_first_locked (frees rq) s
      in if rn = NULL then (s, Panics)
         else
           let s = set_node rn \<lparr>exec = fn, arg = a, refp = pnode, dofree = True\<rparr> s;
               s = s\<lparr>cells := (cells s)(pnode := rn)\<rparr>
           in (rq_add_node_locked rq rn prepend s, Returns 0))"

text \<open>\<open>*rn->refp = NULL; rn->refp = NULL;\<close> of the deletion and of the scheduler.\<close>

definition clear_refp :: "ptr \<Rightarrow> rq_context \<Rightarrow> rq_context" where
  "clear_refp rn s =
     (let s = s\<lparr>cells := (cells s)(refp (node_of s rn) := NULL)\<rparr>
      in set_node rn ((node_of s rn)\<lparr>refp := NULL\<rparr>) s)"

definition rq_node_delete :: "ptr \<Rightarrow> ptr \<Rightarrow> rq_context \<Rightarrow> rq_context" where
  "rq_node_delete rq pnode s =
     (if refp (node_of s pnode) \<noteq> NULL
      then let s = clear_refp pnode s;
               s = s\<lparr>nr := nr s - 1\<rparr>;
               s = s\<lparr>heap := rte_list_del pnode (heap s)\<rparr>
           in rq_put_locked rq pnode s
      else s)"

text \<open>
  The visitor: it takes the whole pending list to a local head (at address \<open>vh\<close>), walks it with
  the lock released, puts it back in front and wakes the scheduler if the list was empty.
\<close>

definition visit_take :: "ptr \<Rightarrow> ptr \<Rightarrow> rq_context \<Rightarrow> rq_context \<times> bool" where
  "visit_take rq vh s =
     (let s = s\<lparr>heap := init_list vh (heap s)\<rparr>
      in if rte_list_empty (pending rq) (heap s) then (s, False)
         else (s\<lparr>heap := rte_list_splice_tail_init (pending rq) vh (heap s)\<rparr>, True))"

definition visit_put :: "ptr \<Rightarrow> ptr \<Rightarrow> rq_context \<Rightarrow> rq_context \<times> bool" where
  "visit_put rq vh s =
     (let wakeup = rte_list_empty (pending rq) (heap s)
      in (s\<lparr>heap := rte_list_splice vh (pending rq) (heap s)\<rparr>, wakeup))"

definition rq_visitor ::
  "ptr \<Rightarrow> ptr \<Rightarrow> (rq_node \<Rightarrow> 'w \<Rightarrow> 'w) \<Rightarrow> 'w \<Rightarrow> rq_context \<Rightarrow> (rq_context \<times> 'w) option" where
  "rq_visitor rq vh iterator w s =
     (let (s, taken) = visit_take rq vh s
      in if \<not> taken then Some (s, w)
         else Option.bind (rte_list_foreach vh (heap s)) (\<lambda>ns.
           let w = fold (\<lambda>p. iterator (node_of s p)) ns w;
               (s, wakeup) = visit_put rq vh s
           in Some (if wakeup then os_completed s else s, w)))"

text \<open>\<open>_rq_dump\<close>: the iterator counts the nodes it prints.\<close>

definition rq_dump :: "ptr \<Rightarrow> ptr \<Rightarrow> rq_context \<Rightarrow> (rq_context \<times> rq_exec list) option" where
  "rq_dump rq vh s = rq_visitor rq vh (\<lambda>n out. out @ [exec n]) [] s"

section \<open>Definitions: the scheduler and the interleavings\<close>

text \<open>
  Where the scheduling loop is: about to take the next node, blocked on the completion, or running
  a function with the lock released, with what it has read of the node.
\<close>

datatype sched_pc = Top | Waiting | Running ptr rq_exec ptr bool

definition sched_fetch :: "ptr \<Rightarrow> rq_context \<Rightarrow> sched_pc \<times> rq_context" where
  "sched_fetch rq s =
     (let (rn, s) = rq_get_first_locked (pending rq) s
      in if rn = NULL then (Waiting, s)
         else
           let s = s\<lparr>nr := nr s - 1\<rparr>;
               s = (if refp (node_of s rn) \<noteq> NULL then clear_refp rn s else s);
               fn = exec (node_of s rn);
               a = arg (node_of s rn);
               d = dofree (node_of s rn)
           in (Running rn fn a d, rq_set_executing fn s))"

text \<open>\<open>exec_adaptor_cb\<close> around the call of the callback.\<close>

definition adaptor_enter :: "ptr \<Rightarrow> rq_context \<Rightarrow> rq_context" where
  "adaptor_enter bh s =
     (case bufs s bh of Some b \<Rightarrow> rq_set_executing (cb b) s | None \<Rightarrow> s)"

definition adaptor_leave :: "ptr \<Rightarrow> rq_context \<Rightarrow> rq_context" where
  "adaptor_leave bh s = s\<lparr>bufs := (bufs s)(bh := None)\<rparr>"

text \<open>The function has returned: the rest of the loop body.\<close>

definition sched_done :: "ptr \<Rightarrow> ptr \<Rightarrow> rq_exec \<Rightarrow> ptr \<Rightarrow> bool \<Rightarrow> rq_context \<Rightarrow> rq_context" where
  "sched_done rq rn fn a d s =
     (let s = (if fn = ExecAdaptor then adaptor_leave a s else s);
          s = rq_set_executing ExecNull s
      in if d then rq_put_locked rq rn s else s)"

text \<open>Where a visitor is: not active, walking the list it took, or about to wake the scheduler.\<close>

datatype visit_pc = VOff | VWalk ptr | VWake

record config =
  st :: rq_context
  pc :: sched_pc
  vis :: visit_pc

text \<open>
  The steps between critical sections. \<open>P\<close> are the nodes of the pool, \<open>U\<close> the nodes that belong
  to callers of \<open>_rq_submit_entry\<close>. Submissions may come from any thread and from the function
  that is running; a buffer from \<open>general_malloc\<close> is not in use already.
\<close>

inductive rq_step :: "ptr \<Rightarrow> ptr set \<Rightarrow> ptr set \<Rightarrow> config \<Rightarrow> config \<Rightarrow> bool" for rq P U where
  step_fetch: "pc c = Top \<Longrightarrow> sched_fetch rq (st c) = (p, s) \<Longrightarrow> rq_step rq P U c (c\<lparr>st := s, pc := p\<rparr>)"
| step_wait: "pc c = Waiting \<Longrightarrow> completion (st c) \<Longrightarrow>
    rq_step rq P U c (c\<lparr>st := (st c)\<lparr>completion := False\<rparr>, pc := Top\<rparr>)"
| step_adaptor: "pc c = Running rn ExecAdaptor a d \<Longrightarrow>
    rq_step rq P U c (c\<lparr>st := adaptor_enter a (st c)\<rparr>)"
| step_done: "pc c = Running rn fn a d \<Longrightarrow>
    rq_step rq P U c (c\<lparr>st := sched_done rq rn fn a d (st c), pc := Top\<rparr>)"
| step_submit: "rq_submit rq (Exec f) a prepend (st c) = (s, Returns r) \<Longrightarrow>
    rq_step rq P U c (c\<lparr>st := s\<rparr>)"
| step_submit_ext: "pnode \<noteq> NULL \<Longrightarrow> rq_submit_ext rq (Exec f) a prepend pnode (st c) = (s, Returns r) \<Longrightarrow>
    rq_step rq P U c (c\<lparr>st := s\<rparr>)"
| step_submit_cp: "bufs (st c) bh = None \<Longrightarrow>
    rq_submit_with_copy rq bh (Exec f) data prepend (st c) = (s, Returns r) \<Longrightarrow>
    rq_step rq P U c (c\<lparr>st := s\<rparr>)"
| step_submit_entry: "rn \<in> U \<Longrightarrow> rq_submit_entry rq rn prepend (st c) = (s, Returns r) \<Longrightarrow>
    rq_step rq P U c (c\<lparr>st := s\<rparr>)"
| step_delete: "n \<in> P \<Longrightarrow> rq_step rq P U c (c\<lparr>st := rq_node_delete rq n (st c)\<rparr>)"
| step_visit_take: "vis c = VOff \<Longrightarrow> vh \<notin> {NULL, frees rq, pending rq} \<union> P \<union> U \<Longrightarrow>
    visit_take rq vh (st c) = (s, taken) \<Longrightarrow>
    rq_step rq P U c (c\<lparr>st := s, vis := if taken then VWalk vh else VOff\<rparr>)"
| step_visit_put: "vis c = VWalk vh \<Longrightarrow> visit_put rq vh (st c) = (s, wakeup) \<Longrightarrow>
    rq_step rq P U c (c\<lparr>st := s, vis := if wakeup then VWake else VOff\<rparr>)"
| step_visit_wake: "vis c = VWake \<Longrightarrow> rq_step rq P U c (c\<lparr>st := os_completed (st c), vis := VOff\<rparr>)"

text \<open>The steps of the scheduler thread alone; blocked on the completion it stays where it is.\<close>

definition sched_next :: "ptr \<Rightarrow> config \<Rightarrow> config" where
  "sched_next rq c = (case pc c of
     Top \<Rightarrow> (let (p, s) = sched_fetch rq (st c) in c\<lparr>st := s, pc := p\<rparr>)
   | Waiting \<Rightarrow> if completion (st c) then c\<lparr>st := (st c)\<lparr>completion := False\<rparr>, pc := Top\<rparr> else c
   | Running rn fn a d \<Rightarrow> c\<lparr>st := sched_done rq rn fn a d (st c), pc := Top\<rparr>)"

text \<open>The functions on the pending list with their arguments, in the order of the list.\<close>

definition pending_work :: "ptr \<Rightarrow> rq_context \<Rightarrow> (rq_exec \<times> ptr) list option" where
  "pending_work rq s =
     map_option (map (\<lambda>n. (exec (node_of s n), arg (node_of s n)))) (rte_list_foreach (pending rq) (heap s))"

section \<open>Definitions: the invariant\<close>

text \<open>
  \<open>fs\<close>, \<open>ps\<close> and \<open>vs\<close> are the nodes on the free list, on the pending list and on the list a visitor
  has taken. A running pool node is on no list.
\<close>

definition qmap :: "ptr \<Rightarrow> ptr list \<Rightarrow> ptr list \<Rightarrow> visit_pc \<Rightarrow> ptr list \<Rightarrow> (ptr \<rightharpoonup> ptr list)" where
  "qmap rq fs ps v vs =
     (let F = [frees rq \<mapsto> fs, pending rq \<mapsto> ps] in case v of VWalk h \<Rightarrow> F(h \<mapsto> vs) | _ \<Rightarrow> F)"

fun busy :: "sched_pc \<Rightarrow> ptr set" where
  "busy (Running rn _ _ True) = {rn}"
| "busy _ = {}"

definition layout :: "ptr \<Rightarrow> ptr set \<Rightarrow> ptr set \<Rightarrow> bool" where
  "layout rq P U \<longleftrightarrow> P \<inter> U = {} \<and> {NULL, frees rq, pending rq} \<inter> (P \<union> U) = {} \<and> rq \<noteq> NULL"

definition inv_visit :: "ptr \<Rightarrow> ptr set \<Rightarrow> ptr set \<Rightarrow> visit_pc \<Rightarrow> ptr list \<Rightarrow> bool" where
  "inv_visit rq P U v vs \<longleftrightarrow>
     (case v of VWalk h \<Rightarrow> h \<notin> {NULL, frees rq, pending rq} \<union> P \<union> U | _ \<Rightarrow> vs = [])"

definition inv_pool :: "ptr set \<Rightarrow> ptr set \<Rightarrow> ptr set \<Rightarrow> ptr list \<Rightarrow> ptr list \<Rightarrow> bool" where
  "inv_pool P U B fs qs \<longleftrightarrow>
     P = set fs \<union> (P \<inter> set qs) \<union> B \<and> set qs \<subseteq> P \<union> U \<and> B \<inter> (set fs \<union> set qs) = {}"

definition inv_nodes :: "ptr set \<Rightarrow> ptr set \<Rightarrow> rq_context \<Rightarrow> ptr list \<Rightarrow> bool" where
  "inv_nodes P U s qs \<longleftrightarrow>
     (\<forall>x\<in>set qs. dofree (node_of s x) = (x \<in> P)) \<and>
     (\<forall>x\<in>U. x \<notin> set qs \<longrightarrow> unlinked (heap s) x) \<and>
     (\<forall>x\<in>P. refp (node_of s x) \<noteq> NULL \<longrightarrow> x \<in> set qs) \<and> (\<forall>x\<in>U. refp (node_of s x) = NULL)"

definition inv_wake :: "config \<Rightarrow> ptr list \<Rightarrow> bool" where
  "inv_wake c ps \<longleftrightarrow> (pc c = Waiting \<longrightarrow> ps \<noteq> [] \<longrightarrow> completion (st c) \<or> vis c = VWake)"

definition rq_inv :: "ptr \<Rightarrow> ptr set \<Rightarrow> ptr set \<Rightarrow> config \<Rightarrow> ptr list \<Rightarrow> ptr list \<Rightarrow> ptr list \<Rightarrow> bool" where
  "rq_inv rq P U c fs ps vs \<longleftrightarrow>
     lists_at (heap (st c)) (qmap rq fs ps (vis c) vs) \<and> inv_visit rq P U (vis c) vs \<and>
     inv_pool P U (busy (pc c)) fs (vs @ ps) \<and> inv_nodes P U (st c) (vs @ ps) \<and>
     nr (st c) = of_nat (length (vs @ ps)) \<and> inv_wake c ps"

definition enqueue :: "bool \<Rightarrow> ptr \<Rightarrow> ptr list \<Rightarrow> ptr list" where
  "enqueue prepend n ps = (if prepend then n # ps else ps @ [n])"

definition unlink :: "ptr \<Rightarrow> rq_context \<Rightarrow> rq_context" where
  "unlink n s = s\<lparr>heap := rte_list_del n (heap s)\<rparr>"

definition store_buf :: "ptr \<Rightarrow> rq_exec \<Rightarrow> u8 list \<Rightarrow> rq_context \<Rightarrow> rq_context" where
  "store_buf bh fn data s =
     s\<lparr>bufs := (bufs s)(bh \<mapsto> \<lparr>cb = fn, bh_len = length data, bh_data = data\<rparr>)\<rparr>"

section \<open>Lemmas: the operations on the lists\<close>

lemma qmap_simps:
  assumes "inv_visit rq P U v vs"
  shows "qmap rq fs ps v vs (frees rq) = Some fs" "qmap rq fs ps v vs (pending rq) = Some ps"
    and "(qmap rq fs ps v vs)(frees rq \<mapsto> fs') = qmap rq fs' ps v vs"
    and "(qmap rq fs ps v vs)(pending rq \<mapsto> ps') = qmap rq fs ps' v vs"
  using assms by (auto simp: qmap_def inv_visit_def fun_eq_iff split: visit_pc.splits)

lemma rq_get_first_locked_nil:
  assumes "lists_at (heap s) F" "F l = Some []"
  shows "rq_get_first_locked l s = (NULL, s)"
  using lists.first_empty [OF assms] by (simp add: rq_get_first_locked_def rte_list_empty_def)

lemma rq_get_first_locked_cons:
  assumes "lists_at (heap s) F" "F l = Some (n # xs)"
  shows "rq_get_first_locked l s = (n, s\<lparr>heap := rte_list_del n (heap s)\<rparr>)" "n \<noteq> NULL"
  using lists.first [OF assms] lists.first_empty [OF assms] lists_at_ring [OF assms]
  by (simp_all add: rq_get_first_locked_def rte_list_empty_def)

lemma rq_add_node_locked_fields [simp]:
  "node_of (rq_add_node_locked rq n p s) = node_of s" "bufs (rq_add_node_locked rq n p s) = bufs s"
  "cells (rq_add_node_locked rq n p s) = cells s" "nr (rq_add_node_locked rq n p s) = nr s + 1"
  by (simp_all add: rq_add_node_locked_def Let_def os_completed_def)

lemma rq_add_node_locked_heap:
  "heap (rq_add_node_locked rq n p s) =
     (if p then rte_list_add n (pending rq) (heap s) else rte_list_add_tail n (pending rq) (heap s))"
  by (simp add: rq_add_node_locked_def Let_def os_completed_def)

lemma rq_add_node_locked_completion:
  assumes "lists_at (heap s) F" "F (pending rq) = Some ps"
  shows "completion (rq_add_node_locked rq n p s) \<longleftrightarrow> completion s \<or> ps = []"
  using lists.first_empty [OF assms]
  by (simp add: rq_add_node_locked_def Let_def os_completed_def rte_list_empty_def)

lemma enqueue_simps [simp]:
  "set (enqueue p n ps) = insert n (set ps)" "length (enqueue p n ps) = Suc (length ps)" "enqueue p n ps \<noteq> []"
  by (simp_all add: enqueue_def)

lemma rq_add_node_locked_lists:
  assumes "lists_at (heap s) (qmap rq fs ps v vs)" "inv_visit rq P U v vs" "fresh (qmap rq fs ps v vs) n"
  shows "lists_at (heap (rq_add_node_locked rq n p s)) (qmap rq fs (enqueue p n ps) v vs)"
  using lists.push [OF assms(1) qmap_simps(2) [OF assms(2)] assms(3)]
    lists.push_back [OF assms(1) qmap_simps(2) [OF assms(2)] assms(3)]
  by (simp add: rq_add_node_locked_heap qmap_simps(4) [OF assms(2)] enqueue_def)

text \<open>A node that leaves the free list or that a caller owns is on no list.\<close>

lemma qmap_fresh:
  assumes "inv_visit rq P U v vs" "n \<in> P \<union> U" "layout rq P U" "n \<notin> set fs \<union> set ps \<union> set vs"
  shows "fresh (qmap rq fs ps v vs) n"
  using assms by (auto simp: fresh_def qmap_def inv_visit_def layout_def split: visit_pc.splits if_splits)

lemma qmap_distinct:
  assumes "lists_at h (qmap rq fs ps v vs)" "inv_visit rq P U v vs"
  shows "distinct (fs @ ps @ vs)"
proof -
  have d: "distinct fs" "distinct ps"
    using lists_at_ring [OF assms(1) qmap_simps(1) [OF assms(2)]]
      lists_at_ring [OF assms(1) qmap_simps(2) [OF assms(2)]] by (simp_all add: ring_def)
  have fp: "set fs \<inter> set ps = {}"
    using lists_at_apart [OF assms(1) qmap_simps(1,2) [OF assms(2)]] by auto
  show ?thesis
  proof (cases v)
    case (VWalk h)
    have q: "qmap rq fs ps v vs h = Some vs" and h: "h \<noteq> rq" "h \<noteq> rq + 8"
      using VWalk assms(2) by (simp_all add: qmap_def inv_visit_def)
    have "distinct vs" using lists_at_ring [OF assms(1) q] by (simp add: ring_def)
    moreover have "set fs \<inter> set vs = {}" "set ps \<inter> set vs = {}"
      using lists_at_apart [OF assms(1) qmap_simps(1) [OF assms(2)] q]
        lists_at_apart [OF assms(1) qmap_simps(2) [OF assms(2)] q] h by auto
    ultimately show ?thesis using d fp by auto
  qed (use d fp assms(2) in \<open>auto simp: inv_visit_def\<close>)
qed

section \<open>Lemmas: every step keeps the invariant\<close>

lemma rq_invD:
  assumes "rq_inv rq P U c fs ps vs"
  shows "lists_at (heap (st c)) (qmap rq fs ps (vis c) vs)" "inv_visit rq P U (vis c) vs"
    "inv_pool P U (busy (pc c)) fs (vs @ ps)" "inv_nodes P U (st c) (vs @ ps)"
    "nr (st c) = of_nat (length (vs @ ps))" "inv_wake c ps" "distinct (fs @ ps @ vs)"
  using assms qmap_distinct [of "heap (st c)" rq fs ps "vis c" vs P U] by (simp_all add: rq_inv_def)

lemma inv_nodes_frame:
  assumes "inv_nodes P U s qs" "node_of s' = node_of s" "\<forall>x\<in>U. x \<notin> set qs \<longrightarrow> unlinked (heap s') x = unlinked (heap s) x"
  shows "inv_nodes P U s' qs"
  using assms by (simp add: inv_nodes_def)

lemma submit_inv:
  assumes I: "rq_inv rq P U c (n # fs) ps vs" and L: "layout rq P U" and d: "dofree nd"
    and s1: "heap s1 = rte_list_del n (heap (st c))" "node_of s1 = (node_of (st c))(n := nd)"
      "nr s1 = nr (st c)" "completion s1 = completion (st c)"
  shows "rq_inv rq P U (c\<lparr>st := rq_add_node_locked rq n p s1\<rparr>) fs (enqueue p n ps) vs"
proof -
  note D = rq_invD [OF I]
  let ?v = "vis c" and ?s = "rq_add_node_locked rq n p s1"
  note Q = qmap_simps [OF D(2)]
  have pop: "lists_at (heap s1) (qmap rq fs ps ?v vs)" "fresh (qmap rq fs ps ?v vs) n"
    using lists.pop(1,2) [OF D(1) Q(1)] by (simp_all add: s1 Q(3))
  have l: "lists_at (heap ?s) (qmap rq fs (enqueue p n ps) ?v vs)"
    by (rule rq_add_node_locked_lists [OF pop(1) D(2) pop(2)])
  have nP: "n \<in> P" "set fs \<subseteq> P" using D(3) by (auto simp: inv_pool_def)
  have nq: "n \<notin> set (vs @ ps)" "n \<notin> set fs" using D(7) by auto
  have pool: "inv_pool P U (busy (pc c)) fs (vs @ enqueue p n ps)"
    using D(3) nP(1) unfolding inv_pool_def by (auto 0 0)
  have un: "unlinked (heap ?s) x = unlinked (heap (st c)) x" if "x \<in> U" "x \<notin> set (vs @ ps)" for x
  proof -
    have x: "x \<notin> set (frees rq # n # fs)" "x \<notin> set (pending rq # ps)"
      using that L nP by (auto simp: layout_def)
    show ?thesis
      using lists.free_pop_push [OF D(1) Q(1,2) _ x] by (simp add: rq_add_node_locked_heap s1)
  qed
  have nodes: "inv_nodes P U ?s (vs @ enqueue p n ps)"
  proof -
    have nU: "n \<notin> U" using nP(1) L by (auto simp: layout_def)
    have "dofree (node_of ?s x) = (x \<in> P)" if "x \<in> set (vs @ enqueue p n ps)" for x
      using that D(4) nP(1) d by (cases "x = n") (auto simp: s1 inv_nodes_def)
    moreover have "unlinked (heap ?s) x" if "x \<in> U" "x \<notin> set (vs @ enqueue p n ps)" for x
      using that D(4) un [of x] by (simp add: inv_nodes_def)
    moreover have "x \<in> set (vs @ enqueue p n ps)" if "x \<in> P" "refp (node_of ?s x) \<noteq> NULL" for x
      using that D(4) by (cases "x = n") (auto simp: s1 inv_nodes_def)
    moreover have "refp (node_of ?s x) = NULL" if "x \<in> U" for x
      using that D(4) nU by (cases "x = n") (auto simp: s1 inv_nodes_def)
    ultimately show ?thesis by (simp add: inv_nodes_def)
  qed
  have wake: "inv_wake (c\<lparr>st := ?s\<rparr>) (enqueue p n ps)"
    using D(6) rq_add_node_locked_completion [OF pop(1) Q(2), of n p] by (auto simp: inv_wake_def s1)
  show ?thesis unfolding rq_inv_def using l D(2,5) pool nodes wake by (simp add: s1)
qed

lemma submit_entry_inv:
  assumes I: "rq_inv rq P U c fs ps vs" and L: "layout rq P U" and n: "n \<in> U"
    and s: "rq_submit_entry rq n p (st c) = (s, Returns r)"
  shows "\<exists>ps'. rq_inv rq P U (c\<lparr>st := s\<rparr>) fs ps' vs"
proof -
  note D = rq_invD [OF I]
  let ?s = "rq_add_node_locked rq n p (st c)"
  have keep: ?thesis if "rq_inv rq P U (c\<lparr>st := t\<rparr>) fs ps' vs" "s = set_node n ((node_of t n)\<lparr>dofree := False\<rparr>) t" for t ps'
  proof -
    have "inv_nodes P U s (vs @ ps')"
      using rq_invD(4) [OF that(1)] that(2) n L unfolding inv_nodes_def layout_def by (auto simp: set_node_def)
    then show ?thesis using that unfolding rq_inv_def inv_wake_def by (auto simp: set_node_def)
  qed
  consider "s = st c" | "unlinked (heap (st c)) n" "s = set_node n ((node_of ?s n)\<lparr>dofree := False\<rparr>) ?s"
    | "s = set_node n ((node_of (st c) n)\<lparr>dofree := False\<rparr>) (st c)"
  proof (cases "exec (node_of (st c) n) = ExecNull")
    case True then show ?thesis using s that(1) by (simp add: rq_submit_entry_def)
  next
    case False
    then show ?thesis using s that(2,3)
      by (cases "lnext (heap (st c)) n = NULL") (simp_all add: rq_submit_entry_def unlinked_def Let_def)
  qed
  then show ?thesis
  proof cases
    case 1 then show ?thesis using I by auto
  next
    case 3 then show ?thesis using keep [of "st c" ps] I by simp
  next
    case 2
    note Q = qmap_simps [OF D(2)]
    have nq: "n \<notin> set (vs @ ps)"
    proof
      assume "n \<in> set (vs @ ps)"
      then consider "n \<in> set ps" | h where "vis c = VWalk h" "n \<in> set vs"
        using D(2) by (cases "vis c") (auto simp: inv_visit_def)
      then show False
      proof cases
        case 1 then show ?thesis using 2(1) lists.free_not_in [OF D(1) Q(2)] by simp
      next
        case (2 h)
        have "qmap rq fs ps (vis c) vs h = Some vs" using 2(1) by (simp add: qmap_def)
        then show ?thesis
          using \<open>unlinked (heap (st c)) n\<close> lists.free_not_in [OF D(1) _ 2(2)] by simp
      qed
    qed
    have fr: "fresh (qmap rq fs ps (vis c) vs) n"
      by (rule qmap_fresh [OF D(2) _ L]) (use n nq D(3) L in \<open>auto simp: inv_pool_def layout_def\<close>)
    have l: "lists_at (heap s) (qmap rq fs (enqueue p n ps) (vis c) vs)"
      using rq_add_node_locked_lists [OF D(1,2) fr] 2(2) by (simp add: set_node_def)
    have un: "unlinked (heap s) x = unlinked (heap (st c)) x" if "x \<in> U" "x \<notin> set (vs @ ps)" "x \<noteq> n" for x
    proof -
      have x: "x \<notin> set (n # pending rq # ps)" using that L by (auto simp: layout_def)
      show ?thesis
        using lists.free_push [OF D(1) Q(2) x] lists.free_push_back [OF D(1) Q(2) x] 2(2)
        by (simp add: set_node_def rq_add_node_locked_heap)
    qed
    have "inv_nodes P U s (vs @ enqueue p n ps)"
      using D(4) un n L 2(2) unfolding inv_nodes_def layout_def by (auto simp: set_node_def)
    moreover have "inv_pool P U (busy (pc c)) fs (vs @ enqueue p n ps)"
      using D(3) n nq L unfolding inv_pool_def layout_def by (cases "pc c" rule: busy.cases) auto
    moreover have "inv_wake (c\<lparr>st := s\<rparr>) (enqueue p n ps)"
      using D(6) rq_add_node_locked_completion [OF D(1) Q(2), of n p] 2(2)
      by (auto simp: inv_wake_def set_node_def)
    ultimately have "rq_inv rq P U (c\<lparr>st := s\<rparr>) fs (enqueue p n ps) vs"
      unfolding rq_inv_def using l D(2,5) 2(2) by (simp add: set_node_def)
    then show ?thesis by blast
  qed
qed

lemma sched_fetch_empty:
  assumes "rq_inv rq P U c fs [] vs"
  shows "sched_fetch rq (st c) = (Waiting, st c)"
  using rq_get_first_locked_nil [OF rq_invD(1) [OF assms] qmap_simps(2) [OF rq_invD(2) [OF assms]]]
  by (simp add: sched_fetch_def)

lemma sched_fetch_cons:
  assumes I: "rq_inv rq P U c fs (n # ps) vs"
  shows "\<exists>s. sched_fetch rq (st c) =
      (Running n (exec (node_of (st c) n)) (arg (node_of (st c) n)) (n \<in> P), s) \<and>
    heap s = rte_list_del n (heap (st c)) \<and>
    node_of s = (node_of (st c))(n := (node_of (st c) n)\<lparr>refp := NULL\<rparr>) \<and>
    nr s = nr (st c) - 1 \<and> completion s = completion (st c) \<and> bufs s = bufs (st c)"
proof -
  note D = rq_invD [OF I]
  have g: "rq_get_first_locked (pending rq) (st c) = (n, (st c)\<lparr>heap := rte_list_del n (heap (st c))\<rparr>)" "n \<noteq> NULL"
    using rq_get_first_locked_cons [OF D(1) qmap_simps(2) [OF D(2)]] by simp_all
  have d: "dofree (node_of (st c) n) = (n \<in> P)" using D(4) by (simp add: inv_nodes_def)
  have e: "refp (node_of (st c) n) = NULL \<Longrightarrow>
      node_of (st c) = (node_of (st c))(n := (node_of (st c) n)\<lparr>refp := NULL\<rparr>)"
    by (simp add: fun_eq_iff)
  show ?thesis
    by (cases "refp (node_of (st c) n) = NULL")
      (use g d e in \<open>simp_all add: sched_fetch_def clear_refp_def set_node_def rq_set_executing_def Let_def\<close>)
qed

lemma fetch_inv:
  assumes I: "rq_inv rq P U c fs ps vs" and L: "layout rq P U" and t: "pc c = Top"
    and s: "sched_fetch rq (st c) = (p, s)"
  shows "rq_inv rq P U (c\<lparr>st := s, pc := p\<rparr>) fs (tl ps) vs"
proof (cases ps)
  case Nil
  then have "p = Waiting" "s = st c" using s sched_fetch_empty [of rq P U c fs vs] I by simp_all
  then show ?thesis using I t Nil by (simp add: rq_inv_def inv_wake_def)
next
  case (Cons n ps')
  note D = rq_invD [OF I [unfolded Cons]]
  note Q = qmap_simps [OF D(2)]
  obtain fn a where p: "p = Running n fn a (n \<in> P)"
    and h: "heap s = rte_list_del n (heap (st c))"
      "node_of s = (node_of (st c))(n := (node_of (st c) n)\<lparr>refp := NULL\<rparr>)"
      "nr s = nr (st c) - 1"
    using sched_fetch_cons [OF I [unfolded Cons]] s by auto
  have b: "busy p = (if n \<in> P then {n} else {})" by (simp add: p)
  have nn: "n \<in> P \<union> U" "n \<notin> set fs" "n \<notin> set (vs @ ps')" "n \<notin> P \<Longrightarrow> n \<in> U"
    using D(3,7) by (auto simp: inv_pool_def)
  have l: "lists_at (heap s) (qmap rq fs ps' (vis c) vs)"
    using lists.pop(1) [OF D(1) Q(2)] by (simp add: h Q(4))
  have "inv_pool P U (busy p) fs (vs @ ps')"
    using D(3) nn t unfolding inv_pool_def b by auto
  moreover have "inv_nodes P U s (vs @ ps')"
  proof -
    have "dofree (node_of s x) = (x \<in> P)" if "x \<in> set (vs @ ps')" for x
      using that D(4) nn(3) by (auto simp: h inv_nodes_def)
    moreover have "unlinked (heap s) x" if "x \<in> U" "x \<notin> set (vs @ ps')" for x
    proof (cases "x = n")
      case True then show ?thesis using lists.pop(3) [OF D(1) Q(2)] by (simp add: h)
    next
      case False
      have "x \<notin> set (pending rq # n # ps')" using False that L by (auto simp: layout_def)
      then show ?thesis
        using lists.free_del_other [OF D(1) Q(2), of n x] that False D(4) by (simp add: h inv_nodes_def)
    qed
    moreover have "x \<in> set (vs @ ps')" if "x \<in> P" "refp (node_of s x) \<noteq> NULL" for x
      using that D(4) by (cases "x = n") (auto simp: h inv_nodes_def)
    moreover have "refp (node_of s x) = NULL" if "x \<in> U" for x
      using that D(4) by (cases "x = n") (auto simp: h inv_nodes_def)
    ultimately show ?thesis by (simp add: inv_nodes_def)
  qed
  ultimately show ?thesis
    using l D(2,5) Cons p unfolding rq_inv_def by (simp add: h inv_wake_def)
qed

lemma sched_done_fields:
  "heap (sched_done rq rn fn a d s) = (if d then rte_list_add rn (frees rq) (heap s) else heap s)"
  "node_of (sched_done rq rn fn a d s) = node_of s" "nr (sched_done rq rn fn a d s) = nr s"
  "completion (sched_done rq rn fn a d s) = completion s"
  by (simp_all add: sched_done_def Let_def rq_put_locked_def rq_set_executing_def adaptor_leave_def)

lemma done_inv:
  assumes I: "rq_inv rq P U c fs ps vs" and L: "layout rq P U" and p: "pc c = Running rn fn a d"
  shows "\<exists>fs'. rq_inv rq P U (c\<lparr>st := sched_done rq rn fn a d (st c), pc := Top\<rparr>) fs' ps vs"
proof -
  note D = rq_invD [OF I]
  let ?s = "sched_done rq rn fn a d (st c)"
  note f = sched_done_fields
  show ?thesis
  proof (cases d)
    case False
    then have "rq_inv rq P U (c\<lparr>st := ?s, pc := Top\<rparr>) fs ps vs"
      using I p unfolding rq_inv_def by (simp add: f inv_nodes_def inv_wake_def)
    then show ?thesis by blast
  next
    case True
    have rn: "rn \<in> P" "rn \<notin> set fs \<union> set ps \<union> set vs" and sub: "set fs \<subseteq> P"
      using D(3) p True by (auto simp: inv_pool_def)
    have fr: "fresh (qmap rq fs ps (vis c) vs) rn" by (rule qmap_fresh [OF D(2) _ L]) (use rn in auto)
    have l: "lists_at (heap ?s) (qmap rq (rn # fs) ps (vis c) vs)"
      using lists.push [OF D(1) qmap_simps(1) [OF D(2)] fr] True by (simp add: f qmap_simps(3) [OF D(2)])
    have un: "unlinked (heap ?s) x = unlinked (heap (st c)) x" if "x \<in> U" for x
    proof -
      have "x \<notin> set (rn # frees rq # fs)" using that rn sub L by (auto simp: layout_def)
      then show ?thesis
        using lists.free_push [OF D(1) qmap_simps(1) [OF D(2)]] True by (simp add: f)
    qed
    have "rq_inv rq P U (c\<lparr>st := ?s, pc := Top\<rparr>) (rn # fs) ps vs"
      using l D(2-6) p True un unfolding rq_inv_def
      by (simp add: f inv_nodes_def inv_wake_def inv_pool_def)
    then show ?thesis by blast
  qed
qed

lemma queued_split:
  assumes "rq_inv rq P U c fs ps vs" "layout rq P U" "n \<in> set (vs @ ps)"
  obtains l xs ys ps' vs' where "qmap rq fs ps (vis c) vs l = Some (xs @ n # ys)"
    "(qmap rq fs ps (vis c) vs)(l \<mapsto> xs @ ys) = qmap rq fs ps' (vis c) vs'"
    "inv_visit rq P U (vis c) vs'" "set (vs' @ ps') = set (vs @ ps) - {n}"
    "length (vs @ ps) = Suc (length (vs' @ ps'))" "set (xs @ n # ys) \<subseteq> set (vs @ ps)" "l \<notin> U"
    "ps = [] \<longrightarrow> ps' = []"
proof -
  note D = rq_invD [OF assms(1)]
  note Q = qmap_simps [OF D(2)]
  from assms(3) consider (ps) xs ys where "ps = xs @ n # ys"
    | (vs) h xs ys where "vis c = VWalk h" "vs = xs @ n # ys"
    using D(2) split_list [of n ps] split_list [of n vs] by (cases "vis c") (auto simp: inv_visit_def)
  then show ?thesis
  proof cases
    case (ps xs ys)
    have n: "n \<notin> set vs" "n \<notin> set xs" "n \<notin> set ys" using D(7) ps by auto
    show ?thesis
      by (rule that [of "pending rq" xs ys "xs @ ys" vs])
        (use Q(2) Q(4) D(2) n ps assms(2) in \<open>auto simp: layout_def\<close>)
  next
    case (vs h xs ys)
    have n: "n \<notin> set ps" "n \<notin> set xs" "n \<notin> set ys" using D(7) vs by auto
    have h: "h \<notin> {NULL, frees rq, pending rq} \<union> P \<union> U" using D(2) vs(1) by (simp add: inv_visit_def)
    show ?thesis
      by (rule that [of h xs ys ps "xs @ ys"])
        (use h n vs in \<open>auto simp: inv_visit_def qmap_def fun_eq_iff\<close>)
  qed
qed

lemma delete_inv:
  assumes I: "rq_inv rq P U c fs ps vs" and L: "layout rq P U" and n: "n \<in> P"
  shows "\<exists>fs' ps' vs'. rq_inv rq P U (c\<lparr>st := rq_node_delete rq n (st c)\<rparr>) fs' ps' vs'"
proof (cases "refp (node_of (st c) n) = NULL")
  case True
  then show ?thesis using I by (auto simp: rq_node_delete_def)
next
  case False
  note D = rq_invD [OF I]
  let ?s = "rq_node_delete rq n (st c)"
  have f: "heap ?s = rte_list_add n (frees rq) (rte_list_del n (heap (st c)))" "nr ?s = nr (st c) - 1"
    "node_of ?s = (node_of (st c))(n := (node_of (st c) n)\<lparr>refp := NULL\<rparr>)"
    "completion ?s = completion (st c)"
    using False by (simp_all add: rq_node_delete_def clear_refp_def set_node_def rq_put_locked_def Let_def)
  have nq: "n \<in> set (vs @ ps)" using False D(4) n by (simp add: inv_nodes_def)
  obtain l xs ys ps' vs' where l: "qmap rq fs ps (vis c) vs l = Some (xs @ n # ys)"
    and F: "(qmap rq fs ps (vis c) vs)(l \<mapsto> xs @ ys) = qmap rq fs ps' (vis c) vs'"
    and V: "inv_visit rq P U (vis c) vs'" and sq: "set (vs' @ ps') = set (vs @ ps) - {n}"
    and ln: "length (vs @ ps) = Suc (length (vs' @ ps'))"
    and sub: "set (xs @ n # ys) \<subseteq> set (vs @ ps)" "l \<notin> U" and ne: "ps = [] \<longrightarrow> ps' = []"
    by (rule queued_split [OF I L nq])
  note Q = qmap_simps [OF V]
  have d: "lists_at (rte_list_del n (heap (st c))) (qmap rq fs ps' (vis c) vs')"
    "fresh (qmap rq fs ps' (vis c) vs') n"
    using lists.del [OF D(1) l] lists.del_fresh [OF D(1) l] F by simp_all
  have lst: "lists_at (heap ?s) (qmap rq (n # fs) ps' (vis c) vs')"
    using lists.push [OF d(1) Q(1) d(2)] by (simp add: f Q(3))
  have un: "unlinked (heap ?s) x" if "x \<in> U" "x \<notin> set (vs' @ ps')" for x
  proof -
    have x: "x \<noteq> n" "x \<notin> set (vs @ ps)" "x \<notin> set (n # frees rq # fs)"
      using that n sq D(3) L by (auto simp: layout_def inv_pool_def)
    have "x \<notin> set (l # xs @ n # ys)" using x sub that(1) by auto
    then have "unlinked (rte_list_del n (heap (st c))) x"
      using lists.free_del_other [OF D(1) l, of n x] D(4) that(1) x(2) by (simp add: inv_nodes_def)
    then show ?thesis using lists.free_push [OF d(1) Q(1) x(3)] by (simp add: f)
  qed
  have "inv_nodes P U ?s (vs' @ ps')"
    using D(4) un n L sq unfolding inv_nodes_def layout_def by (auto simp: f)
  moreover have "inv_pool P U (busy (pc c)) (n # fs) (vs' @ ps')"
    using D(3) n nq sq unfolding inv_pool_def by auto
  moreover have "inv_wake (c\<lparr>st := ?s\<rparr>) ps'" using D(6) ne by (auto simp: inv_wake_def f)
  moreover have "nr ?s = of_nat (length (vs' @ ps'))" unfolding f(2) D(5) ln by simp
  ultimately have "rq_inv rq P U (c\<lparr>st := ?s\<rparr>) (n # fs) ps' vs'"
    using lst V unfolding rq_inv_def by simp
  then show ?thesis by blast
qed

lemma take_inv:
  assumes I: "rq_inv rq P U c fs ps vs" and L: "layout rq P U" and v: "vis c = VOff"
    and h: "vh \<notin> {NULL, frees rq, pending rq} \<union> P \<union> U"
    and s: "visit_take rq vh (st c) = (s, taken)"
  shows "\<exists>ps' vs'. rq_inv rq P U (c\<lparr>st := s, vis := if taken then VWalk vh else VOff\<rparr>) fs ps' vs'"
proof -
  note D = rq_invD [OF I]
  let ?F = "[frees rq \<mapsto> fs, pending rq \<mapsto> ps]" and ?h = "init_list vh (heap (st c))"
  have vs: "vs = []" and F: "qmap rq fs ps (vis c) vs = ?F" using D(2) v by (simp_all add: inv_visit_def qmap_def)
  have hf: "fresh ?F vh" "?F vh = None"
    using h D(3) vs by (auto simp: fresh_def inv_pool_def split: if_splits)
  have new: "lists_at ?h (?F(vh \<mapsto> []))" by (rule lists_at_new [OF D(1) [unfolded F] hf])
  have hu: "vh \<notin> U" using h by simp
  have un0: "unlinked ?h x = unlinked (heap (st c)) x" if "x \<in> U" for x
    by (rule unlinked_outside [OF init_outside]) (use that hu in auto)
  have e: "rte_list_empty (pending rq) ?h \<longleftrightarrow> ps = []"
    using lists.first_empty [OF new, of "pending rq" ps] h by (auto simp: rte_list_empty_def)
  show ?thesis
  proof (cases "ps = []")
    case True
    then have s': "s = (st c)\<lparr>heap := ?h\<rparr>" "\<not> taken" using s e by (auto simp: visit_take_def Let_def)
    have "lists_at ?h ((?F(vh \<mapsto> []))(vh := None))" by (rule lists_at_forget [OF new])
    then have "lists_at ?h ?F" using hf(2) by (simp add: fun_upd_idem)
    then have "rq_inv rq P U (c\<lparr>st := s, vis := VOff\<rparr>) fs [] []"
      using D True vs un0 F v s' unfolding rq_inv_def
      by (simp add: inv_nodes_def inv_wake_def inv_visit_def qmap_def)
    then show ?thesis using s'(2) by auto
  next
    case False
    then have s': "s = (st c)\<lparr>heap := rte_list_splice_tail_init (pending rq) vh ?h\<rparr>" "taken"
      using s e by (auto simp: visit_take_def Let_def)
    have "lists_at (heap s) (?F(vh \<mapsto> [], vh \<mapsto> [] @ ps, pending rq \<mapsto> []))"
      using lists_at_splice(1) [OF new, of vh "[]" "pending rq" ps] h s'(1) by simp
    moreover have "?F(vh \<mapsto> [], vh \<mapsto> [] @ ps, pending rq \<mapsto> []) = qmap rq fs [] (VWalk vh) ps"
      using h by (auto simp: qmap_def fun_eq_iff)
    ultimately have l: "lists_at (heap s) (qmap rq fs [] (VWalk vh) ps)" by simp
    have r: "ring ?h vh []" "ring ?h (pending rq) ps"
      using lists_at_ring [OF new] h by auto
    have un: "unlinked (heap s) x = unlinked (heap (st c)) x" if "x \<in> U" "x \<notin> set ps" for x
    proof -
      have "unlinked (heap s) x = unlinked ?h x"
        unfolding s'(1) by (simp, rule unlinked_outside [OF splice_outside(3) [OF r]])
          (use that L hu in \<open>auto simp: layout_def\<close>)
      then show ?thesis using un0 [OF that(1)] by simp
    qed
    have "rq_inv rq P U (c\<lparr>st := s, vis := VWalk vh\<rparr>) fs [] ps"
      using D(3-5) l vs un h s' unfolding rq_inv_def
      by (simp add: inv_nodes_def inv_wake_def inv_visit_def)
    then show ?thesis using s'(2) by auto
  qed
qed

lemma put_inv:
  assumes I: "rq_inv rq P U c fs ps vs" and L: "layout rq P U" and v: "vis c = VWalk vh"
    and s: "visit_put rq vh (st c) = (s, wakeup)"
  shows "rq_inv rq P U (c\<lparr>st := s, vis := if wakeup then VWake else VOff\<rparr>) fs (vs @ ps) []"
proof -
  note D = rq_invD [OF I]
  let ?F = "[frees rq \<mapsto> fs, pending rq \<mapsto> ps]"
  have h: "vh \<notin> {NULL, frees rq, pending rq} \<union> P \<union> U" and F: "qmap rq fs ps (vis c) vs = ?F(vh \<mapsto> vs)"
    using D(2) v by (simp_all add: inv_visit_def qmap_def)
  note D1 = D(1) [unfolded F]
  have w: "wakeup \<longleftrightarrow> ps = []" and s': "s = (st c)\<lparr>heap := rte_list_splice vh (pending rq) (heap (st c))\<rparr>"
    using s lists.first_empty [OF D1, of "pending rq" ps] h
    by (auto simp: visit_put_def Let_def rte_list_empty_def)
  have "lists_at (heap s) (?F(vh \<mapsto> vs, pending rq \<mapsto> vs @ ps, vh := None))"
    using lists_at_splice(2) [OF D1, of "pending rq" ps vh vs] h s' by auto
  moreover have "?F(vh \<mapsto> vs, pending rq \<mapsto> vs @ ps, vh := None) = [frees rq \<mapsto> fs, pending rq \<mapsto> vs @ ps]"
    using h by (auto simp: fun_eq_iff)
  ultimately have l: "lists_at (heap s) [frees rq \<mapsto> fs, pending rq \<mapsto> vs @ ps]" by simp
  have r: "ring (heap (st c)) (pending rq) ps" "ring (heap (st c)) vh vs"
    using lists_at_ring [OF D1] h by auto
  have un: "unlinked (heap s) x = unlinked (heap (st c)) x" if "x \<in> U" "x \<notin> set (vs @ ps)" for x
    unfolding s' by (simp, rule unlinked_outside [OF splice_outside(1) [OF r]])
      (use that L h in \<open>auto simp: layout_def\<close>)
  have "inv_wake (c\<lparr>st := s, vis := if wakeup then VWake else VOff\<rparr>) (vs @ ps)"
    using D(6) v w s' by (auto simp: inv_wake_def)
  moreover have "inv_nodes P U s (vs @ ps)" using D(4) un s' by (simp add: inv_nodes_def)
  ultimately show ?thesis
    using D(3,5) l s' unfolding rq_inv_def by (auto simp: inv_visit_def qmap_def)
qed

text \<open>The submissions in terms of the free list.\<close>

lemma rq_get_free:
  assumes "rq_inv rq P U c fs ps vs" "heap s = heap (st c)"
  shows "rq_get_first_locked (frees rq) s = (case fs of [] \<Rightarrow> (NULL, s) | n # _ \<Rightarrow> (n, unlink n s))"
    and "fs = n # fs' \<Longrightarrow> n \<noteq> NULL"
proof -
  have l: "lists_at (heap s) (qmap rq fs ps (vis c) vs)" using rq_invD(1) [OF assms(1)] assms(2) by simp
  note q = qmap_simps(1) [OF rq_invD(2) [OF assms(1)], of fs ps]
  show "rq_get_first_locked (frees rq) s = (case fs of [] \<Rightarrow> (NULL, s) | n # _ \<Rightarrow> (n, unlink n s))"
  proof (cases fs)
    case Nil then show ?thesis using rq_get_first_locked_nil [OF l] q by simp
  next
    case (Cons n fs') then show ?thesis using rq_get_first_locked_cons(1) [OF l] q by (simp add: unlink_def)
  qed
  show "n \<noteq> NULL" if "fs = n # fs'" using rq_get_first_locked_cons(2) [OF l] q that by simp
qed

lemma rq_submit_eq:
  assumes "rq_inv rq P U c fs ps vs"
  shows "rq_submit rq fn a p (st c) =
    (case fs of [] \<Rightarrow> (st c, Panics)
     | n # _ \<Rightarrow> (rq_add_node_locked rq n p
         (set_node n \<lparr>exec = fn, arg = a, refp = NULL, dofree = True\<rparr> (unlink n (st c))), Returns 0))"
  using rq_get_free [OF assms refl] by (simp add: rq_submit_def Let_def split: list.splits)

lemma rq_submit_ext_eq:
  assumes "rq_inv rq P U c fs ps vs"
  shows "rq_submit_ext rq fn a p pn (st c) =
    (case fs of [] \<Rightarrow> (st c, Panics)
     | n # _ \<Rightarrow> (rq_add_node_locked rq n p
         ((set_node n \<lparr>exec = fn, arg = a, refp = pn, dofree = True\<rparr> (unlink n (st c)))
            \<lparr>cells := (cells (st c))(pn := n)\<rparr>), Returns 0))"
  using rq_get_free [OF assms refl]
  by (simp add: rq_submit_ext_def Let_def set_node_def unlink_def split: list.splits)

lemma rq_submit_with_copy_eq:
  assumes "rq_inv rq P U c fs ps vs" "bh \<noteq> NULL"
  shows "rq_submit_with_copy rq bh fn data p (st c) =
    (case fs of [] \<Rightarrow> ((st c)\<lparr>bufs := (bufs (st c))(bh := None)\<rparr>, Panics)
     | n # _ \<Rightarrow> (rq_add_node_locked rq n p
         (set_node n \<lparr>exec = ExecAdaptor, arg = bh, refp = NULL, dofree = True\<rparr>
            (unlink n (store_buf bh fn data (st c)))), Returns 0))"
proof -
  have h: "heap (store_buf bh fn data (st c)) = heap (st c)" by (simp add: store_buf_def)
  show ?thesis using rq_get_free [OF assms(1) h] assms(2)
    by (simp add: rq_submit_with_copy_def store_buf_def Let_def unlink_def split: list.splits)
qed

lemma rq_step_inv:
  assumes "rq_step rq P U c c'" "rq_inv rq P U c fs ps vs" "layout rq P U"
  shows "\<exists>fs' ps' vs'. rq_inv rq P U c' fs' ps' vs'"
  using assms(1)
proof cases
  case (step_fetch p s)
  then show ?thesis using fetch_inv [OF assms(2,3)] by auto
next
  case step_wait
  then show ?thesis using assms(2) unfolding rq_inv_def by (auto simp: inv_wake_def inv_nodes_def)
next
  case (step_adaptor rn a d)
  have "heap (adaptor_enter a (st c)) = heap (st c)" "node_of (adaptor_enter a (st c)) = node_of (st c)"
    "nr (adaptor_enter a (st c)) = nr (st c)" "completion (adaptor_enter a (st c)) = completion (st c)"
    by (simp_all add: adaptor_enter_def rq_set_executing_def split: option.splits)
  then have "rq_inv rq P U c' fs ps vs"
    using assms(2) step_adaptor unfolding rq_inv_def by (simp add: inv_wake_def inv_nodes_def)
  then show ?thesis by blast
next
  case (step_done rn fn a d)
  then show ?thesis using done_inv [OF assms(2,3)] by auto
next
  case (step_submit f a p s r)
  then obtain n fs' where fs: "fs = n # fs'" and s: "s = rq_add_node_locked rq n p
      (set_node n \<lparr>exec = Exec f, arg = a, refp = NULL, dofree = True\<rparr> (unlink n (st c)))"
    using rq_submit_eq [OF assms(2)] by (auto split: list.splits)
  have "rq_inv rq P U c' fs' (enqueue p n ps) vs"
    unfolding step_submit(1) s
    by (rule submit_inv [OF assms(2) [unfolded fs] assms(3)]) (simp_all add: set_node_def unlink_def)
  then show ?thesis by blast
next
  case (step_submit_ext pn f a p s r)
  then obtain n fs' where fs: "fs = n # fs'" and s: "s = rq_add_node_locked rq n p
      ((set_node n \<lparr>exec = Exec f, arg = a, refp = pn, dofree = True\<rparr> (unlink n (st c)))
        \<lparr>cells := (cells (st c))(pn := n)\<rparr>)"
    using rq_submit_ext_eq [OF assms(2)] by (auto split: list.splits)
  have "rq_inv rq P U c' fs' (enqueue p n ps) vs"
    unfolding step_submit_ext(1) s
    by (rule submit_inv [OF assms(2) [unfolded fs] assms(3)]) (simp_all add: set_node_def unlink_def)
  then show ?thesis by blast
next
  case (step_submit_cp bh f data p s r)
  have bh: "bh \<noteq> NULL"
    using step_submit_cp(3) by (cases "bh = NULL") (simp_all add: rq_submit_with_copy_def)
  then obtain n fs' where fs: "fs = n # fs'" and s: "s = rq_add_node_locked rq n p
      (set_node n \<lparr>exec = ExecAdaptor, arg = bh, refp = NULL, dofree = True\<rparr>
        (unlink n (store_buf bh (Exec f) data (st c))))"
    using step_submit_cp(3) rq_submit_with_copy_eq [OF assms(2) bh] by (auto split: list.splits)
  have "rq_inv rq P U c' fs' (enqueue p n ps) vs"
    unfolding step_submit_cp(1) s
    by (rule submit_inv [OF assms(2) [unfolded fs] assms(3)])
      (simp_all add: set_node_def unlink_def store_buf_def)
  then show ?thesis by blast
next
  case (step_submit_entry rn p s r)
  then show ?thesis using submit_entry_inv [OF assms(2,3)] by blast
next
  case (step_delete n)
  then show ?thesis using delete_inv [OF assms(2,3)] by simp
next
  case (step_visit_take vh s taken)
  then show ?thesis using take_inv [OF assms(2,3)] by blast
next
  case (step_visit_put vh s wakeup)
  then show ?thesis using put_inv [OF assms(2,3)] by blast
next
  case step_visit_wake
  then have "rq_inv rq P U c' fs ps vs"
    using assms(2) unfolding rq_inv_def
    by (auto simp: inv_wake_def inv_nodes_def os_completed_def inv_visit_def qmap_def)
  then show ?thesis by blast
qed

section \<open>Lemmas: initialisation\<close>

lemma add_nodes_lists:
  assumes "lists_at h [frees rq \<mapsto> xs, pending rq \<mapsto> []]" "\<forall>i<n. fresh [frees rq \<mapsto> xs, pending rq \<mapsto> []] (p + 24 * i)"
  shows "lists_at (add_nodes n p (frees rq) h) [frees rq \<mapsto> xs @ map (\<lambda>i. p + 24 * i) [0..<n], pending rq \<mapsto> []] \<and>
    (\<forall>x. x \<noteq> frees rq \<longrightarrow> x \<notin> set xs \<longrightarrow> x \<notin> (\<lambda>i. p + 24 * i) ` {..<n} \<longrightarrow>
       unlinked (add_nodes n p (frees rq) h) x = unlinked h x)"
  using assms
proof (induction n arbitrary: p xs h)
  case 0 then show ?case by simp
next
  case (Suc n)
  let ?h = "rte_list_add_tail p (frees rq) h" and ?F = "[frees rq \<mapsto> xs, pending rq \<mapsto> []]"
  have q: "?F (frees rq) = Some xs" by simp
  have fr: "fresh ?F p" using Suc.prems(2) [rule_format, of 0] by simp
  have "lists_at ?h (?F(frees rq \<mapsto> xs @ [p]))" by (rule lists.push_back [OF Suc.prems(1) q fr])
  then have l: "lists_at ?h [frees rq \<mapsto> xs @ [p], pending rq \<mapsto> []]" by (simp add: fun_upd_twist)
  have f: "\<forall>i<n. fresh [frees rq \<mapsto> xs @ [p], pending rq \<mapsto> []] (p + 24 + 24 * i)"
  proof (intro allI impI)
    fix i assume "i < n"
    then have "fresh ?F (p + 24 * Suc i)" using Suc.prems(2) by blast
    then have "p + 24 * Suc i \<notin> set (l # ys)" if "?F l = Some ys" for l ys
      using that unfolding fresh_def by blast
    from this [of "frees rq" xs] this [of "pending rq" "[]"] show "fresh [frees rq \<mapsto> xs @ [p], pending rq \<mapsto> []] (p + 24 + 24 * i)"
      by (auto simp: fresh_def add.assoc split: if_splits)
  qed
  have e: "xs @ map (\<lambda>i. p + 24 * i) [0..<Suc n] = (xs @ [p]) @ map (\<lambda>i. p + 24 + 24 * i) [0..<n]"
    by (simp add: upt_conv_Cons map_Suc_upt [symmetric] o_def add.assoc del: upt_Suc)
  have im: "(\<lambda>i. p + 24 * i) ` {..<Suc n} = insert p ((\<lambda>i. p + 24 + 24 * i) ` {..<n})"
    by (simp add: lessThan_Suc_eq_insert_0 image_image add.assoc)
  have un: "unlinked ?h x = unlinked h x" if "x \<noteq> frees rq" "x \<notin> set xs" "x \<noteq> p" for x
    using lists.free_push_back [OF Suc.prems(1) q, of x p] that by simp
  show ?case
    using Suc.IH [OF l f] un unfolding add_nodes.simps e im by auto
qed

lemma rq_init_inv:
  assumes i: "rq_init rq buf sz s0 = (s, 0)" "sz div 24 < 2 ^ 16" "nr s0 = 0"
    and P: "P = (\<lambda>i. buf + 24 * i) ` {..<sz div 24}" and L: "layout rq P U"
    and z: "\<forall>x\<in>P \<union> U. refp (node_of s0 x) = NULL" "\<forall>x\<in>U. unlinked (heap s0) x"
  shows "rq_inv rq P U \<lparr>st = s, pc = Top, vis = VOff\<rparr> (map (\<lambda>i. buf + 24 * i) [0..<sz div 24]) [] []"
proof -
  let ?n = "sz div 24" and ?h = "init_list (pending rq) (init_list (frees rq) (heap s0))"
  have E: "EINVAL \<noteq> 0" by simp
  have s: "s = rq_static_init rq (s0\<lparr>nq := of_nat ?n, buffer := buf\<rparr>)"
    using i(1) E by (auto simp: rq_init_def split: if_splits)
  have h: "heap s = add_nodes ?n buf (frees rq) ?h" and fld: "node_of s = node_of s0" "nr s = nr s0"
    using i(2) unfolding s by (simp_all add: rq_static_init_def Let_def unat_of_nat take_bit_nat_eq_self)
  have rq: "rq \<noteq> NULL" using L by (simp add: layout_def)
  have "lists_at (heap s0) (\<lambda>_. None)" by (simp add: lists_at_def)
  then have "lists_at (init_list (frees rq) (heap s0)) ((\<lambda>_. None)(frees rq \<mapsto> []))"
    by (rule lists_at_new) (use rq in \<open>simp_all add: fresh_def\<close>)
  then have l0: "lists_at ?h [frees rq \<mapsto> [], pending rq \<mapsto> []]"
    by (rule lists_at_new) (use rq in \<open>simp_all add: fresh_def\<close>)
  have f0: "\<forall>i<?n. fresh [frees rq \<mapsto> [], pending rq \<mapsto> []] (buf + 24 * i)"
  proof (intro allI impI)
    fix i assume "i < ?n"
    then have "buf + 24 * i \<in> P" unfolding P by blast
    then have "buf + 24 * i \<notin> {NULL, frees rq, pending rq}" using L unfolding layout_def by blast
    then show "fresh [frees rq \<mapsto> [], pending rq \<mapsto> []] (buf + 24 * i)" by (auto simp: fresh_def)
  qed
  note A = add_nodes_lists [OF l0 f0]
  have u0: "unlinked ?h x = unlinked (heap s0) x" if "x \<in> U" for x
    using that L unfolding layout_def by (auto simp: unlinked_def heap_defs)
  have "unlinked (heap s) x" if "x \<in> U" for x
  proof -
    have x: "x \<noteq> frees rq" "x \<notin> P" using that L by (auto simp: layout_def)
    then show ?thesis using A x(2) [unfolded P] u0 [OF that] z(2) that unfolding h by simp
  qed
  then show ?thesis
    using A i(3) z(1) unfolding rq_inv_def
    by (auto simp: h fld qmap_def inv_visit_def inv_pool_def inv_nodes_def inv_wake_def P atLeast0LessThan)
qed

lemma rq_steps_inv:
  assumes "(rq_step rq P U)\<^sup>*\<^sup>* c c'" "rq_inv rq P U c fs ps vs" "layout rq P U"
  shows "\<exists>fs ps vs. rq_inv rq P U c' fs ps vs"
  using assms
proof (induction rule: rtranclp_induct)
  case base then show ?case by blast
next
  case (step b c) then show ?case using rq_step_inv [of rq P U b c] by blast
qed

section \<open>Lemmas: the order of execution\<close>

lemma pending_work_inv:
  assumes "rq_inv rq P U c fs ps vs"
  shows "pending_work rq (st c) = Some (map (\<lambda>n. (exec (node_of (st c) n), arg (node_of (st c) n))) ps)"
proof -
  have "ring (heap (st c)) (pending rq) ps"
    using lists_at_ring [OF rq_invD(1) [OF assms] qmap_simps(2) [OF rq_invD(2) [OF assms]]] by simp
  from rte_list_foreach_ring(1) [OF this] show ?thesis by (simp add: pending_work_def)
qed

lemma sched_next_fetch:
  assumes "rq_inv rq P U c fs (n # ps) vs" "pc c = Top"
  shows "pc (sched_next rq c) = Running n (exec (node_of (st c) n)) (arg (node_of (st c) n)) (n \<in> P)"
  using sched_fetch_cons [OF assms(1)] assms(2) by (auto simp: sched_next_def)

lemma sched_next_step:
  "rq_step rq P U c (sched_next rq c) \<or> sched_next rq c = c"
proof (cases "pc c")
  case Top
  obtain p s where "sched_fetch rq (st c) = (p, s)" by (cases "sched_fetch rq (st c)")
  then show ?thesis using step_fetch [OF Top] Top by (simp add: sched_next_def)
next
  case Waiting then show ?thesis using step_wait [OF Waiting] by (simp add: sched_next_def)
next
  case (Running rn fn a d) then show ?thesis using step_done [OF Running] by (simp add: sched_next_def)
qed

section \<open>Properties\<close>

text \<open>
  C1. Every state that the interleavings of scheduler, submitting threads, deletions and a visitor
  reach from an initialised queue: no node of the pool is lost or on two lists, the queued count is
  the number of queued nodes, and a scheduler blocked on the completion with work pending has been
  signalled, or the visitor is about to signal it.
\<close>

theorem rq_no_lost_nodes_or_wakeups:
  assumes "rq_init rq buf sz s0 = (s, 0)" "sz div 24 < 2 ^ 16" "nr s0 = 0"
    and "P = (\<lambda>i. buf + 24 * i) ` {..<sz div 24}" "layout rq P U"
    and "\<forall>x\<in>P \<union> U. refp (node_of s0 x) = NULL" "\<forall>x\<in>U. unlinked (heap s0) x"
    and "(rq_step rq P U)\<^sup>*\<^sup>* \<lparr>st = s, pc = Top, vis = VOff\<rparr> c"
  shows "\<exists>fs ps vs. rq_inv rq P U c fs ps vs \<and> distinct (fs @ ps @ vs) \<and>
    P = set fs \<union> (P \<inter> set (vs @ ps)) \<union> busy (pc c) \<and> nr (st c) = of_nat (length (vs @ ps)) \<and>
    (pc c = Waiting \<and> ps \<noteq> [] \<longrightarrow> completion (st c) \<or> vis c = VWake)"
proof -
  obtain fs ps vs where "rq_inv rq P U c fs ps vs"
    using rq_steps_inv [OF assms(8) rq_init_inv [OF assms(1-7)] assms(5)] by blast
  then show ?thesis
    using rq_invD [of rq P U c fs ps vs] by (intro exI [of _ fs] exI [of _ ps] exI [of _ vs])
      (simp_all add: inv_pool_def inv_wake_def)
qed

text \<open>A queue of two nodes at 200, with one entry of a caller at 300.\<close>

definition example_rq0 :: rq_context where
  "example_rq0 = \<lparr>heap = \<lparr>lnext = \<lambda>_. 0, lprev = \<lambda>_. 0\<rparr>,
     node_of = \<lambda>_. \<lparr>exec = ExecNull, arg = 0, refp = 0, dofree = False\<rparr>, cells = \<lambda>_. 0,
     bufs = \<lambda>_. None, completion = False, buffer = 0, fn_executing = ExecNull, nq = 0, nr = 0\<rparr>"

definition example_rq :: config where
  "example_rq = \<lparr>st = fst (rq_init 100 200 48 example_rq0), pc = Top, vis = VOff\<rparr>"

lemma example_pool: "(\<lambda>i. 200 + 24 * i) ` {..<2 :: nat} = {200, 224 :: nat}"
proof -
  have "{..<2 :: nat} = {0, 1}" by auto
  then show ?thesis by simp
qed

lemma example_layout: "layout 100 {200, 224} {300}"
  by (simp add: layout_def)

lemma example_facts:
  "rq_init 100 200 48 example_rq0 = (st example_rq, 0)" "(48::nat) div 24 < 2 ^ 16" "nr example_rq0 = 0"
  "{200, 224} = (\<lambda>i. 200 + 24 * i) ` {..<48 div 24 :: nat}"
  "\<forall>x\<in>{200, 224} \<union> {300}. refp (node_of example_rq0 x) = NULL" "\<forall>x\<in>{300}. unlinked (heap example_rq0) x"
  by (simp_all add: example_pool example_rq_def rq_init_def example_rq0_def unlinked_def)

lemma example_inv: "rq_inv 100 {200, 224} {300} example_rq [200, 224] [] []"
  using rq_init_inv [OF example_facts(1-4) example_layout example_facts(5,6)]
  by (simp add: example_rq_def upt_rec)

theorem rq_no_lost_nodes_or_wakeups_witness:
  "\<exists>fs ps vs. rq_inv 100 {200, 224} {300} example_rq fs ps vs"
proof -
  have e: "\<lparr>st = st example_rq, pc = Top, vis = VOff\<rparr> = example_rq" by (simp add: example_rq_def)
  show ?thesis
    using rq_no_lost_nodes_or_wakeups [OF example_facts(1-4) example_layout example_facts(5,6), of example_rq]
    by (auto simp: e)
qed

lemma rq_order_parts:
  assumes "rq_inv rq P U c fs ps vs" "layout rq P U" "pending_work rq (st c) = Some ws"
  shows "fs \<noteq> [] \<Longrightarrow> \<exists>s. rq_submit rq fn a prepend (st c) = (s, Returns 0) \<and>
           pending_work rq s = Some (if prepend then (fn, a) # ws else ws @ [(fn, a)])"
    and "fs = [] \<Longrightarrow> rq_submit rq fn a prepend (st c) = (st c, Panics)"
    and "ws = (fn, a) # ws' \<Longrightarrow> pc c = Top \<Longrightarrow>
           \<exists>rn d s. sched_fetch rq (st c) = (Running rn fn a d, s) \<and> pending_work rq s = Some ws'"
    and "ws = [] \<Longrightarrow> sched_fetch rq (st c) = (Waiting, st c)"
proof -
  have ws: "ws = map (\<lambda>n. (exec (node_of (st c) n), arg (node_of (st c) n))) ps"
    using pending_work_inv [OF assms(1)] assms(3) by simp
  note D = rq_invD [OF assms(1)]
  show "\<exists>s. rq_submit rq fn a prepend (st c) = (s, Returns 0) \<and>
      pending_work rq s = Some (if prepend then (fn, a) # ws else ws @ [(fn, a)])" if ne: "fs \<noteq> []"
  proof -
    obtain n fs' where fs: "fs = n # fs'" using ne by (cases fs) auto
    let ?s1 = "set_node n \<lparr>exec = fn, arg = a, refp = NULL, dofree = True\<rparr> (unlink n (st c))"
    let ?s = "rq_add_node_locked rq n prepend ?s1"
    have "rq_inv rq P U (c\<lparr>st := ?s\<rparr>) fs' (enqueue prepend n ps) vs"
      by (rule submit_inv [OF assms(1) [unfolded fs] assms(2)]) (simp_all add: set_node_def unlink_def)
    from pending_work_inv [OF this]
    have "pending_work rq ?s = Some (map (\<lambda>n. (exec (node_of ?s n), arg (node_of ?s n))) (enqueue prepend n ps))"
      by simp
    moreover have "n \<notin> set ps" using D(7) fs by auto
    then have "map (\<lambda>n. (exec (node_of ?s n), arg (node_of ?s n))) ps = ws"
      unfolding ws by (auto simp: set_node_def unlink_def)
    ultimately show ?thesis
      using rq_submit_eq [OF assms(1), of fn a prepend] fs by (auto simp: enqueue_def set_node_def)
  qed
  show "rq_submit rq fn a prepend (st c) = (st c, Panics)" if "fs = []"
    using rq_submit_eq [OF assms(1), of fn a prepend] that by simp
  show "\<exists>rn d s. sched_fetch rq (st c) = (Running rn fn a d, s) \<and> pending_work rq s = Some ws'"
    if w: "ws = (fn, a) # ws'" and t: "pc c = Top"
  proof -
    obtain n ps' where ps: "ps = n # ps'" using w ws by (cases ps) auto
    obtain s where s: "sched_fetch rq (st c) = (Running n fn a (n \<in> P), s)"
      "node_of s = (node_of (st c))(n := (node_of (st c) n)\<lparr>refp := NULL\<rparr>)"
      using sched_fetch_cons [OF assms(1) [unfolded ps]] w ws ps by auto
    have "pending_work rq s = Some (map (\<lambda>n. (exec (node_of s n), arg (node_of s n))) ps')"
      using pending_work_inv [OF fetch_inv [OF assms(1,2) t s(1)]] ps by simp
    moreover have "n \<notin> set ps'" using D(7) ps by auto
    then have "map (\<lambda>n. (exec (node_of s n), arg (node_of s n))) ps' = ws'"
      using w ws ps by (auto simp: s(2))
    ultimately show ?thesis using s(1) by auto
  qed
  show "sched_fetch rq (st c) = (Waiting, st c)" if "ws = []"
    using sched_fetch_empty [of rq P U c fs vs] assms(1) ws that by simp
qed

text \<open>
  C21. Functions start in the order of the pending list: a submission with a free node returns 0 and
  puts its work at the end, or in front when it is urgent; without a free node it panics; the
  scheduler takes the first work, and blocks when there is none.
\<close>

theorem rq_order:
  assumes "rq_inv rq P U c fs ps vs" "layout rq P U" "pending_work rq (st c) = Some ws"
  shows "(fs \<noteq> [] \<longrightarrow> (\<exists>s. rq_submit rq fn a prepend (st c) = (s, Returns 0) \<and>
           pending_work rq s = Some (if prepend then (fn, a) # ws else ws @ [(fn, a)]))) \<and>
    (fs = [] \<longrightarrow> rq_submit rq fn a prepend (st c) = (st c, Panics)) \<and>
    (ws = (fn, a) # ws' \<longrightarrow> pc c = Top \<longrightarrow>
           (\<exists>rn d s. sched_fetch rq (st c) = (Running rn fn a d, s) \<and> pending_work rq s = Some ws')) \<and>
    (ws = [] \<longrightarrow> sched_fetch rq (st c) = (Waiting, st c))"
  using rq_order_parts [OF assms] by blast

theorem rq_order_witness:
  "\<exists>s. rq_submit 100 (Exec 7) 9 False (st example_rq) = (s, Returns 0) \<and>
     pending_work 100 s = Some [(Exec 7, 9)]"
proof -
  have "pending_work 100 (st example_rq) = Some []" using pending_work_inv [OF example_inv] by simp
  from rq_order [OF example_inv example_layout this, of "Exec 7" 9 False] show ?thesis by simp
qed

text \<open>
  C22. Work that is pending is started within two steps of the scheduler thread, whatever state it is
  in, unless a visitor still has to signal.
\<close>

theorem rq_work_starts:
  assumes "rq_inv rq P U c fs (n # ps) vs" "layout rq P U" "vis c \<noteq> VWake"
  shows "\<exists>k\<in>{1, 2}. pc ((sched_next rq ^^ k) c) =
           Running n (exec (node_of (st c) n)) (arg (node_of (st c) n)) (n \<in> P)"
proof (cases "pc c")
  case Top
  then show ?thesis using sched_next_fetch [OF assms(1)] by simp
next
  case Waiting
  let ?c = "c\<lparr>st := (st c)\<lparr>completion := False\<rparr>, pc := Top\<rparr>"
  have "completion (st c)" using rq_invD(6) [OF assms(1)] Waiting assms(3) by (auto simp: inv_wake_def)
  then have "sched_next rq c = ?c" using Waiting by (simp add: sched_next_def)
  moreover have "rq_inv rq P U ?c fs (n # ps) vs"
    using assms(1) Waiting unfolding rq_inv_def by (simp add: inv_wake_def inv_nodes_def)
  ultimately have "pc ((sched_next rq ^^ 2) c) = Running n (exec (node_of (st c) n)) (arg (node_of (st c) n)) (n \<in> P)"
    using sched_next_fetch [of rq P U ?c fs n ps vs] by (simp add: numeral_2_eq_2)
  then show ?thesis by blast
next
  case (Running rn fn a d)
  let ?c = "c\<lparr>st := sched_done rq rn fn a d (st c), pc := Top\<rparr>"
  obtain fs' where "rq_inv rq P U ?c fs' (n # ps) vs" using done_inv [OF assms(1,2) Running] by blast
  moreover have "sched_next rq c = ?c" using Running by (simp add: sched_next_def)
  ultimately have "pc ((sched_next rq ^^ 2) c) = Running n (exec (node_of (st c) n)) (arg (node_of (st c) n)) (n \<in> P)"
    using sched_next_fetch [of rq P U ?c fs' n ps vs] by (simp add: numeral_2_eq_2 sched_done_fields)
  then show ?thesis by blast
qed

definition example_rq1 :: config where
  "example_rq1 = example_rq\<lparr>st := rq_add_node_locked 100 200 False
     (set_node 200 \<lparr>exec = Exec 7, arg = 9, refp = 0, dofree = True\<rparr> (unlink 200 (st example_rq)))\<rparr>"

lemma example_rq1_inv: "rq_inv 100 {200, 224} {300} example_rq1 [224] [200] []"
  using submit_inv [OF example_inv example_layout, of "\<lparr>exec = Exec 7, arg = 9, refp = 0, dofree = True\<rparr>"
      "set_node 200 \<lparr>exec = Exec 7, arg = 9, refp = 0, dofree = True\<rparr> (unlink 200 (st example_rq))" False]
  by (simp add: example_rq1_def set_node_def unlink_def enqueue_def)

theorem rq_work_starts_witness:
  "\<exists>k\<in>{1, 2}. pc ((sched_next 100 ^^ k) example_rq1) = Running 200 (Exec 7) 9 True"
proof -
  have "vis example_rq1 \<noteq> VWake" "node_of (st example_rq1) 200 = \<lparr>exec = Exec 7, arg = 9, refp = 0, dofree = True\<rparr>"
    by (simp_all add: example_rq1_def example_rq_def set_node_def)
  then show ?thesis using rq_work_starts [OF example_rq1_inv example_layout] by simp
qed

text \<open>
  With nothing else running, the visitor calls the iterator on the pending nodes in order and
  leaves both lists as they were; it signals the scheduler when it had taken anything.
\<close>

theorem rq_visitor_restores:
  assumes "rq_inv rq P U c fs ps vs" "layout rq P U" "vis c = VOff"
    and "vh \<notin> {NULL, frees rq, pending rq} \<union> P \<union> U"
  shows "\<exists>s. rq_visitor rq vh iterator w (st c) =
      Some (s, fold (\<lambda>n. iterator (node_of (st c) n)) ps w) \<and>
    lists_at (heap s) [frees rq \<mapsto> fs, pending rq \<mapsto> ps] \<and> node_of s = node_of (st c) \<and>
    (completion s \<longleftrightarrow> completion (st c) \<or> ps \<noteq> [])"
proof -
  note D = rq_invD [OF assms(1)]
  let ?F = "[frees rq \<mapsto> fs, pending rq \<mapsto> ps]" and ?h = "init_list vh (heap (st c))"
  have vs: "vs = []" and F: "qmap rq fs ps (vis c) vs = ?F"
    using D(2) assms(3) by (simp_all add: inv_visit_def qmap_def)
  have hf: "fresh ?F vh" "?F vh = None"
    using assms(4) D(3) vs by (auto simp: fresh_def inv_pool_def split: if_splits)
  have new: "lists_at ?h (?F(vh \<mapsto> []))" by (rule lists_at_new [OF D(1) [unfolded F] hf])
  have e: "rte_list_empty (pending rq) ?h \<longleftrightarrow> ps = []"
    using lists.first_empty [OF new, of "pending rq" ps] assms(4) by (auto simp: rte_list_empty_def)
  show ?thesis
  proof (cases "ps = []")
    case True
    have "lists_at ?h ((?F(vh \<mapsto> []))(vh := None))" by (rule lists_at_forget [OF new])
    then have "lists_at ?h ?F" using hf(2) by (simp add: fun_upd_idem)
    then show ?thesis using True e by (simp add: rq_visitor_def visit_take_def Let_def)
  next
    case False
    let ?t = "rte_list_splice_tail_init (pending rq) vh ?h"
    have "lists_at ?t (?F(vh \<mapsto> [], vh \<mapsto> [] @ ps, pending rq \<mapsto> []))"
      using lists_at_splice(1) [OF new, of vh "[]" "pending rq" ps] assms(4) by simp
    moreover have "?F(vh \<mapsto> [], vh \<mapsto> [] @ ps, pending rq \<mapsto> []) = [frees rq \<mapsto> fs, pending rq \<mapsto> [], vh \<mapsto> ps]"
      using assms(4) by (auto simp: fun_eq_iff)
    ultimately have t: "lists_at ?t [frees rq \<mapsto> fs, pending rq \<mapsto> [], vh \<mapsto> ps]" by simp
    have p: "rte_list_empty (pending rq) ?t"
      using lists.first_empty [OF t, of "pending rq" "[]"] assms(4) by (auto simp: rte_list_empty_def)
    have w: "rte_list_foreach vh ?t = Some ps"
      using lists_at_ring [OF t, of vh ps] rte_list_foreach_ring(1) by simp
    have "lists_at (rte_list_splice vh (pending rq) ?t)
        ([frees rq \<mapsto> fs, pending rq \<mapsto> [], vh \<mapsto> ps](pending rq \<mapsto> ps @ [], vh := None))"
      by (rule lists_at_splice(2) [OF t]) (use assms(4) in auto)
    moreover have "[frees rq \<mapsto> fs, pending rq \<mapsto> [], vh \<mapsto> ps](pending rq \<mapsto> ps @ [], vh := None) = ?F"
      using assms(4) by (auto simp: fun_eq_iff)
    ultimately have "lists_at (rte_list_splice vh (pending rq) ?t) ?F" by simp
    then show ?thesis using False e p w
      by (simp add: rq_visitor_def visit_take_def visit_put_def os_completed_def Let_def)
  qed
qed

theorem rq_visitor_restores_witness:
  "\<exists>s. rq_visitor 100 900 (\<lambda>_ n. n + 1) (0::nat) (st example_rq1) = Some (s, 1)"
  using rq_visitor_restores [OF example_rq1_inv example_layout, of 900 "\<lambda>_ n. n + 1" "0::nat"]
  by (auto simp: example_rq1_def example_rq_def)

end
