(* ===== verification/Fsm.thy ===== *)
theory Fsm
  imports Prelude
begin

text \<open>
  The hierarchical state machine of \<open>fsm.c\<close> and \<open>fsm.h\<close> (with \<open>CONFIG_HFSM_SUPPORT\<close>): a table of
  states with optional entry, run and exit actions and an optional parent. The actions are
  arbitrary functions on the context and the rest of the world; they may set the terminate and
  handled flags and switch states themselves. The loops over the parents follow the table, so they
  return only where the chain of parents ends.
\<close>

section \<open>Definitions\<close>

record fsm_context =
  current :: nat
  previous :: "nat option"
  result :: int
  new_state :: bool
  handled :: bool
  terminate :: bool
  exit_flag :: bool

type_synonym 'w cfg = "fsm_context \<times> 'w"
type_synonym 'w action = "'w cfg \<Rightarrow> 'w cfg"

record 'w fsm_state =
  run_fn :: "'w action option"
  entry_fn :: "'w action option"
  exit_fn :: "'w action option"
  parent :: "nat option"

type_synonym 'w table = "nat \<Rightarrow> 'w fsm_state"

definition fsm_set_handled :: "'w action" where
  "fsm_set_handled c = ((fst c)\<lparr>handled := True\<rparr>, snd c)"

definition fsm_set_terminate :: "int \<Rightarrow> 'w action" where
  "fsm_set_terminate val c = ((fst c)\<lparr>terminate := True, result := val\<rparr>, snd c)"

partial_function (option) shared_parent :: "'w table \<Rightarrow> nat option \<Rightarrow> nat \<Rightarrow> bool option" where
  "shared_parent tbl state target =
     (case state of None \<Rightarrow> Some False
      | Some s \<Rightarrow> if target = s then Some True else shared_parent tbl (parent (tbl s)) target)"

definition last_state_shared_parent :: "'w table \<Rightarrow> 'w cfg \<Rightarrow> nat \<Rightarrow> bool option" where
  "last_state_shared_parent tbl c state =
     (case previous (fst c) of None \<Rightarrow> Some False
      | Some p \<Rightarrow> shared_parent tbl (parent (tbl p)) state)"

partial_function (option) get_child_of :: "'w table \<Rightarrow> nat \<Rightarrow> nat option \<Rightarrow> nat option" where
  "get_child_of tbl tmp par =
     (if parent (tbl tmp) = par then Some tmp
      else case parent (tbl tmp) of None \<Rightarrow> Some tmp | Some p \<Rightarrow> get_child_of tbl p par)"

text \<open>The loops return True when an action has set the terminate flag.\<close>

partial_function (option) entry_loop :: "'w table \<Rightarrow> nat \<Rightarrow> nat \<Rightarrow> 'w cfg \<Rightarrow> (bool \<times> 'w cfg) option" where
  "entry_loop tbl target x c =
     (if x = target then Some (False, c)
      else Option.bind (last_state_shared_parent tbl c x) (\<lambda>shared.
        let (stop, c) = (case entry_fn (tbl x) of
                Some f \<Rightarrow> if \<not> shared then let c = f c in (terminate (fst c), c) else (False, c)
              | None \<Rightarrow> (False, c))
        in if stop then Some (True, c)
           else Option.bind (get_child_of tbl target (Some x)) (\<lambda>y. entry_loop tbl target y c)))"

definition fsm_ancestor_entry :: "'w table \<Rightarrow> nat \<Rightarrow> 'w cfg \<Rightarrow> (bool \<times> 'w cfg) option" where
  "fsm_ancestor_entry tbl target c =
     Option.bind (get_child_of tbl target None) (\<lambda>x. entry_loop tbl target x c)"

partial_function (option) run_loop :: "'w table \<Rightarrow> nat option \<Rightarrow> 'w cfg \<Rightarrow> (bool \<times> 'w cfg) option" where
  "run_loop tbl tmp c =
     (case tmp of None \<Rightarrow> Some (False, c)
      | Some s \<Rightarrow>
          (case run_fn (tbl s) of None \<Rightarrow> run_loop tbl (parent (tbl s)) c
           | Some f \<Rightarrow>
               let c = f c
               in if terminate (fst c) then Some (True, c)
                  else if new_state (fst c) then Some (False, c)
                  else if handled (fst c) then Some (False, ((fst c)\<lparr>handled := False\<rparr>, snd c))
                  else run_loop tbl (parent (tbl s)) c))"

definition fsm_ancestor_run :: "'w table \<Rightarrow> 'w cfg \<Rightarrow> (bool \<times> 'w cfg) option" where
  "fsm_ancestor_run tbl c =
     (if new_state (fst c) then Some (False, ((fst c)\<lparr>new_state := False\<rparr>, snd c))
      else if terminate (fst c) then Some (True, c)
      else if handled (fst c) then Some (False, ((fst c)\<lparr>handled := False\<rparr>, snd c))
      else Option.bind (run_loop tbl (parent (tbl (current (fst c)))) c) (\<lambda>(stop, c).
        if stop then Some (True, c) else Some (False, ((fst c)\<lparr>new_state := False\<rparr>, snd c))))"

partial_function (option) exit_loop ::
  "'w table \<Rightarrow> nat option \<Rightarrow> nat option \<Rightarrow> 'w cfg \<Rightarrow> (bool \<times> 'w cfg) option" where
  "exit_loop tbl target tmp c =
     (case tmp of None \<Rightarrow> Some (False, c)
      | Some s \<Rightarrow>
          Option.bind (case target of None \<Rightarrow> Some False | Some t \<Rightarrow> shared_parent tbl (parent (tbl t)) s)
            (\<lambda>shared.
              let (stop, c) = (case exit_fn (tbl s) of
                      Some f \<Rightarrow> if \<not> shared then let c = f c in (terminate (fst c), c) else (False, c)
                    | None \<Rightarrow> (False, c))
              in if stop then Some (True, c) else exit_loop tbl target (parent (tbl s)) c))"

definition fsm_ancestor_exit :: "'w table \<Rightarrow> nat option \<Rightarrow> 'w cfg \<Rightarrow> (bool \<times> 'w cfg) option" where
  "fsm_ancestor_exit tbl target c = exit_loop tbl target (parent (tbl (current (fst c)))) c"

definition fsm_init :: "'w table \<Rightarrow> nat \<Rightarrow> 'w cfg \<Rightarrow> 'w cfg option" where
  "fsm_init tbl state c =
     (let c = ((fst c)\<lparr>exit_flag := False, terminate := False, current := state, previous := None,
                 result := 0, new_state := False\<rparr>, snd c)
      in Option.bind (fsm_ancestor_entry tbl state c) (\<lambda>(stop, c).
           if stop then Some c
           else Some (case entry_fn (tbl state) of Some f \<Rightarrow> f c | None \<Rightarrow> c)))"

definition fsm_switch :: "'w table \<Rightarrow> nat \<Rightarrow> 'w cfg \<Rightarrow> 'w cfg option" where
  "fsm_switch tbl target c =
     (if exit_flag (fst c) then Some c
      else
        let c = ((fst c)\<lparr>exit_flag := True\<rparr>, snd c);
            curr = current (fst c);
            (stop, c) = (case exit_fn (tbl curr) of
                Some f \<Rightarrow> let c = f c in (terminate (fst c), c) | None \<Rightarrow> (False, c))
        in if stop then Some c
           else
             let c = ((fst c)\<lparr>new_state := True\<rparr>, snd c)
             in Option.bind (fsm_ancestor_exit tbl (Some target) c) (\<lambda>(stop, c).
                  if stop then Some c
                  else
                    let c = ((fst c)\<lparr>exit_flag := False, previous := Some curr, current := target\<rparr>, snd c)
                    in Option.bind (fsm_ancestor_entry tbl target c) (\<lambda>(stop, c).
                         if stop then Some c
                         else Some (case entry_fn (tbl curr) of Some f \<Rightarrow> f c | None \<Rightarrow> c))))"

definition fsm_execute :: "'w table \<Rightarrow> 'w cfg \<Rightarrow> (int \<times> 'w cfg) option" where
  "fsm_execute tbl c =
     (if terminate (fst c) then Some (result (fst c), c)
      else
        let c = (case run_fn (tbl (current (fst c))) of Some f \<Rightarrow> f c | None \<Rightarrow> c)
        in Option.bind (fsm_ancestor_run tbl c) (\<lambda>(stop, c).
             if stop then Some (result (fst c), c) else Some (0, c)))"

text \<open>The chain of a state and its parents, and what actions do to the world alone.\<close>

fun chain_of :: "'w table \<Rightarrow> nat option \<Rightarrow> nat list \<Rightarrow> bool" where
  "chain_of tbl None xs = (xs = [])"
| "chain_of tbl (Some x) [] = False"
| "chain_of tbl (Some x) (y # ys) = (x = y \<and> chain_of tbl (parent (tbl x)) ys)"

definition perform :: "'w action option list \<Rightarrow> fsm_context \<Rightarrow> 'w \<Rightarrow> 'w" where
  "perform as c w = fold (\<lambda>a w. case a of None \<Rightarrow> w | Some f \<Rightarrow> snd (f (c, w))) as w"

text \<open>Actions that leave the context alone.\<close>

definition quiet :: "'w action option \<Rightarrow> bool" where
  "quiet a \<longleftrightarrow> (\<forall>f c w. a = Some f \<longrightarrow> fst (f (c, w)) = c)"

section \<open>Lemmas: the chain of parents\<close>

lemma chain_of_fun: "chain_of tbl s xs \<Longrightarrow> chain_of tbl s ys \<Longrightarrow> xs = ys"
proof (induction xs arbitrary: s ys)
  case Nil then show ?case by (cases s; cases ys) auto
next
  case (Cons x xs)
  then obtain z where s: "s = Some z" by (cases s) auto
  with Cons.prems show ?case using Cons.IH by (cases ys) auto
qed

lemma chain_of_append:
  "chain_of tbl s (xs @ y # ys) \<Longrightarrow> chain_of tbl (Some y) (y # ys)"
proof (induction xs arbitrary: s)
  case Nil then show ?case by (cases s) auto
next
  case (Cons x xs) then show ?case by (cases s) auto
qed

lemma chain_of_distinct: "chain_of tbl s xs \<Longrightarrow> distinct xs"
proof (rule ccontr)
  assume c: "chain_of tbl s xs" and "\<not> distinct xs"
  then obtain as bs cs y where xs: "xs = as @ [y] @ bs @ [y] @ cs" using not_distinct_decomp by blast
  have "chain_of tbl (Some y) (y # bs @ y # cs)" using chain_of_append [of tbl s as y] c xs by simp
  moreover have "chain_of tbl (Some y) (y # cs)" using chain_of_append [of tbl s "as @ y # bs" y cs] c xs by simp
  ultimately show False using chain_of_fun by fastforce
qed

lemma chain_of_parent:
  assumes "chain_of tbl s (xs @ y # ys)"
  shows "parent (tbl y) = (case ys of [] \<Rightarrow> None | z # _ \<Rightarrow> Some z)"
  using chain_of_append [OF assms] by (cases ys; cases "parent (tbl y)") auto

lemma shared_parent_chain: "chain_of tbl s xs \<Longrightarrow> shared_parent tbl s t = Some (t \<in> set xs)"
proof (induction xs arbitrary: s)
  case Nil then show ?case by (cases s) (simp_all add: shared_parent.simps)
next
  case (Cons x xs)
  then obtain z where s: "s = Some z" by (cases s) auto
  with Cons show ?case by (auto simp: shared_parent.simps [of tbl "Some x"])
qed

lemma get_child_of_root:
  "chain_of tbl (Some t) (t # xs) \<Longrightarrow> get_child_of tbl t None = Some (last (t # xs))"
proof (induction xs arbitrary: t)
  case Nil then show ?case by (cases "parent (tbl t)") (simp_all add: get_child_of.simps)
next
  case (Cons y ys)
  then have p: "parent (tbl t) = Some y" by (cases "parent (tbl t)") auto
  with Cons show ?case by (simp add: get_child_of.simps [of tbl t])
qed

lemma get_child_of_chain:
  assumes "chain_of tbl (Some t) (t # xs @ y # ys)"
  shows "get_child_of tbl t (Some y) = Some (last (t # xs))"
  using assms
proof (induction xs arbitrary: t)
  case Nil
  then have "parent (tbl t) = Some y" by (cases "parent (tbl t)") auto
  then show ?case by (simp add: get_child_of.simps)
next
  case (Cons x xs)
  then have p: "parent (tbl t) = Some x" by (cases "parent (tbl t)") auto
  have "x \<noteq> y" using chain_of_distinct [OF Cons.prems] by auto
  with p Cons show ?case by (simp add: get_child_of.simps [of tbl t])
qed

section \<open>Lemmas: the loops with actions that leave the context alone\<close>

lemma quiet_call: "quiet (Some f) \<Longrightarrow> f (c, w) = (c, snd (f (c, w)))"
  by (simp add: quiet_def prod_eq_iff)

lemma perform_simps [simp]:
  "perform [] c w = w" "perform (None # as) c w = perform as c w"
  "perform (Some f # as) c w = perform as c (snd (f (c, w)))"
  by (simp_all add: perform_def)

lemma perform_Cons: "perform (a # as) c w = perform as c (perform [a] c w)"
  by (cases a) simp_all

lemma last_state_shared_parent_chain:
  assumes "previous c = Some p" "chain_of tbl (Some p) (p # cs)"
  shows "last_state_shared_parent tbl (c, w) x = Some (x \<in> set cs)"
  using assms shared_parent_chain [of tbl "parent (tbl p)" cs] by (simp add: last_state_shared_parent_def)

lemma entry_loop_quiet:
  assumes "chain_of tbl (Some t) (t # xs @ zs)" "\<forall>x. quiet (entry_fn (tbl x))" "\<not> terminate c"
    "\<forall>w x. last_state_shared_parent tbl (c, w) x = Some (x \<in> S)"
  shows "entry_loop tbl t (last (t # xs)) (c, w) =
    Some (False, c, perform (map (\<lambda>x. entry_fn (tbl x)) (filter (\<lambda>x. x \<notin> S) (rev xs))) c w)"
  using assms(1)
proof (induction xs arbitrary: w zs rule: rev_induct)
  case Nil then show ?case by (simp add: entry_loop.simps)
next
  case (snoc y xs)
  have ch: "chain_of tbl (Some t) (t # xs @ y # zs)" using snoc.prems by simp
  have yt: "y \<noteq> t" using chain_of_distinct [OF ch] by auto
  note nx = get_child_of_chain [OF ch]
  note ih = snoc.IH [OF ch]
  show ?case
  proof (cases "entry_fn (tbl y)")
    case None
    then show ?thesis using yt nx ih assms(4) by (simp add: entry_loop.simps [of tbl t y])
  next
    case (Some f)
    then have "f (c, w) = (c, snd (f (c, w)))" using assms(2) quiet_call by metis
    then show ?thesis using Some yt nx ih assms(3,4)
      by (cases "f (c, w)") (auto simp: entry_loop.simps [of tbl t y])
  qed
qed

lemma exit_loop_quiet:
  assumes "chain_of tbl s xs" "\<forall>x. quiet (exit_fn (tbl x))" "\<not> terminate c"
    "chain_of tbl (Some t) (t # ts)"
  shows "exit_loop tbl (Some t) s (c, w) =
    Some (False, c, perform (map (\<lambda>x. exit_fn (tbl x)) (filter (\<lambda>x. x \<notin> set ts) xs)) c w)"
  using assms(1)
proof (induction xs arbitrary: s w)
  case Nil then show ?case by (cases s) (simp_all add: exit_loop.simps)
next
  case (Cons x xs)
  then have s: "s = Some x" "chain_of tbl (parent (tbl x)) xs" by (cases s; auto)+
  have sh: "shared_parent tbl (parent (tbl t)) x = Some (x \<in> set ts)"
    using shared_parent_chain [of tbl "parent (tbl t)" ts] assms(4) by simp
  show ?case
  proof (cases "exit_fn (tbl x)")
    case None
    then show ?thesis using s sh Cons.IH by (simp add: exit_loop.simps [of tbl _ "Some x"])
  next
    case (Some f)
    then have "f (c, w) = (c, snd (f (c, w)))" using assms(2) quiet_call by metis
    then show ?thesis using Some s sh Cons.IH assms(3)
      by (cases "f (c, w)") (auto simp: exit_loop.simps [of tbl _ "Some x"])
  qed
qed

section \<open>Lemmas: the loops return\<close>

declare not_None_eq [simp del]

definition ends :: "'w table \<Rightarrow> bool" where
  "ends tbl \<longleftrightarrow> (\<forall>x. \<exists>xs. chain_of tbl (Some x) (x # xs))"

lemma ends_chain: "ends tbl \<Longrightarrow> (\<And>xs. chain_of tbl (Some s) (s # xs) \<Longrightarrow> thesis) \<Longrightarrow> thesis"
  unfolding ends_def by blast

lemma shared_parent_returns: "ends tbl \<Longrightarrow> shared_parent tbl (parent (tbl s)) t \<noteq> None"
  by (erule ends_chain [of tbl s]) (simp add: shared_parent_chain)

lemma last_state_shared_parent_returns:
  assumes "ends tbl"
  shows "last_state_shared_parent tbl c x \<noteq> None"
  using shared_parent_returns [OF assms] by (simp add: last_state_shared_parent_def split: option.split)

lemma bind_returns: "x \<noteq> None \<Longrightarrow> (\<And>y. f y \<noteq> None) \<Longrightarrow> Option.bind x f \<noteq> None"
  by (cases x) auto

lemma entry_loop_returns:
  assumes "chain_of tbl (Some t) (t # xs @ zs)" "ends tbl"
  shows "entry_loop tbl t (last (t # xs)) c \<noteq> None"
  using assms(1)
proof (induction xs arbitrary: c zs rule: rev_induct)
  case Nil then show ?case by (simp add: entry_loop.simps)
next
  case (snoc y xs)
  have ch: "chain_of tbl (Some t) (t # xs @ y # zs)" using snoc.prems by simp
  obtain sh where sh: "last_state_shared_parent tbl c y = Some sh"
    using last_state_shared_parent_returns [OF assms(2)] by blast
  have "entry_loop tbl t y c \<noteq> None"
    unfolding entry_loop.simps [of tbl t y] sh
    using get_child_of_chain [OF ch] snoc.IH [OF ch] by (simp split: prod.split)
  then show ?case by simp
qed

lemma run_loop_returns: "chain_of tbl s xs \<Longrightarrow> run_loop tbl s c \<noteq> None"
proof (induction xs arbitrary: s c)
  case Nil then show ?case by (cases s) (simp_all add: run_loop.simps)
next
  case (Cons x xs)
  then have s: "s = Some x" "chain_of tbl (parent (tbl x)) xs" by (cases s; auto)+
  show ?case unfolding s(1) run_loop.simps [of tbl "Some x"]
    using Cons.IH [OF s(2)] by (simp add: Let_def split: option.split)
qed

lemma exit_loop_returns:
  assumes "chain_of tbl s xs" "ends tbl"
  shows "exit_loop tbl t s c \<noteq> None"
  using assms(1)
proof (induction xs arbitrary: s c)
  case Nil then show ?case by (cases s) (simp_all add: exit_loop.simps)
next
  case (Cons x xs)
  then have s: "s = Some x" "chain_of tbl (parent (tbl x)) xs" by (cases s; auto)+
  have sh: "(case t of None \<Rightarrow> Some False | Some t \<Rightarrow> shared_parent tbl (parent (tbl t)) x) \<noteq> None"
    using shared_parent_returns [OF assms(2)] by (simp split: option.split)
  show ?case unfolding s(1) exit_loop.simps [of tbl _ "Some x"] option.case
    by (rule bind_returns [OF sh]) (use Cons.IH [OF s(2)] in \<open>simp split: prod.split\<close>)
qed

lemma fsm_ancestor_entry_returns:
  assumes "ends tbl"
  shows "fsm_ancestor_entry tbl t c \<noteq> None"
proof (rule ends_chain [OF assms, of t])
  fix xs assume ch: "chain_of tbl (Some t) (t # xs)"
  show ?thesis using get_child_of_root [OF ch] entry_loop_returns [of tbl t xs "[]" c] ch assms
    by (simp add: fsm_ancestor_entry_def)
qed

lemma fsm_ancestor_exit_returns:
  assumes "ends tbl"
  shows "fsm_ancestor_exit tbl t c \<noteq> None"
  by (rule ends_chain [OF assms, of "current (fst c)"])
    (use exit_loop_returns [OF _ assms] in \<open>simp add: fsm_ancestor_exit_def\<close>)

lemma fsm_ancestor_run_returns:
  assumes "ends tbl"
  shows "fsm_ancestor_run tbl c \<noteq> None"
proof -
  have "run_loop tbl (parent (tbl (current (fst c)))) c \<noteq> None"
    by (rule ends_chain [OF assms, of "current (fst c)"]) (use run_loop_returns in simp)
  then show ?thesis
    unfolding fsm_ancestor_run_def by (auto intro!: bind_returns split: prod.split simp del: bind_eq_None_conv)
qed

section \<open>Properties\<close>

lemma fsm_returns_parts:
  assumes "ends tbl"
  shows "fsm_init tbl s c \<noteq> None" "fsm_switch tbl s c \<noteq> None" "fsm_execute tbl c \<noteq> None"
proof -
  note R = fsm_ancestor_entry_returns [OF assms] fsm_ancestor_exit_returns [OF assms]
    fsm_ancestor_run_returns [OF assms]
  show "fsm_init tbl s c \<noteq> None"
    unfolding fsm_init_def Let_def by (rule bind_returns [OF R(1)]) (simp split: prod.split)
  show "fsm_execute tbl c \<noteq> None"
  proof (cases "terminate (fst c)")
    case False
    then show ?thesis unfolding fsm_execute_def Let_def if_not_P [OF False]
      by (intro bind_returns [OF R(3)]) (simp split: prod.split)
  qed (simp add: fsm_execute_def)
  have sw: "Option.bind (fsm_ancestor_exit tbl t d) (\<lambda>(stop, c). if stop then Some c else
      Option.bind (fsm_ancestor_entry tbl u (g c)) (\<lambda>(stop, c). if stop then Some c else Some (k c))) \<noteq> None"
    for t u d g k
  proof (rule bind_returns [OF R(2)])
    fix y
    have e: "Option.bind (fsm_ancestor_entry tbl u (g c)) (\<lambda>(stop, c). if stop then Some c else Some (k c)) \<noteq> None"
      for c by (rule bind_returns [OF R(1)]) (simp split: prod.split)
    show "(case y of (stop, c) \<Rightarrow> if stop then Some c else
        Option.bind (fsm_ancestor_entry tbl u (g c)) (\<lambda>(stop, c). if stop then Some c else Some (k c))) \<noteq> None"
      by (cases y) (use e in \<open>auto simp del: bind_eq_None_conv\<close>)
  qed
  show "fsm_switch tbl s c \<noteq> None"
    unfolding fsm_switch_def Let_def by (simp split: prod.split del: bind_eq_None_conv) (intro impI allI sw)
qed

text \<open>
  When the chain of parents of every state ends, \<open>fsm_init\<close>, \<open>fsm_switch\<close> and \<open>fsm_execute\<close>
  return, whatever the actions do to the context.
\<close>

theorem fsm_returns:
  assumes "ends tbl"
  shows "(fsm_init tbl s c \<noteq> None) \<and>
    (fsm_switch tbl s c \<noteq> None) \<and>
    (fsm_execute tbl c \<noteq> None)"
  using fsm_returns_parts [OF assms] by blast

declare not_None_eq [simp]

text \<open>Three states: 1 and 2 are children of 0; every action notes its name.\<close>

definition log_name :: "string \<Rightarrow> string list action option" where
  "log_name name = Some (\<lambda>(c, w). (c, w @ [name]))"

definition example_table :: "string list table" where
  "example_table s = \<lparr>run_fn = log_name ''run'',
     entry_fn = log_name (if s = 0 then ''entry0'' else if s = 1 then ''entry1'' else ''entry2''),
     exit_fn = log_name (if s = 0 then ''exit0'' else if s = 1 then ''exit1'' else ''exit2''),
     parent = (if s = 1 \<or> s = 2 then Some 0 else None)\<rparr>"

definition example_ctx :: fsm_context where
  "example_ctx = \<lparr>current = 1, previous = None, result = 0, new_state = False, handled = False,
     terminate = False, exit_flag = False\<rparr>"

lemma example_ends: "ends example_table"
  unfolding ends_def
proof
  fix x
  show "\<exists>xs. chain_of example_table (Some x) (x # xs)"
    by (cases "x = 1 \<or> x = 2") (auto intro: exI [of _ "[0]"] exI [of _ "[]"] simp: example_table_def)
qed

theorem fsm_returns_witness: "fsm_switch example_table 2 (example_ctx, []) \<noteq> None"
  using fsm_returns [OF example_ends] by blast




definition example_handler :: "string list table" where
  "example_handler s = (if s = 0 then (example_table 0)\<lparr>run_fn := Some (\<lambda>(c, w). (c\<lparr>handled := True\<rparr>, w @ [''root'']))\<rparr>
     else example_table s)"


end
