(* ===== verification/Disk.thy ===== *)
theory Disk
  imports Prelude
begin

text \<open>
  The disk layer of \<open>dev/disk.c\<close>: the list of registered disks and the checked accesses that
  forward to a driver, and the virtual flash driver of \<open>os/posix/os_vflash_impl.cc\<close>. The locale
  \<open>flash_disk\<close> is the contract of a driver that the block layer relies on; the virtual flash
  meets it. The accesses are those of a build with \<open>CONFIG_DISK_PARAM_CHECKER\<close>; sizes, offsets
  and block numbers are 32-bit values that wrap (\<open>w32\<close>).
\<close>

section \<open>Definitions\<close>

abbreviation w32 :: "nat \<Rightarrow> nat" where "w32 x \<equiv> x mod 4294967296"

text \<open>
  A disk with the operations of its driver on a device state: a read gives the bytes it puts into
  the buffer, a write and an erase the state afterwards.
\<close>

record 'd disk_device =
  dev :: nat
  dname :: string
  dlen :: nat
  blk_size :: nat
  drv_read :: "nat \<Rightarrow> nat \<Rightarrow> 'd \<Rightarrow> int \<times> u8 list"
  drv_write :: "u8 list \<Rightarrow> nat \<Rightarrow> 'd \<Rightarrow> int \<times> 'd"
  drv_erase :: "nat \<Rightarrow> nat \<Rightarrow> 'd \<Rightarrow> int \<times> 'd"
  drv_ioctl :: "nat \<Rightarrow> 'd \<Rightarrow> int \<times> 'd"

abbreviation (input) DISK_GETBLKSIZE :: nat where "DISK_GETBLKSIZE \<equiv> 16"
abbreviation (input) DISK_GETCAPACITY :: nat where "DISK_GETCAPACITY \<equiv> 17"
abbreviation (input) DISK_SYNC :: nat where "DISK_SYNC \<equiv> 18"

definition disk_device_write :: "'d disk_device \<Rightarrow> u8 list \<Rightarrow> nat \<Rightarrow> 'd \<Rightarrow> int \<times> 'd" where
  "disk_device_write dd buf offset d =
     (if length buf = 0 then (0, d)
      else if w32 (offset + length buf) > dlen dd then (- EINVAL, d)
      else drv_write dd buf offset d)"

definition disk_device_read :: "'d disk_device \<Rightarrow> nat \<Rightarrow> nat \<Rightarrow> 'd \<Rightarrow> int \<times> u8 list" where
  "disk_device_read dd sz offset d =
     (if sz = 0 then (0, [])
      else if w32 (offset + sz) > dlen dd then (- EINVAL, [])
      else drv_read dd sz offset d)"

definition disk_device_erase :: "'d disk_device \<Rightarrow> nat \<Rightarrow> nat \<Rightarrow> 'd \<Rightarrow> int \<times> 'd" where
  "disk_device_erase dd offset sz d =
     (let m = w32 (blk_size dd + 4294967295)
      in if offset AND m \<noteq> 0 then (- EINVAL, d)
         else if sz AND m \<noteq> 0 then (- EINVAL, d)
         else if sz = 0 then (0, d)
         else if w32 (offset + sz) > dlen dd then (- EINVAL, d)
         else drv_erase dd offset sz d)"

text \<open>The second component is the value stored through \<open>arg\<close>.\<close>

definition disk_device_ioctl :: "'d disk_device \<Rightarrow> nat \<Rightarrow> 'd \<Rightarrow> int \<times> nat option \<times> 'd" where
  "disk_device_ioctl dd cmd d =
     (if cmd = DISK_GETBLKSIZE then (0, Some (blk_size dd), d)
      else if cmd = DISK_GETCAPACITY then (0, Some (dlen dd), d)
      else let (r, d) = drv_ioctl dd cmd d in (r, None, d))"

text \<open>
  The list of registered disks, first one first: the handles of the disks, and what they are.
  The operations of a disk are functions here, so that none of them is missing.
\<close>

record 'd disks =
  disk_head :: "nat list"
  disk_tab :: "nat \<Rightarrow> 'd disk_device"

definition disk_device_next :: "nat \<Rightarrow> 'd disks \<Rightarrow> nat" where
  "disk_device_next dd s =
     (let l = (if dd \<noteq> 0 then drop 1 (dropWhile (\<lambda>x. x \<noteq> dd) (disk_head s)) else disk_head s)
      in case l of [] \<Rightarrow> 0 | x # _ \<Rightarrow> x)"

definition disk_device_find :: "string \<Rightarrow> 'd disks \<Rightarrow> nat" where
  "disk_device_find name s =
     (case find (\<lambda>x. dname (disk_tab s x) = name) (disk_head s) of Some x \<Rightarrow> x | None \<Rightarrow> 0)"

definition disk_device_open :: "string \<Rightarrow> 'd disks \<Rightarrow> int \<times> nat" where
  "disk_device_open name s =
     (let dd = disk_device_find name s in if dd = 0 then (- ENODEV, dd) else (0, dd))"

definition disk_device_register :: "nat \<Rightarrow> 'd disks \<Rightarrow> int \<times> 'd disks" where
  "disk_device_register dd s =
     (if dd = 0 then (- EINVAL, s)
      else if dev (disk_tab s dd) = 0 \<or> dlen (disk_tab s dd) = 0 then (- EINVAL, s)
      else if blk_size (disk_tab s dd) AND w32 (blk_size (disk_tab s dd) + 4294967295) \<noteq> 0
      then (- EINVAL, s)
      else if dd \<in> set (disk_head s) then (- EEXIST, s)
      else (0, s\<lparr>disk_head := dd # disk_head s\<rparr>))"

text \<open>The virtual flash: a byte memory of 5 MB with pages of 256 bytes.\<close>

abbreviation (input) FLASH_PGSZ :: nat where "FLASH_PGSZ \<equiv> 256"
abbreviation (input) FLASH_CAPACITY :: nat where "FLASH_CAPACITY \<equiv> 5242880"

definition virtual_flash_read :: "nat \<Rightarrow> nat \<Rightarrow> mem \<Rightarrow> int \<times> u8 list" where
  "virtual_flash_read sz offset m =
     (if w32 (offset + sz) > FLASH_CAPACITY then (- EINVAL, [])
      else (int sz, mem_read m offset sz))"

definition virtual_flash_write :: "u8 list \<Rightarrow> nat \<Rightarrow> mem \<Rightarrow> int \<times> mem" where
  "virtual_flash_write buf offset m =
     (if w32 (offset + length buf) > FLASH_CAPACITY then (- EINVAL, m)
      else (int (length buf), mem_write m offset buf))"

definition virtual_flash_erase :: "nat \<Rightarrow> nat \<Rightarrow> mem \<Rightarrow> int \<times> mem" where
  "virtual_flash_erase offset sz m =
     (if w32 (offset + sz) > FLASH_CAPACITY then (- EINVAL, m)
      else if offset mod FLASH_PGSZ \<noteq> 0 then (- EINVAL, m)
      else if sz mod FLASH_PGSZ \<noteq> 0 then (- EINVAL, m)
      else (0, mem_write m offset (replicate sz 0xFF)))"

definition virtual_flash_ioctl :: "nat \<Rightarrow> mem \<Rightarrow> int \<times> mem" where
  "virtual_flash_ioctl cmd m = (- ENOSYS, m)"

definition vdisk :: "mem disk_device" where
  "vdisk = \<lparr>dev = 1, dname = ''virtual-flash'', dlen = FLASH_CAPACITY, blk_size = FLASH_PGSZ,
     drv_read = virtual_flash_read, drv_write = virtual_flash_write,
     drv_erase = virtual_flash_erase, drv_ioctl = virtual_flash_ioctl\<rparr>"

section \<open>Lemmas\<close>

lemma and_blk_mask:
  fixes x :: nat
  assumes "b = 2 ^ k" "b < 4294967296"
  shows "x AND w32 (b + 4294967295) = x mod b"
proof -
  have "w32 (b + 4294967295) = b - 1"
  proof (cases b)
    case (Suc c)
    then have "b + 4294967295 = c + 4294967296" by simp
    then show ?thesis using assms(2) Suc by simp
  qed (use assms(1) in simp)
  also have "\<dots> = mask k" using assms(1) by (simp add: mask_eq_exp_minus_1)
  finally show ?thesis using assms(1) by (simp add: take_bit_eq_mask [symmetric] take_bit_eq_mod)
qed

text \<open>
  The contract of a driver: \<open>contents\<close> is what the device holds. Inside the disk, reads return the
  contents, an erase sets whole blocks to 0xFF, and a write to an erased range stores the bytes.
\<close>

locale flash_disk =
  fixes dd :: "'d disk_device" and contents :: "'d \<Rightarrow> mem"
  assumes blk_pow: "\<exists>k. blk_size dd = 2 ^ k"
    and blk_len: "blk_size dd dvd dlen dd"
    and len_pos: "0 < dlen dd"
    and len_int: "dlen dd < 2147483648"
    and rd: "off + n \<le> dlen dd \<Longrightarrow> drv_read dd n off d = (int n, mem_read (contents d) off n)"
    and wr: "off + length bs \<le> dlen dd \<Longrightarrow> (\<forall>a. off \<le> a \<longrightarrow> a < off + length bs \<longrightarrow> contents d a = 0xFF) \<Longrightarrow>
      \<exists>d'. drv_write dd bs off d = (int (length bs), d') \<and> contents d' = mem_write (contents d) off bs"
    and er: "off + n \<le> dlen dd \<Longrightarrow> blk_size dd dvd off \<Longrightarrow> blk_size dd dvd n \<Longrightarrow>
      \<exists>d'. drv_erase dd off n d = (0, d') \<and> contents d' = mem_write (contents d) off (replicate n 0xFF)"
    and io: "contents (snd (drv_ioctl dd cmd d)) = contents d"
begin

lemma blk_bounds: "0 < blk_size dd" "blk_size dd \<le> dlen dd" "blk_size dd < 4294967296"
proof -
  show p: "0 < blk_size dd" using blk_pow by auto
  show l: "blk_size dd \<le> dlen dd" using blk_len len_pos by (rule dvd_imp_le)
  show "blk_size dd < 4294967296" using l len_int by simp
qed

lemma blk_and: "x AND w32 (blk_size dd + 4294967295) = x mod blk_size dd"
  using blk_pow and_blk_mask blk_bounds(3) by blast

lemma disk_read:
  assumes "off + n \<le> dlen dd"
  shows "disk_device_read dd n off d = (int n, mem_read (contents d) off n)"
proof -
  have "w32 (off + n) = off + n" using assms len_int by simp
  then show ?thesis using rd [OF assms] assms by (auto simp: disk_device_read_def)
qed

lemma disk_program:
  assumes "off + blk_size dd \<le> dlen dd" "blk_size dd dvd off" "length bs = blk_size dd"
  obtains d1 d2 where "disk_device_erase dd off (blk_size dd) d = (0, d1)"
    "disk_device_write dd bs off d1 = (int (blk_size dd), d2)"
    "contents d2 = mem_write (contents d) off bs"
proof -
  let ?b = "blk_size dd"
  have w: "w32 (off + ?b) = off + ?b" using assms(1) len_int by simp
  obtain d1 where d1: "drv_erase dd off ?b d = (0, d1)"
      "contents d1 = mem_write (contents d) off (replicate ?b 0xFF)"
    using er [OF assms(1,2), of d] by auto
  have e: "disk_device_erase dd off ?b d = (0, d1)"
    using d1(1) w assms(1,2) blk_bounds(1)
    by (simp add: disk_device_erase_def blk_and dvd_imp_mod_0)
  have "\<forall>a. off \<le> a \<longrightarrow> a < off + length bs \<longrightarrow> contents d1 a = 0xFF"
    using d1(2) assms(3) by (simp add: mem_write_def)
  then obtain d2 where d2: "drv_write dd bs off d1 = (int ?b, d2)" "contents d2 = mem_write (contents d1) off bs"
    using wr [of off bs d1] assms(1,3) by auto
  have "disk_device_write dd bs off d1 = (int ?b, d2)"
    using d2(1) w assms(1,3) blk_bounds(1) by (simp add: disk_device_write_def)
  moreover have "contents d2 = mem_write (contents d) off bs"
    unfolding d2(2) d1(2) by (rule ext) (simp add: mem_write_def assms(3))
  ultimately show ?thesis using that e by blast
qed

end

interpretation vflash: flash_disk vdisk "\<lambda>m. m"
proof unfold_locales
  show "\<exists>k. blk_size vdisk = 2 ^ k" by (rule exI [of _ 8]) (simp add: vdisk_def)
  show "blk_size vdisk dvd dlen vdisk" by (simp add: vdisk_def)
qed (auto simp: vdisk_def virtual_flash_read_def virtual_flash_write_def virtual_flash_erase_def
    virtual_flash_ioctl_def dvd_eq_mod_eq_0)

section \<open>Properties\<close>

lemma disk_register_find_parts:
  assumes "disk_device_register dd s = (r, s')"
  shows "r = 0 \<longleftrightarrow> dd \<noteq> 0 \<and> dev (disk_tab s dd) \<noteq> 0 \<and> dlen (disk_tab s dd) \<noteq> 0 \<and> dd \<notin> set (disk_head s) \<and>
      blk_size (disk_tab s dd) AND w32 (blk_size (disk_tab s dd) + 4294967295) = 0"
    and "r = 0 \<Longrightarrow> disk_device_open (dname (disk_tab s dd)) s' = (0, dd)"
    and "r = 0 \<Longrightarrow> name \<noteq> dname (disk_tab s dd) \<Longrightarrow> disk_device_open name s' = disk_device_open name s"
    and "r \<noteq> 0 \<Longrightarrow> s' = s"
  using assms
  by (auto simp: disk_device_register_def disk_device_open_def disk_device_find_def Let_def
      split: if_splits option.splits)

text \<open>
  The disk registry: a disk is accepted once, with a device, a size and a block size that is a
  power of two (or zero); it is then found under its name unless a disk registered later has
  the same name, and the other disks are still found.
\<close>

theorem disk_register_find:
  assumes "disk_device_register dd s = (r, s')"
  shows "(r = 0 \<longleftrightarrow> dd \<noteq> 0 \<and> dev (disk_tab s dd) \<noteq> 0 \<and> dlen (disk_tab s dd) \<noteq> 0 \<and> dd \<notin> set (disk_head s) \<and>
      blk_size (disk_tab s dd) AND w32 (blk_size (disk_tab s dd) + 4294967295) = 0) \<and>
    (r = 0 \<longrightarrow> disk_device_open (dname (disk_tab s dd)) s' = (0, dd)) \<and>
    (r = 0 \<longrightarrow> name \<noteq> dname (disk_tab s dd) \<longrightarrow> disk_device_open name s' = disk_device_open name s) \<and>
    (r \<noteq> 0 \<longrightarrow> s' = s)"
  using disk_register_find_parts [OF assms] by blast

definition example_disks :: "mem disks" where
  "example_disks = \<lparr>disk_head = [], disk_tab = (\<lambda>_. vdisk)\<rparr>"

theorem disk_register_find_witness:
  "\<exists>s. disk_device_register 1 example_disks = (0, s) \<and> disk_device_open ''virtual-flash'' s = (0, 1)"
proof -
  obtain r s where rs: "disk_device_register 1 example_disks = (r, s)" by fastforce
  have "blk_size vdisk AND w32 (blk_size vdisk + 4294967295) = 0"
    by (simp only: vflash.blk_and) simp
  then have "r = 0" using disk_register_find [OF rs] by (simp add: example_disks_def vdisk_def)
  moreover have "dname (disk_tab example_disks 1) = ''virtual-flash''" by (simp add: example_disks_def vdisk_def)
  ultimately show ?thesis using disk_register_find [OF rs] rs by simp
qed

end
