(* ===== verification/Blkdev.thy ===== *)
theory Blkdev
  imports Disk "HOL-Library.Multiset"
begin

text \<open>
  The block cache of \<open>dev/blkdev.c\<close>: four buffers of one block each between the byte interface
  (\<open>simple_blkdev_read\<close>, \<open>simple_blkdev_write\<close>) and the disk. Buffers are on the cached list or on
  the dirty list; a dirty one is erased and written back when it has been held long enough, on
  \<open>simple_blkdev_sync\<close>, or when its buffer is needed. The lists are HOL lists of buffers, first
  one first; the operations of \<open>container/list.h\<close> on them are those of \<open>Linked_List\<close>. The result
  None stands for the use of a list head as a buffer.
\<close>

section \<open>Definitions\<close>

abbreviation (input) BLKDEV_NR_BUFS :: nat where "BLKDEV_NR_BUFS \<equiv> 4"
abbreviation (input) BLKDEV_SWAP_PERIOD :: int where "BLKDEV_SWAP_PERIOD \<equiv> 2000"
abbreviation (input) BLKDEV_HOLD_TIME :: int where "BLKDEV_HOLD_TIME \<equiv> 10000"
abbreviation (input) NO_BLK :: nat where "NO_BLK \<equiv> 4294967295"

datatype bh_state = BH_STATE_INVALD | BH_STATE_DIRTY | BH_STATE_CACHED

record bh_desc =
  bh_buffer :: "u8 list"
  blkno :: nat
  bstate :: bh_state
  hold :: int

record block_device =
  cached_list :: "bh_desc list"
  dirty_list :: "bh_desc list"
  cache_hits :: int
  cache_missed :: int

definition bh_enqueue_dirty :: "block_device \<Rightarrow> bh_desc \<Rightarrow> block_device" where
  "bh_enqueue_dirty b bh = b\<lparr>dirty_list := dirty_list b @ [bh\<lparr>hold := BLKDEV_HOLD_TIME\<rparr>]\<rparr>"

definition bh_enqueue_cached :: "block_device \<Rightarrow> bh_desc \<Rightarrow> block_device" where
  "bh_enqueue_cached b bh = b\<lparr>cached_list := cached_list b @ [bh]\<rparr>"

text \<open>
  The loop over the dirty list. \<open>kept\<close> are the buffers already passed that stay on the list; the
  value of \<open>err\<close> is carried from one iteration to the next, as in the code.
\<close>

fun sync_loop ::
  "'d disk_device \<Rightarrow> int \<Rightarrow> int \<Rightarrow> bool \<Rightarrow> int \<Rightarrow> bh_desc list \<Rightarrow> bh_desc list \<Rightarrow> bh_desc list \<Rightarrow> 'd \<Rightarrow>
   int \<times> bh_desc list \<times> bh_desc list \<times> 'd" where
  "sync_loop dd expired max_blks invalid err kept [] cached d = (err, kept, cached, d)"
| "sync_loop dd expired max_blks invalid err kept (bh # todo) cached d =
     (if max_blks - 1 < 0 then (err, kept @ bh # todo, cached, d)
      else if hold bh > expired
      then sync_loop dd expired (max_blks - 1) invalid err
             (kept @ [bh\<lparr>hold := hold bh - expired\<rparr>]) todo cached d
      else
        let ofs = w32 (blk_size dd * blkno bh);
            (err, d) = disk_device_erase dd ofs (blk_size dd) d
        in if err \<noteq> 0 then (err, kept @ bh # todo, cached, d)
           else
             let (err, d) = disk_device_write dd (bh_buffer bh) ofs d
             in if err < 0 then (err, kept @ bh # todo, cached, d)
                else
                  let bh = bh\<lparr>bstate := if invalid then BH_STATE_INVALD else BH_STATE_CACHED\<rparr>
                  in sync_loop dd expired (max_blks - 1) invalid err kept todo (cached @ [bh]) d)"

definition blkdev_sync_locked ::
  "'d disk_device \<Rightarrow> int \<Rightarrow> int \<Rightarrow> bool \<Rightarrow> block_device \<times> 'd \<Rightarrow> int \<times> block_device \<times> 'd" where
  "blkdev_sync_locked dd expired max_blks invalid s =
     (let (b, d) = s;
          (err, dirty, cached, d) = sync_loop dd expired max_blks invalid 0 [] (dirty_list b) (cached_list b) d
      in (err, b\<lparr>cached_list := cached, dirty_list := dirty\<rparr>, d))"

text \<open>All block devices in the order they were created, each with its disk.\<close>

fun bdev_sync ::
  "int \<Rightarrow> int \<Rightarrow> bool \<Rightarrow> ('d disk_device \<times> block_device \<times> 'd) list \<Rightarrow>
   int \<times> ('d disk_device \<times> block_device \<times> 'd) list" where
  "bdev_sync expired max_blks invalid [] = (0, [])"
| "bdev_sync expired max_blks invalid ((dd, s) # rest) =
     (let (err, b, d) = blkdev_sync_locked dd expired max_blks invalid s;
          d = (if expired > BLKDEV_SWAP_PERIOD then snd (snd (disk_device_ioctl dd DISK_SYNC d)) else d);
          (errs, rest) = bdev_sync expired max_blks invalid rest
      in (err OR errs, (dd, b, d) # rest))"

definition bh_check_cb ::
  "('d disk_device \<times> block_device \<times> 'd) list \<Rightarrow> ('d disk_device \<times> block_device \<times> 'd) list" where
  "bh_check_cb bs = snd (bdev_sync BLKDEV_SWAP_PERIOD 3 False bs)"

definition simple_blkdev_sync ::
  "('d disk_device \<times> block_device \<times> 'd) list \<Rightarrow> int \<times> ('d disk_device \<times> block_device \<times> 'd) list" where
  "simple_blkdev_sync bs = bdev_sync BLKDEV_HOLD_TIME 2147483647 False bs"

definition simple_blkdev_sync_invalid ::
  "('d disk_device \<times> block_device \<times> 'd) list \<Rightarrow> int \<times> ('d disk_device \<times> block_device \<times> 'd) list" where
  "simple_blkdev_sync_invalid bs = bdev_sync BLKDEV_HOLD_TIME 2147483647 True bs"

definition bh_release_modified :: "block_device \<Rightarrow> bh_desc \<Rightarrow> block_device" where
  "bh_release_modified b bh = bh_enqueue_dirty b (bh\<lparr>bstate := BH_STATE_DIRTY\<rparr>)"

definition bh_release :: "block_device \<Rightarrow> bh_desc \<Rightarrow> block_device" where
  "bh_release b bh =
     (if bstate bh = BH_STATE_DIRTY then bh_enqueue_dirty b bh else bh_enqueue_cached b bh)"

text \<open>The first buffer of a list with the block number, and the list without it.\<close>

fun take_blk :: "nat \<Rightarrow> bh_desc list \<Rightarrow> (bh_desc \<times> bh_desc list) option" where
  "take_blk n [] = None"
| "take_blk n (bh # l) =
     (if blkno bh = n then Some (bh, l) else map_option (\<lambda>(x, l). (x, bh # l)) (take_blk n l))"

definition bh_search_locked ::
  "'d disk_device \<Rightarrow> nat \<Rightarrow> block_device \<times> 'd \<Rightarrow> (bh_desc \<times> block_device \<times> 'd) option" where
  "bh_search_locked dd n s =
     (let (b, d) = s
      in case take_blk n (cached_list b) of
        Some (bh, l) \<Rightarrow> Some (bh, b\<lparr>cached_list := l, cache_hits := cache_hits b + 1\<rparr>, d)
      | None \<Rightarrow>
          (case take_blk n (dirty_list b) of
             Some (bh, l) \<Rightarrow> Some (bh, b\<lparr>dirty_list := l, cache_hits := cache_hits b + 1\<rparr>, d)
           | None \<Rightarrow>
               let (b, d) = (if cached_list b = [] then snd (blkdev_sync_locked dd BLKDEV_HOLD_TIME 1 False (b, d))
                             else (b, d));
                   b = b\<lparr>cache_missed := cache_missed b + 1\<rparr>
               in case cached_list b of [] \<Rightarrow> None
                  | bh # l \<Rightarrow>
                      Some (bh\<lparr>blkno := n, bstate := BH_STATE_INVALD\<rparr>, b\<lparr>cached_list := l\<rparr>, d)))"

text \<open>The error code (0 on success), the buffer and the state.\<close>

definition bh_get_locked ::
  "'d disk_device \<Rightarrow> nat \<Rightarrow> block_device \<times> 'd \<Rightarrow> (int \<times> bh_desc \<times> block_device \<times> 'd) option" where
  "bh_get_locked dd n s = map_option (\<lambda>(bh, s). (0, bh, s)) (bh_search_locked dd n s)"

definition bh_read_locked ::
  "'d disk_device \<Rightarrow> nat \<Rightarrow> block_device \<times> 'd \<Rightarrow> (int \<times> bh_desc \<times> block_device \<times> 'd) option" where
  "bh_read_locked dd n s =
     (case bh_search_locked dd n s of None \<Rightarrow> None
      | Some (bh, b, d) \<Rightarrow>
          if bstate bh \<noteq> BH_STATE_INVALD then Some (0, bh, b, d)
          else
            let ofs = w32 (blk_size dd * blkno bh);
                (err, bytes) = disk_device_read dd (blk_size dd) ofs d;
                bh = bh\<lparr>bh_buffer := buf_write (bh_buffer bh) 0 bytes\<rparr>
            in if err < 0 then Some (err, bh, bh_release b bh, d)
               else Some (0, bh\<lparr>bstate := BH_STATE_CACHED\<rparr>, b, d))"

text \<open>
  The buffers come from \<open>general_malloc\<close>; \<open>mem\<close> is what their bytes and \<open>hold\<close> members hold before
  they are used. A disk has at most one block device.
\<close>

definition bdev_init :: "(u8 list \<times> int) list \<Rightarrow> block_device option \<Rightarrow> int \<times> block_device option" where
  "bdev_init mem bdev =
     (if mem = [] then (- EINVAL, bdev)
      else if bdev \<noteq> None then (- EEXIST, bdev)
      else (0, Some
        \<lparr>cached_list = rev (map (\<lambda>(buf, h).
           \<lparr>bh_buffer = buf, blkno = NO_BLK, bstate = BH_STATE_INVALD, hold = h\<rparr>) mem),
         dirty_list = [], cache_hits = 0, cache_missed = 0\<rparr>))"

text \<open>The loops; \<open>size\<close> is the value returned when nothing remains.\<close>

partial_function (option) write_loop ::
  "'d disk_device \<Rightarrow> int \<Rightarrow> nat \<Rightarrow> nat \<Rightarrow> u8 list \<Rightarrow> block_device \<times> 'd \<Rightarrow> (int \<times> block_device \<times> 'd) option" where
  "write_loop dd sz n blkofs src s =
     (if src = [] then Some (sz, s)
      else Option.bind (if blkofs = 0 \<and> length src \<ge> blk_size dd then bh_get_locked dd n s else bh_read_locked dd n s)
        (\<lambda>(err, bh, b, d).
          if err \<noteq> 0 then Some (err, b, d)
          else
            let bytes = min (blk_size dd - blkofs) (length src);
                bh = bh\<lparr>bh_buffer := buf_write (bh_buffer bh) blkofs (take bytes src)\<rparr>;
                b = bh_release_modified b bh
            in write_loop dd sz (w32 (n + 1)) 0 (drop bytes src) (b, d)))"

definition simple_blkdev_write ::
  "'d disk_device \<Rightarrow> u8 list \<Rightarrow> nat \<Rightarrow> block_device \<times> 'd \<Rightarrow> (int \<times> block_device \<times> 'd) option" where
  "simple_blkdev_write dd buf offset s =
     write_loop dd (int (length buf)) (offset div blk_size dd) (offset mod blk_size dd) buf s"

partial_function (option) read_loop ::
  "'d disk_device \<Rightarrow> int \<Rightarrow> nat \<Rightarrow> nat \<Rightarrow> nat \<Rightarrow> u8 list \<Rightarrow> block_device \<times> 'd \<Rightarrow>
   (int \<times> u8 list \<times> block_device \<times> 'd) option" where
  "read_loop dd sz n blkofs remain dst s =
     (if remain = 0 then Some (sz, dst, s)
      else Option.bind (bh_read_locked dd n s)
        (\<lambda>(err, bh, b, d).
          if err \<noteq> 0 then Some (err, dst, b, d)
          else
            let bytes = min (blk_size dd - blkofs) remain;
                dst = dst @ buf_read (bh_buffer bh) blkofs bytes;
                b = bh_release b bh
            in read_loop dd sz (w32 (n + 1)) 0 (remain - bytes) dst (b, d)))"

definition simple_blkdev_read ::
  "'d disk_device \<Rightarrow> nat \<Rightarrow> nat \<Rightarrow> block_device \<times> 'd \<Rightarrow> (int \<times> u8 list \<times> block_device \<times> 'd) option" where
  "simple_blkdev_read dd sz offset s =
     read_loop dd (int sz) (offset div blk_size dd) (offset mod blk_size dd) sz [] s"

text \<open>
  What the cache means: the buffers \<open>bhs\<close> over the disk contents \<open>m\<close> stand for the bytes \<open>v\<close>.
\<close>

definition valid_bh :: "bh_desc \<Rightarrow> bool" where
  "valid_bh bh \<longleftrightarrow> bstate bh \<noteq> BH_STATE_INVALD"

definition bh_ok :: "nat \<Rightarrow> nat \<Rightarrow> mem \<Rightarrow> mem \<Rightarrow> bh_desc \<Rightarrow> bool" where
  "bh_ok bs n m v bh \<longleftrightarrow> length (bh_buffer bh) = bs \<and>
     (valid_bh bh \<longrightarrow> blkno bh < n \<and> mem_read v (blkno bh * bs) bs = bh_buffer bh) \<and>
     (bstate bh = BH_STATE_CACHED \<longrightarrow> mem_read m (blkno bh * bs) bs = bh_buffer bh)"

definition bhs_rep :: "nat \<Rightarrow> nat \<Rightarrow> mem \<Rightarrow> mem \<Rightarrow> bh_desc multiset \<Rightarrow> bool" where
  "bhs_rep bs n m v B \<longleftrightarrow> (\<forall>bh\<in>#B. bh_ok bs n m v bh) \<and>
     (\<forall>k. k \<noteq> NO_BLK \<longrightarrow> count (image_mset blkno B) k \<le> 1) \<and>
     (\<forall>a. (\<forall>bh\<in>#B. valid_bh bh \<longrightarrow> blkno bh \<noteq> a div bs) \<longrightarrow> v a = m a)"

text \<open>The same with buffers \<open>H\<close> that an operation has taken from the lists.\<close>

definition all_bhs :: "bh_desc multiset \<Rightarrow> block_device \<Rightarrow> bh_desc multiset" where
  "all_bhs H b = H + mset (cached_list b) + mset (dirty_list b)"

definition blk_held ::
  "'d disk_device \<Rightarrow> ('d \<Rightarrow> mem) \<Rightarrow> bh_desc multiset \<Rightarrow> block_device \<times> 'd \<Rightarrow> mem \<Rightarrow> bool" where
  "blk_held dd contents H s v \<longleftrightarrow>
     bhs_rep (blk_size dd) (dlen dd div blk_size dd) (contents (snd s)) v (all_bhs H (fst s)) \<and>
     (\<forall>bh\<in>set (cached_list (fst s)). bstate bh \<noteq> BH_STATE_DIRTY) \<and>
     (\<forall>bh\<in>set (dirty_list (fst s)). bstate bh = BH_STATE_DIRTY \<and> hold bh \<le> BLKDEV_HOLD_TIME) \<and>
     0 < size (all_bhs H (fst s)) \<and> size (all_bhs H (fst s)) < 2147483648"

definition blk_rep :: "'d disk_device \<Rightarrow> ('d \<Rightarrow> mem) \<Rightarrow> block_device \<times> 'd \<Rightarrow> mem \<Rightarrow> bool" where
  "blk_rep dd contents s v \<longleftrightarrow> blk_held dd contents {#} s v"

section \<open>Lemmas: a buffer changes\<close>

lemma div_block: "0 < bs \<Longrightarrow> a div bs = k \<longleftrightarrow> k * bs \<le> a \<and> a < k * bs + bs" for a bs k :: nat
  by (metis add.commute div_nat_eqI div_mult_mod_eq mod_less_divisor mult.commute mult_Suc_right
      nat_add_left_cancel_less le_add1)

lemma mem_read_block:
  assumes "mem_read v (k * bs) bs = mem_read m (k * bs) bs" "a div bs = k" "0 < bs"
  shows "v a = m a"
proof -
  have a: "k * bs \<le> a" "a < k * bs + bs" using assms(2,3) div_block by auto
  then have "a = k * bs + (a - k * bs)" "a - k * bs < bs" by auto
  then show ?thesis using assms(1) unfolding mem_read_eq_iff by metis
qed

lemma bhs_rep_other:
  assumes "bhs_rep bs n m v (add_mset bh R)" "x \<in># R" "blkno bh \<noteq> NO_BLK"
  shows "blkno x \<noteq> blkno bh"
proof
  assume e: "blkno x = blkno bh"
  have "count (image_mset blkno (add_mset bh R)) (blkno bh) \<le> 1"
    using assms(1,3) unfolding bhs_rep_def by blast
  moreover have "blkno bh \<in># image_mset blkno R" using assms(2) e by (metis image_eqI set_image_mset)
  then have "0 < count (image_mset blkno R) (blkno bh)" by (simp only: count_greater_zero_iff)
  ultimately show False by simp
qed

lemma bhs_rep_blk:
  assumes "bhs_rep bs n m v (add_mset bh R)" "bstate bh = BH_STATE_INVALD" "blkno bh \<noteq> NO_BLK"
    "a div bs = blkno bh"
  shows "v a = m a"
proof -
  have "\<forall>x\<in>#add_mset bh R. valid_bh x \<longrightarrow> blkno x \<noteq> a div bs"
    using bhs_rep_other [OF assms(1) _ assms(3)] assms(2,4) by (auto simp: valid_bh_def)
  then show ?thesis using assms(1) unfolding bhs_rep_def by blast
qed

lemma bhs_rep_replace:
  assumes "bhs_rep bs n m v (add_mset bh R)" "blkno bh' = blkno bh" "bh_ok bs n m' v' bh'"
    and "\<forall>x\<in>#R. bh_ok bs n m v x \<longrightarrow> bh_ok bs n m' v' x"
    and "\<forall>a. (\<forall>x\<in>#add_mset bh' R. valid_bh x \<longrightarrow> blkno x \<noteq> a div bs) \<longrightarrow> v' a = m' a"
  shows "bhs_rep bs n m' v' (add_mset bh' R)"
  using assms unfolding bhs_rep_def by simp

lemma bhs_rep_recycle:
  assumes "bhs_rep bs n m v (add_mset bh R)" "bstate bh \<noteq> BH_STATE_DIRTY" "\<forall>x\<in>#R. blkno x \<noteq> k" "0 < bs"
  shows "bhs_rep bs n m v (add_mset (bh\<lparr>blkno := k, bstate := BH_STATE_INVALD\<rparr>) R)"
proof -
  let ?b = "bh\<lparr>blkno := k, bstate := BH_STATE_INVALD\<rparr>"
  have len: "bh_ok bs n m v bh" "\<forall>x\<in>#R. bh_ok bs n m v x" using assms(1) unfolding bhs_rep_def by auto
  have "count (image_mset blkno (add_mset ?b R)) j \<le> 1" if j: "j \<noteq> NO_BLK" for j
  proof (cases "j = k")
    case True
    then have "j \<notin># image_mset blkno R" using assms(3) by auto
    then have "count (image_mset blkno R) j = 0" by (simp only: not_in_iff)
    then show ?thesis by simp
  next
    case False
    have "count (image_mset blkno (add_mset bh R)) j \<le> 1"
      using assms(1) j unfolding bhs_rep_def by blast
    then show ?thesis using False by (simp split: if_splits)
  qed
  moreover have "v a = m a" if "\<forall>x\<in>#add_mset ?b R. valid_bh x \<longrightarrow> blkno x \<noteq> a div bs" for a
  proof (cases "valid_bh bh \<and> blkno bh = a div bs")
    case True
    then have "bstate bh = BH_STATE_CACHED" using assms(2) by (cases "bstate bh") (auto simp: valid_bh_def)
    then have "mem_read v (blkno bh * bs) bs = mem_read m (blkno bh * bs) bs"
      using len(1) True by (simp add: bh_ok_def)
    then show ?thesis using mem_read_block True assms(4) by metis
  next
    case False
    then have "\<forall>x\<in>#add_mset bh R. valid_bh x \<longrightarrow> blkno x \<noteq> a div bs" using that by auto
    then show ?thesis using assms(1) unfolding bhs_rep_def by blast
  qed
  ultimately show ?thesis using len unfolding bhs_rep_def by (auto simp: bh_ok_def valid_bh_def)
qed

lemma bhs_rep_fill:
  assumes "bhs_rep bs n m v (add_mset bh R)" "bstate bh = BH_STATE_INVALD" "blkno bh < n"
    "blkno bh \<noteq> NO_BLK" "0 < bs"
  shows "bhs_rep bs n m v (add_mset (bh\<lparr>bh_buffer := mem_read m (blkno bh * bs) bs, bstate := BH_STATE_CACHED\<rparr>) R)"
proof (rule bhs_rep_replace [OF assms(1)])
  have "v (blkno bh * bs + i) = m (blkno bh * bs + i)" if "i < bs" for i
    by (rule bhs_rep_blk [OF assms(1,2,4)]) (use that in simp)
  then have "mem_read v (blkno bh * bs) bs = mem_read m (blkno bh * bs) bs" by (simp add: mem_read_eq_iff)
  then show "bh_ok bs n m v (bh\<lparr>bh_buffer := mem_read m (blkno bh * bs) bs, bstate := BH_STATE_CACHED\<rparr>)"
    using assms(3) by (simp add: bh_ok_def)
  show "\<forall>a. (\<forall>x\<in>#add_mset (bh\<lparr>bh_buffer := mem_read m (blkno bh * bs) bs, bstate := BH_STATE_CACHED\<rparr>) R.
      valid_bh x \<longrightarrow> blkno x \<noteq> a div bs) \<longrightarrow> v a = m a"
    using assms(1,2) unfolding bhs_rep_def by (auto simp: valid_bh_def)
qed simp_all

lemma mem_read_other_block:
  assumes "j \<noteq> k" "length buf = bs"
  shows "mem_read (mem_write v (k * bs) buf) (j * bs) bs = mem_read v (j * bs) bs"
proof (rule mem_read_write_disjoint)
  consider "j < k" | "k < j" using assms(1) by linarith
  then show "j * bs + bs \<le> k * bs \<or> k * bs + length buf \<le> j * bs"
  proof cases
    case 1
    then have "(j + 1) * bs \<le> k * bs" by (intro mult_le_mono1) simp
    then show ?thesis by simp
  next
    case 2
    then have "(k + 1) * bs \<le> j * bs" by (intro mult_le_mono1) simp
    then show ?thesis using assms(2) by simp
  qed
qed

lemma mem_write_block_out:
  assumes "a div bs \<noteq> k" "length buf = bs" "0 < bs"
  shows "mem_write v (k * bs) buf a = v a"
proof (rule mem_write_out)
  have "\<not> (k * bs \<le> a \<and> a < k * bs + bs)" using div_block [OF assms(3), of a k] assms(1) by simp
  then show "a < k * bs \<or> k * bs + length buf \<le> a" using assms(2) by linarith
qed

lemma bhs_rep_modify:
  assumes "bhs_rep bs n m v (add_mset bh R)" "blkno bh < n" "blkno bh \<noteq> NO_BLK" "length buf = bs" "0 < bs"
  shows "bhs_rep bs n m (mem_write v (blkno bh * bs) buf)
    (add_mset (bh\<lparr>bh_buffer := buf, bstate := BH_STATE_DIRTY, hold := h\<rparr>) R)"
proof (rule bhs_rep_replace [OF assms(1)])
  let ?v = "mem_write v (blkno bh * bs) buf"
  show "bh_ok bs n m ?v (bh\<lparr>bh_buffer := buf, bstate := BH_STATE_DIRTY, hold := h\<rparr>)"
    using assms(2,4) by (simp add: bh_ok_def mem_read_write_same)
  show "\<forall>x\<in>#R. bh_ok bs n m v x \<longrightarrow> bh_ok bs n m ?v x"
    using bhs_rep_other [OF assms(1) _ assms(3)] mem_read_other_block [OF _ assms(4), of _ "blkno bh"]
    by (simp add: bh_ok_def)
  show "\<forall>a. (\<forall>x\<in>#add_mset (bh\<lparr>bh_buffer := buf, bstate := BH_STATE_DIRTY, hold := h\<rparr>) R.
      valid_bh x \<longrightarrow> blkno x \<noteq> a div bs) \<longrightarrow> ?v a = m a"
  proof (intro allI impI)
    fix a assume x: "\<forall>x\<in>#add_mset (bh\<lparr>bh_buffer := buf, bstate := BH_STATE_DIRTY, hold := h\<rparr>) R.
      valid_bh x \<longrightarrow> blkno x \<noteq> a div bs"
    then have k: "a div bs \<noteq> blkno bh" by (auto simp: valid_bh_def)
    have "\<forall>x\<in>#add_mset bh R. valid_bh x \<longrightarrow> blkno x \<noteq> a div bs" using x k by auto
    then have "v a = m a" using assms(1) unfolding bhs_rep_def by blast
    then show "?v a = m a" using mem_write_block_out [OF k assms(4,5)] by simp
  qed
qed simp

lemma bhs_rep_flush:
  assumes "bhs_rep bs n m v (add_mset bh R)" "bstate bh = BH_STATE_DIRTY" "blkno bh \<noteq> NO_BLK" "0 < bs"
    "st = BH_STATE_CACHED \<or> st = BH_STATE_INVALD"
  shows "bhs_rep bs n (mem_write m (blkno bh * bs) (bh_buffer bh)) v (add_mset (bh\<lparr>bstate := st\<rparr>) R)"
proof (rule bhs_rep_replace [OF assms(1)])
  let ?m = "mem_write m (blkno bh * bs) (bh_buffer bh)"
  have ok: "bh_ok bs n m v bh" using assms(1) unfolding bhs_rep_def by auto
  then have len: "length (bh_buffer bh) = bs" and vb: "mem_read v (blkno bh * bs) bs = bh_buffer bh"
    using assms(2) by (auto simp: bh_ok_def valid_bh_def)
  show "bh_ok bs n ?m v (bh\<lparr>bstate := st\<rparr>)"
    using ok assms(2,5) by (auto simp: bh_ok_def valid_bh_def mem_read_write_same)
  show "\<forall>x\<in>#R. bh_ok bs n m v x \<longrightarrow> bh_ok bs n ?m v x"
    using bhs_rep_other [OF assms(1) _ assms(3)] mem_read_other_block [OF _ len, of _ "blkno bh"]
    by (simp add: bh_ok_def)
  show "\<forall>a. (\<forall>x\<in>#add_mset (bh\<lparr>bstate := st\<rparr>) R. valid_bh x \<longrightarrow> blkno x \<noteq> a div bs) \<longrightarrow> v a = ?m a"
  proof (intro allI impI)
    fix a assume x: "\<forall>x\<in>#add_mset (bh\<lparr>bstate := st\<rparr>) R. valid_bh x \<longrightarrow> blkno x \<noteq> a div bs"
    show "v a = ?m a"
    proof (cases "a div bs = blkno bh")
      case True
      have "mem_read v (blkno bh * bs) bs = mem_read ?m (blkno bh * bs) bs"
        using vb len by (simp add: mem_read_write_same)
      then show ?thesis using mem_read_block [OF _ True assms(4)] by simp
    next
      case False
      then have "\<forall>x\<in>#add_mset bh R. valid_bh x \<longrightarrow> blkno x \<noteq> a div bs" using x by auto
      then have "v a = m a" using assms(1) unfolding bhs_rep_def by blast
      then show ?thesis using mem_write_block_out [OF False len assms(4)] by simp
    qed
  qed
qed simp

section \<open>Lemmas: the cache over a flash disk\<close>

text \<open>A dirty buffer may stay on its list; a written-back one must not be dirty.\<close>

definition dirty_ok :: "bh_desc list \<Rightarrow> bool" where
  "dirty_ok l \<longleftrightarrow> (\<forall>bh\<in>set l. bstate bh = BH_STATE_DIRTY \<and> hold bh \<le> BLKDEV_HOLD_TIME)"

definition clean_ok :: "bh_desc list \<Rightarrow> bool" where
  "clean_ok l \<longleftrightarrow> (\<forall>bh\<in>set l. bstate bh \<noteq> BH_STATE_DIRTY)"

lemma dirty_ok_simps [simp]:
  "dirty_ok []" "dirty_ok (xs @ ys) \<longleftrightarrow> dirty_ok xs \<and> dirty_ok ys"
  "dirty_ok (x # xs) \<longleftrightarrow> (bstate x = BH_STATE_DIRTY \<and> hold x \<le> BLKDEV_HOLD_TIME) \<and> dirty_ok xs"
  by (auto simp: dirty_ok_def)

lemma clean_ok_simps [simp]:
  "clean_ok []" "clean_ok (xs @ ys) \<longleftrightarrow> clean_ok xs \<and> clean_ok ys"
  "clean_ok (x # xs) \<longleftrightarrow> bstate x \<noteq> BH_STATE_DIRTY \<and> clean_ok xs"
  by (auto simp: clean_ok_def)

lemma blk_held_alt:
  "blk_held dd contents H (b, d) v \<longleftrightarrow>
     bhs_rep (blk_size dd) (dlen dd div blk_size dd) (contents d) v (all_bhs H b) \<and>
     clean_ok (cached_list b) \<and> dirty_ok (dirty_list b) \<and>
     0 < size (all_bhs H b) \<and> size (all_bhs H b) < 2147483648"
  by (simp add: blk_held_def clean_ok_def dirty_ok_def)

context flash_disk
begin

abbreviation bs :: nat where "bs \<equiv> blk_size dd"
abbreviation nb :: nat where "nb \<equiv> dlen dd div blk_size dd"

lemma blk_ofs:
  assumes "k < nb"
  shows "w32 (bs * k) = k * bs" "k * bs + bs \<le> dlen dd" "k \<noteq> NO_BLK" "w32 (k + 1) = k + 1"
proof -
  have "(k + 1) * bs \<le> nb * bs" using assms by (intro mult_le_mono1) simp
  also have "\<dots> = dlen dd" using blk_len by simp
  finally show l: "k * bs + bs \<le> dlen dd" by simp
  then show "w32 (bs * k) = k * bs" using len_int by (simp add: mult.commute)
  have "k * 1 \<le> k * bs" using blk_bounds(1) by (intro mult_le_mono2) simp
  then have "k < 2147483648" using l len_int blk_bounds(1) by linarith
  then show "k \<noteq> NO_BLK" "w32 (k + 1) = k + 1" by simp_all
qed

lemma sync_loop_rep:
  assumes "bhs_rep bs nb (contents d) v (X + mset kept + mset todo + mset cached)"
    and "dirty_ok (kept @ todo)" "clean_ok cached" "0 \<le> expired"
    and "sync_loop dd expired mb invalid err kept todo cached d = (err', kept', cached', d')"
  shows "bhs_rep bs nb (contents d') v (X + mset kept' + mset cached') \<and> dirty_ok kept' \<and> clean_ok cached' \<and>
    image_mset blkno (mset kept' + mset cached') = image_mset blkno (mset kept + mset todo + mset cached)"
  using assms
proof (induction todo arbitrary: kept cached d err mb)
  case (Cons bh todo)
  note a = Cons.prems
  let ?R = "X + mset kept + mset todo + mset cached"
  have r: "bhs_rep bs nb (contents d) v (add_mset bh ?R)" using a(1) by simp
  then have "bh_ok bs nb (contents d) v bh" unfolding bhs_rep_def by auto
  then have k: "blkno bh < nb" "length (bh_buffer bh) = bs" using a(2) by (auto simp: bh_ok_def valid_bh_def)
  note o = blk_ofs [OF k(1)]
  consider "mb - 1 < 0" | "\<not> mb - 1 < 0" "hold bh > expired" | "\<not> mb - 1 < 0" "\<not> hold bh > expired" by blast
  then show ?case
  proof cases
    case 1 then show ?thesis using a by (auto simp: ac_simps)
  next
    case 2
    let ?bh = "bh\<lparr>hold := hold bh - expired\<rparr>"
    have "bhs_rep bs nb (contents d) v (add_mset ?bh ?R)"
      by (rule bhs_rep_replace [OF r]) (use r in \<open>simp_all add: bhs_rep_def bh_ok_def valid_bh_def\<close>)
    then have 1: "bhs_rep bs nb (contents d) v (X + mset (kept @ [?bh]) + mset todo + mset cached)" by simp
    have 3: "sync_loop dd expired (mb - 1) invalid err (kept @ [?bh]) todo cached d = (err', kept', cached', d')"
      using a(5) 2 by simp
    show ?thesis using Cons.IH [OF 1 _ a(3,4) 3] a(2,4) by simp
  next
    case 3
    obtain d1 d2 where e: "disk_device_erase dd (blkno bh * bs) bs d = (0, d1)"
      "disk_device_write dd (bh_buffer bh) (blkno bh * bs) d1 = (int bs, d2)"
      "contents d2 = mem_write (contents d) (blkno bh * bs) (bh_buffer bh)"
      by (rule disk_program [OF o(2) _ k(2)]) simp_all
    define st where "st = (if invalid then BH_STATE_INVALD else BH_STATE_CACHED)"
    let ?bh = "bh\<lparr>bstate := st\<rparr>"
    have "bhs_rep bs nb (contents d2) v (add_mset ?bh ?R)"
      unfolding e(3) by (rule bhs_rep_flush [OF r _ o(3) blk_bounds(1)]) (use a(2) in \<open>simp_all add: st_def\<close>)
    then have 1: "bhs_rep bs nb (contents d2) v (X + mset kept + mset todo + mset (cached @ [?bh]))" by simp
    have 2: "sync_loop dd expired (mb - 1) invalid (int bs) kept todo (cached @ [?bh]) d2 = (err', kept', cached', d')"
      using a(5) 3 e o(1) by (simp add: st_def)
    show ?thesis using Cons.IH [OF 1 _ _ a(4) 2] a(2,3) by (simp add: st_def)
  qed
qed simp

text \<open>A full flush empties the dirty list and returns the result of the last write.\<close>

lemma sync_loop_flush:
  assumes "bhs_rep bs nb (contents d) v (X + mset todo + mset cached)"
    and "dirty_ok todo" "int (length todo) \<le> mb"
  shows "\<exists>cached' d'. sync_loop dd BLKDEV_HOLD_TIME mb invalid err [] todo cached d =
    ((if todo = [] then err else int bs), [], cached', d')"
  using assms
proof (induction todo arbitrary: cached d err mb)
  case (Cons bh todo)
  have r: "bhs_rep bs nb (contents d) v (add_mset bh (X + mset todo + mset cached))" using Cons.prems(1) by simp
  then have "bh_ok bs nb (contents d) v bh" unfolding bhs_rep_def by auto
  then have k: "blkno bh < nb" "length (bh_buffer bh) = bs"
    using Cons.prems(2) by (auto simp: bh_ok_def valid_bh_def)
  note o = blk_ofs [OF k(1)]
  obtain d1 d2 where e: "disk_device_erase dd (blkno bh * bs) bs d = (0, d1)"
    "disk_device_write dd (bh_buffer bh) (blkno bh * bs) d1 = (int bs, d2)"
    "contents d2 = mem_write (contents d) (blkno bh * bs) (bh_buffer bh)"
    by (rule disk_program [OF o(2) _ k(2)]) simp_all
  let ?bh = "bh\<lparr>bstate := if invalid then BH_STATE_INVALD else BH_STATE_CACHED\<rparr>"
  have "bhs_rep bs nb (contents d2) v (add_mset ?bh (X + mset todo + mset cached))"
    unfolding e(3) by (rule bhs_rep_flush [OF r _ o(3) blk_bounds(1)]) (use Cons.prems(2) in simp_all)
  then have "bhs_rep bs nb (contents d2) v (X + mset todo + mset (cached @ [?bh]))" by simp
  from Cons.IH [OF this, of "mb - 1" "int bs"] show ?case
    using Cons.prems(2,3) e o(1) by (auto split: if_splits)
qed simp

lemma blkdev_sync_locked_rep:
  assumes "blk_held dd contents H s v" "0 \<le> expired" "blkdev_sync_locked dd expired mb invalid s = (err, s')"
  shows "blk_held dd contents H s' v"
    and "image_mset blkno (all_bhs H (fst s')) = image_mset blkno (all_bhs H (fst s))"
proof -
  obtain b d where s: "s = (b, d)" by fastforce
  obtain err' dl cl d' where l: "sync_loop dd expired mb invalid 0 [] (dirty_list b) (cached_list b) d = (err', dl, cl, d')"
    using prod_cases4 by blast
  have s': "s' = (b\<lparr>cached_list := cl, dirty_list := dl\<rparr>, d')" using assms(3) l s by (simp add: blkdev_sync_locked_def)
  have A: "bhs_rep bs nb (contents d) v (H + mset [] + mset (dirty_list b) + mset (cached_list b))"
    "dirty_ok ([] @ dirty_list b)" "clean_ok (cached_list b)"
    using assms(1) s by (simp_all add: blk_held_alt all_bhs_def ac_simps)
  note R = sync_loop_rep [OF A assms(2) l]
  have i: "image_mset blkno (mset dl + mset cl) = image_mset blkno (mset (dirty_list b) + mset (cached_list b))"
    using R by simp
  have z: "length dl + length cl = length (dirty_list b) + length (cached_list b)"
    using arg_cong [OF i, of size] by simp
  show "blk_held dd contents H s' v" using R assms(1) s s' z by (simp add: blk_held_alt all_bhs_def ac_simps)
  show "image_mset blkno (all_bhs H (fst s')) = image_mset blkno (all_bhs H (fst s))"
    using i s s' by (simp add: all_bhs_def ac_simps)
qed

lemma blkdev_sync_locked_makes_room:
  assumes "blk_rep dd contents (b, d) v" "cached_list b = []"
  shows "cached_list (fst (snd (blkdev_sync_locked dd BLKDEV_HOLD_TIME 1 False (b, d)))) \<noteq> []"
proof -
  have I: "bhs_rep bs nb (contents d) v (mset (dirty_list b))" "dirty_ok (dirty_list b)" "dirty_list b \<noteq> []"
    using assms by (simp_all add: blk_rep_def blk_held_alt all_bhs_def)
  then obtain bh l where l: "dirty_list b = bh # l" by (cases "dirty_list b") auto
  have "bh_ok bs nb (contents d) v bh" using I(1) l unfolding bhs_rep_def by auto
  then have k: "blkno bh < nb" "length (bh_buffer bh) = bs" using I(2) l by (auto simp: bh_ok_def valid_bh_def)
  note o = blk_ofs [OF k(1)]
  obtain d1 d2 where "disk_device_erase dd (blkno bh * bs) bs d = (0, d1)"
    "disk_device_write dd (bh_buffer bh) (blkno bh * bs) d1 = (int bs, d2)"
    by (rule disk_program [OF o(2) _ k(2)]) simp_all
  then show ?thesis using I(2) l o(1) assms(2)
    by (cases l) (simp_all add: blkdev_sync_locked_def)
qed

lemma evict:
  assumes "blk_rep dd contents (b, d) v"
    and "(if cached_list b = [] then snd (blkdev_sync_locked dd BLKDEV_HOLD_TIME 1 False (b, d)) else (b, d)) = (b1, d1)"
  shows "blk_held dd contents {#} (b1, d1) v \<and>
    image_mset blkno (all_bhs {#} b1) = image_mset blkno (all_bhs {#} b) \<and> cached_list b1 \<noteq> []"
proof (cases "cached_list b = []")
  case True
  then have e: "blkdev_sync_locked dd BLKDEV_HOLD_TIME 1 False (b, d) =
      (fst (blkdev_sync_locked dd BLKDEV_HOLD_TIME 1 False (b, d)), b1, d1)"
    using assms(2) by (metis prod.collapse)
  show ?thesis
    using blkdev_sync_locked_rep [OF assms(1) [unfolded blk_rep_def] _ e]
      blkdev_sync_locked_makes_room [OF assms(1) True] assms(2) True by simp
qed (use assms in \<open>simp_all add: blk_rep_def\<close>)

lemma take_blk_Some:
  "take_blk n l = Some (bh, l') \<Longrightarrow> mset l = add_mset bh (mset l') \<and> blkno bh = n \<and> length l = Suc (length l')"
  by (induction l arbitrary: l') (auto split: if_splits)

lemma take_blk_None: "take_blk n l = None \<Longrightarrow> \<forall>x\<in>set l. blkno x \<noteq> n"
  by (induction l) (auto split: if_splits)

text \<open>The search hands out a buffer with the block number; the block may still have to be read.\<close>

lemma bh_search_locked_rep:
  assumes "blk_rep dd contents s v" "n < nb"
  obtains bh s' where "bh_search_locked dd n s = Some (bh, s')" "blk_held dd contents {#bh#} s' v" "blkno bh = n"
proof -
  obtain b d where s: "s = (b, d)" by fastforce
  have I: "blk_held dd contents {#} (b, d) v" using assms(1) s by (simp add: blk_rep_def)
  note I' = I [unfolded blk_held_alt all_bhs_def, simplified]
  show ?thesis
  proof (cases "take_blk n (cached_list b)")
    case (Some x)
    then obtain bh l where x: "take_blk n (cached_list b) = Some (bh, l)" by (cases x) auto
    note t = take_blk_Some [OF x]
    have l: "clean_ok l" using I' t by (auto simp: clean_ok_def dest: mset_eq_setD simp flip: set_mset_mset)
    show ?thesis
      by (rule that [of bh "(b\<lparr>cached_list := l, cache_hits := cache_hits b + 1\<rparr>, d)"])
        (use I' t l x in \<open>simp_all add: s bh_search_locked_def blk_held_alt all_bhs_def\<close>)
  next
    case c: None
    show ?thesis
    proof (cases "take_blk n (dirty_list b)")
      case (Some x)
      then obtain bh l where x: "take_blk n (dirty_list b) = Some (bh, l)" by (cases x) auto
      note t = take_blk_Some [OF x]
      have l: "dirty_ok l" using I' t by (auto simp: dirty_ok_def simp flip: set_mset_mset)
      show ?thesis
        by (rule that [of bh "(b\<lparr>dirty_list := l, cache_hits := cache_hits b + 1\<rparr>, d)"])
          (use I' t l x c in \<open>simp_all add: s bh_search_locked_def blk_held_alt all_bhs_def\<close>)
    next
      case None
      obtain b1 d1 where sy: "(if cached_list b = [] then snd (blkdev_sync_locked dd BLKDEV_HOLD_TIME 1 False (b, d))
          else (b, d)) = (b1, d1)" by fastforce
      note E = evict [OF assms(1) [unfolded s] sy]
      note J = conjunct1 [OF E] conjunct1 [OF conjunct2 [OF E]]
      have "cached_list b1 \<noteq> []" using E by blast
      then obtain bh l where bh: "cached_list b1 = bh # l" by (cases "cached_list b1") auto
      have "n \<notin># image_mset blkno (all_bhs {#} b)"
        using take_blk_None [OF c] take_blk_None [OF None] by (auto simp: all_bhs_def)
      then have "n \<notin># image_mset blkno (all_bhs {#} b1)" unfolding J(2) .
      then have nn: "\<forall>x\<in>#mset l + mset (dirty_list b1). blkno x \<noteq> n"
        using bh by (auto simp: all_bhs_def)
      note J' = J(1) [unfolded blk_held_alt all_bhs_def, simplified]
      have "bhs_rep bs nb (contents d1) v (add_mset (bh\<lparr>blkno := n, bstate := BH_STATE_INVALD\<rparr>) (mset l + mset (dirty_list b1)))"
        by (rule bhs_rep_recycle [OF _ _ nn blk_bounds(1)]) (use J' bh in simp_all)
      then show ?thesis
        using that [of "bh\<lparr>blkno := n, bstate := BH_STATE_INVALD\<rparr>" "(b1\<lparr>cache_missed := cache_missed b1 + 1, cached_list := l\<rparr>, d1)"]
          J' bh c None sy by (simp add: s bh_search_locked_def blk_held_alt all_bhs_def)
    qed
  qed
qed

lemma bh_read_locked_rep:
  assumes "blk_rep dd contents s v" "n < nb"
  obtains bh s' where "bh_read_locked dd n s = Some (0, bh, s')" "blk_held dd contents {#bh#} s' v"
    "blkno bh = n" "valid_bh bh"
proof -
  obtain bh b d where bh: "bh_search_locked dd n s = Some (bh, b, d)" "blk_held dd contents {#bh#} (b, d) v" "blkno bh = n"
    using bh_search_locked_rep [OF assms] by (metis prod.exhaust_sel)
  note H = bh(2) [unfolded blk_held_alt all_bhs_def, simplified]
  have o: "w32 (bs * n) = n * bs" "n * bs + bs \<le> dlen dd" "n \<noteq> NO_BLK" using blk_ofs [OF assms(2)] by simp_all
  show ?thesis
  proof (cases "bstate bh = BH_STATE_INVALD")
    case True
    have len: "length (bh_buffer bh) = bs" using H by (auto simp: bhs_rep_def bh_ok_def)
    let ?bh = "bh\<lparr>bh_buffer := mem_read (contents d) (n * bs) bs, bstate := BH_STATE_CACHED\<rparr>"
    have "bhs_rep bs nb (contents d) v (add_mset ?bh (mset (cached_list b) + mset (dirty_list b)))"
      using bhs_rep_fill [of bs nb "contents d" v bh, OF _ True _ _ blk_bounds(1)] H bh(3) assms(2) o(3) by simp
    then show ?thesis
      using that [of ?bh "(b, d)"] True bh disk_read [OF o(2)] len H o(1)
      by (simp add: bh_read_locked_def blk_held_alt all_bhs_def valid_bh_def)
  next
    case False
    then show ?thesis using that [of bh "(b, d)"] bh by (simp add: bh_read_locked_def valid_bh_def)
  qed
qed

lemma bh_release_rep:
  assumes "blk_held dd contents {#bh#} (b, d) v" "valid_bh bh"
  shows "blk_rep dd contents (bh_release b bh, d) v"
proof -
  note H = assms(1) [unfolded blk_held_alt all_bhs_def, simplified]
  have "bhs_rep bs nb (contents d) v (add_mset (bh\<lparr>hold := h\<rparr>) (mset (cached_list b) + mset (dirty_list b)))" for h
    by (rule bhs_rep_replace [of bs nb "contents d" v bh])
      (use H in \<open>simp_all add: bhs_rep_def bh_ok_def valid_bh_def\<close>)
  then show ?thesis using H
    by (simp add: blk_rep_def blk_held_alt all_bhs_def bh_release_def bh_enqueue_dirty_def bh_enqueue_cached_def)
qed

lemma bh_release_modified_rep:
  assumes "blk_held dd contents {#bh#} (b, d) v" "blkno bh < nb" "length buf = bs"
  shows "blk_rep dd contents (bh_release_modified b (bh\<lparr>bh_buffer := buf\<rparr>), d) (mem_write v (blkno bh * bs) buf)"
proof -
  note H = assms(1) [unfolded blk_held_alt all_bhs_def, simplified]
  have "bhs_rep bs nb (contents d) (mem_write v (blkno bh * bs) buf)
      (add_mset (bh\<lparr>bh_buffer := buf, bstate := BH_STATE_DIRTY, hold := BLKDEV_HOLD_TIME\<rparr>)
        (mset (cached_list b) + mset (dirty_list b)))"
    by (rule bhs_rep_modify [OF _ assms(2) blk_ofs(3) [OF assms(2)] assms(3) blk_bounds(1)]) (use H in simp)
  then show ?thesis using H
    by (simp add: blk_rep_def blk_held_alt all_bhs_def bh_release_modified_def bh_enqueue_dirty_def)
qed

lemma mem_write_buf_write:
  assumes "mem_read v off n = buf" "ofs + length xs \<le> n"
  shows "mem_write v off (buf_write buf ofs xs) = mem_write v (off + ofs) xs"
proof
  fix a
  have len: "length buf = n" using assms(1) by auto
  show "mem_write v off (buf_write buf ofs xs) a = mem_write v (off + ofs) xs a"
  proof (cases "off \<le> a \<and> a < off + n")
    case True
    then have "buf ! (a - off) = v a" using assms(1) by (auto simp: mem_read_def)
    then show ?thesis using True assms(2) len by (auto simp: mem_write_def nth_buf_write)
  next
    case False
    then show ?thesis using assms(2) len by (auto simp: mem_write_def)
  qed
qed

lemma loop_range:
  assumes "n * bs + ofs + k \<le> dlen dd" "0 < k" "ofs < bs"
  shows "n < nb"
proof -
  have "n * bs < nb * bs" using assms blk_len by simp
  then show ?thesis by simp
qed

lemma write_step:
  assumes "blk_rep dd contents s v" "n < nb" "ofs < bs" "src \<noteq> []"
  obtains s1 where "write_loop dd sz n ofs src s = write_loop dd sz (n + 1) 0 (drop (min (bs - ofs) (length src)) src) s1"
    "blk_rep dd contents s1 (mem_write v (n * bs + ofs) (take (min (bs - ofs) (length src)) src))"
proof -
  let ?k = "min (bs - ofs) (length src)" and ?whole = "ofs = 0 \<and> length src \<ge> bs"
  obtain bh b d where bh: "(if ?whole then bh_get_locked dd n s else bh_read_locked dd n s) = Some (0, bh, b, d)"
    "blk_held dd contents {#bh#} (b, d) v" "blkno bh = n" "?whole \<or> valid_bh bh"
  proof (cases ?whole)
    case True
    then show ?thesis using bh_search_locked_rep [OF assms(1,2)] that
      by (metis (no_types, lifting) bh_get_locked_def case_prod_conv option.simps(9) prod.exhaust_sel)
  next
    case False
    then show ?thesis using bh_read_locked_rep [OF assms(1,2)] that by (metis prod.exhaust_sel)
  qed
  have ok: "bh_ok bs nb (contents d) v bh" using bh(2) by (simp add: blk_held_alt all_bhs_def bhs_rep_def)
  let ?buf = "buf_write (bh_buffer bh) ofs (take ?k src)"
  have len: "length (bh_buffer bh) = bs" "length ?buf = bs" using ok assms(3) by (auto simp: bh_ok_def)
  have w: "mem_write v (n * bs) ?buf = mem_write v (n * bs + ofs) (take ?k src)"
  proof (cases ?whole)
    case True then show ?thesis using len by simp
  next
    case False
    then have "mem_read v (n * bs) bs = bh_buffer bh" using ok bh(3,4) by (auto simp: bh_ok_def)
    then show ?thesis using assms(3) by (intro mem_write_buf_write) auto
  qed
  show ?thesis
    by (rule that [of "(bh_release_modified b (bh\<lparr>bh_buffer := ?buf\<rparr>), d)"])
      (use bh_release_modified_rep [OF bh(2) _ len(2)] assms(2,4) bh(1,3) w blk_ofs(4) [OF assms(2)] in
        \<open>simp_all add: write_loop.simps [of dd sz n] Let_def\<close>)
qed

lemma write_loop_rep:
  assumes "blk_rep dd contents s v" "n * bs + ofs + length src \<le> dlen dd" "ofs < bs"
  shows "\<exists>s'. write_loop dd sz n ofs src s = Some (sz, s') \<and>
    blk_rep dd contents s' (mem_write v (n * bs + ofs) src)"
  using assms
proof (induction src arbitrary: n ofs s v rule: length_induct)
  case (1 src)
  show ?case
  proof (cases "src = []")
    case True then show ?thesis using 1 by (simp add: write_loop.simps)
  next
    case False
    let ?k = "min (bs - ofs) (length src)"
    let ?xs = "take ?k src" and ?ys = "drop ?k src"
    have "n < nb" using loop_range [OF 1(3) _ 1(4)] False by simp
    then obtain s1 where s1: "write_loop dd sz n ofs src s = write_loop dd sz (n + 1) 0 ?ys s1"
      "blk_rep dd contents s1 (mem_write v (n * bs + ofs) ?xs)"
      by (rule write_step [OF 1(2) _ 1(4) False])
    show ?thesis
    proof (cases "?ys = []")
      case True
      then show ?thesis using s1 by (simp add: write_loop.simps)
    next
      case ne: False
      then have e: "(n + 1) * bs = n * bs + ofs + length ?xs" using 1(4) by auto
      have l: "length ?ys < length src" using 1(4) False by simp
      have "(n + 1) * bs + 0 + length ?ys \<le> dlen dd" unfolding e using 1(3) by simp
      from 1(1) [rule_format, OF l s1(2) this blk_bounds(1)] obtain s' where
        s': "write_loop dd sz (n + 1) 0 ?ys s1 = Some (sz, s')"
        "blk_rep dd contents s' (mem_write (mem_write v (n * bs + ofs) ?xs) ((n + 1) * bs + 0) ?ys)" by blast
      have "mem_write (mem_write v (n * bs + ofs) ?xs) ((n + 1) * bs + 0) ?ys = mem_write v (n * bs + ofs) src"
        using mem_write_append [of v "n * bs + ofs" ?xs ?ys] e by (simp add: add.commute)
      then show ?thesis using s1(1) s' by simp
    qed
  qed
qed

lemma read_loop_rep:
  assumes "blk_rep dd contents s v" "n * bs + ofs + k \<le> dlen dd" "ofs < bs"
  shows "\<exists>s'. read_loop dd sz n ofs k dst s = Some (sz, dst @ mem_read v (n * bs + ofs) k, s') \<and>
    blk_rep dd contents s' v"
  using assms
proof (induction k arbitrary: n ofs s dst rule: less_induct)
  case (less k)
  show ?case
  proof (cases "k = 0")
    case True then show ?thesis using less.prems by (simp add: read_loop.simps)
  next
    case False
    let ?k = "min (bs - ofs) k"
    have n: "n < nb" using loop_range [OF less.prems(2) _ less.prems(3)] False by simp
    obtain bh b d where bh: "bh_read_locked dd n s = Some (0, bh, b, d)" "blk_held dd contents {#bh#} (b, d) v"
      "blkno bh = n" "valid_bh bh"
      using bh_read_locked_rep [OF less.prems(1) n] by (metis prod.exhaust_sel)
    have buf: "mem_read v (n * bs) bs = bh_buffer bh"
      using bh by (auto simp: blk_held_alt all_bhs_def bhs_rep_def bh_ok_def)
    have x: "buf_read (bh_buffer bh) ofs ?k = mem_read v (n * bs + ofs) ?k"
      unfolding buf [symmetric] using less.prems(3)
      by (auto simp: list_eq_iff_nth_eq mem_simps add.assoc)
    have st: "blk_rep dd contents (bh_release b bh, d) v" by (rule bh_release_rep [OF bh(2,4)])
    have eq: "read_loop dd sz n ofs k dst s =
        read_loop dd sz (n + 1) 0 (k - ?k) (dst @ mem_read v (n * bs + ofs) ?k) (bh_release b bh, d)"
      using False bh(1) blk_ofs(4) [OF n] x by (simp add: read_loop.simps [of dd sz n] Let_def)
    show ?thesis
    proof (cases "k - ?k = 0")
      case True
      then have "?k = k" by simp
      then show ?thesis using eq st by (simp add: read_loop.simps)
    next
      case ne: False
      then have e: "(n + 1) * bs = n * bs + ofs + ?k" using less.prems(3) by auto
      have l: "k - ?k < k" using False less.prems(3) by simp
      have "(n + 1) * bs + 0 + (k - ?k) \<le> dlen dd" unfolding e using less.prems(2) by simp
      from less.IH [OF l st this blk_bounds(1), of "dst @ mem_read v (n * bs + ofs) ?k"]
      show ?thesis using eq e mem_read_append [of v "n * bs + ofs" ?k "k - ?k"]
        by (auto simp: add.commute)
    qed
  qed
qed

lemma simple_blkdev_write_rep:
  assumes "blk_rep dd contents s v" "off + length src \<le> dlen dd"
  shows "\<exists>s'. simple_blkdev_write dd src off s = Some (int (length src), s') \<and>
    blk_rep dd contents s' (mem_write v off src)"
  using write_loop_rep [OF assms(1), of "off div bs" "off mod bs" src "int (length src)"] assms(2) blk_bounds(1)
  by (simp add: simple_blkdev_write_def)

lemma simple_blkdev_read_rep:
  assumes "blk_rep dd contents s v" "off + n \<le> dlen dd"
  shows "\<exists>s'. simple_blkdev_read dd n off s = Some (int n, mem_read v off n, s') \<and> blk_rep dd contents s' v"
  using read_loop_rep [OF assms(1), of "off div bs" "off mod bs" n "int n" "[]"] assms(2) blk_bounds(1)
  by (simp add: simple_blkdev_read_def)

lemma bdev_init_rep:
  assumes "bdev_init mem None = (0, Some b)" "\<forall>(buf, h)\<in>set mem. length buf = bs" "length mem < 2147483648"
  shows "blk_rep dd contents (b, d) (contents d)"
proof -
  let ?f = "\<lambda>(buf, h). \<lparr>bh_buffer = buf, blkno = NO_BLK, bstate = BH_STATE_INVALD, hold = h\<rparr>"
  have b: "cached_list b = rev (map ?f mem)" "dirty_list b = []" "mem \<noteq> []"
    using assms(1) by (auto simp: bdev_init_def split: if_splits)
  have f: "blkno x = NO_BLK" "\<not> valid_bh x" "bstate x = BH_STATE_INVALD" "length (bh_buffer x) = bs"
    if "x \<in> set (map ?f mem)" for x
    using that assms(2) by (auto simp: valid_bh_def)
  have "bhs_rep bs nb (contents d) (contents d) (mset (map ?f mem))"
    unfolding bhs_rep_def
  proof (intro conjI ballI allI impI)
    fix x assume "x \<in># mset (map ?f mem)"
    then have "x \<in> set (map ?f mem)" by simp
    from f [OF this] show "bh_ok bs nb (contents d) (contents d) x" by (simp add: bh_ok_def)
  next
    fix k :: nat assume "k \<noteq> NO_BLK"
    then have "k \<notin># image_mset blkno (mset (map ?f mem))" using f(1) by auto
    then show "count (image_mset blkno (mset (map ?f mem))) k \<le> 1" by (simp only: not_in_iff)
  qed simp
  moreover have "clean_ok (map ?f mem)" using f(3) by (auto simp: clean_ok_def)
  ultimately show ?thesis using b assms(3)
    by (simp add: blk_rep_def blk_held_alt all_bhs_def clean_ok_def)
qed

lemma simple_blkdev_sync_rep:
  assumes "blk_rep dd contents (b, d) v"
  shows "\<exists>b' d'. bdev_sync BLKDEV_HOLD_TIME 2147483647 invalid [(dd, b, d)] =
      ((if dirty_list b = [] then 0 else int bs), [(dd, b', d')]) \<and>
    dirty_list b' = [] \<and> contents d' = v \<and> blk_rep dd contents (b', d') v"
proof -
  have I: "bhs_rep bs nb (contents d) v ({#} + mset (dirty_list b) + mset (cached_list b))" "dirty_ok (dirty_list b)"
    "int (length (dirty_list b)) \<le> 2147483647"
    using assms by (auto simp: blk_rep_def blk_held_alt all_bhs_def ac_simps)
  obtain cl d1 where l: "sync_loop dd BLKDEV_HOLD_TIME 2147483647 invalid 0 [] (dirty_list b) (cached_list b) d =
      ((if dirty_list b = [] then 0 else int bs), [], cl, d1)"
    using sync_loop_flush [OF I] by blast
  let ?b = "b\<lparr>cached_list := cl, dirty_list := []\<rparr>"
  have y: "blkdev_sync_locked dd BLKDEV_HOLD_TIME 2147483647 invalid (b, d) =
      ((if dirty_list b = [] then 0 else int bs), ?b, d1)"
    using l by (simp add: blkdev_sync_locked_def)
  define d2 where "d2 = snd (snd (disk_device_ioctl dd DISK_SYNC d1))"
  have d2: "contents d2 = contents d1"
    using io [of DISK_SYNC d1] by (auto simp: d2_def disk_device_ioctl_def split: prod.split)
  have h: "blk_held dd contents {#} (?b, d1) v"
    using blkdev_sync_locked_rep(1) [OF assms [unfolded blk_rep_def] _ y] by simp
  then have r: "blk_rep dd contents (?b, d2) v" by (simp add: blk_rep_def blk_held_alt d2)
  have "contents d1 a = v a" for a
  proof (cases "\<exists>bh\<in>set cl. valid_bh bh \<and> blkno bh = a div bs")
    case True
    then obtain bh where bh: "bh \<in> set cl" "valid_bh bh" "blkno bh = a div bs" by blast
    have "bh_ok bs nb (contents d1) v bh" "bstate bh = BH_STATE_CACHED"
      using h bh(1,2) by (auto simp: blk_held_alt all_bhs_def bhs_rep_def clean_ok_def valid_bh_def)
        (meson bh_state.exhaust)
    then have "mem_read v (blkno bh * bs) bs = mem_read (contents d1) (blkno bh * bs) bs"
      using bh(2) by (simp add: bh_ok_def)
    then show ?thesis using mem_read_block [OF _ _ blk_bounds(1)] bh(3) by metis
  next
    case False
    then show ?thesis using h by (auto simp: blk_held_alt all_bhs_def bhs_rep_def)
  qed
  then have "contents d2 = v" using d2 by auto
  then show ?thesis using r y by (simp add: d2_def)
qed

end

text \<open>
  The contract of a byte store that the layers above rely on: \<open>rep s v\<close> says that the state holds
  the bytes \<open>v\<close>.
\<close>

locale byte_store =
  fixes rep :: "'s \<Rightarrow> mem \<Rightarrow> bool" and cap :: nat
    and wr :: "u8 list \<Rightarrow> nat \<Rightarrow> 's \<Rightarrow> (int \<times> 's) option"
    and rd :: "nat \<Rightarrow> nat \<Rightarrow> 's \<Rightarrow> (int \<times> u8 list \<times> 's) option"
  assumes wr: "rep s v \<Longrightarrow> off + length xs \<le> cap \<Longrightarrow>
      \<exists>s'. wr xs off s = Some (int (length xs), s') \<and> rep s' (mem_write v off xs)"
    and rd: "rep s v \<Longrightarrow> off + n \<le> cap \<Longrightarrow>
      \<exists>s'. rd n off s = Some (int n, mem_read v off n, s') \<and> rep s' v"
begin

lemma write_read_back:
  assumes "rep s v" "off + length xs \<le> cap" "wr xs off s = Some (r, s')"
  shows "\<exists>s''. rd (length xs) off s' = Some (int (length xs), xs, s'')"
proof -
  have "rep s' (mem_write v off xs)" using wr [OF assms(1,2)] assms(3) by auto
  from rd [OF this assms(2)] show ?thesis by (auto simp: mem_read_write_same)
qed

lemma write_read_other:
  assumes "rep s v" "off + length xs \<le> cap" "wr xs off s = Some (r, s')"
    and "p + n \<le> cap" "p + n \<le> off \<or> off + length xs \<le> p"
  shows "\<exists>s''. rd n p s' = Some (int n, mem_read v p n, s'')"
proof -
  have "rep s' (mem_write v off xs)" using wr [OF assms(1,2)] assms(3) by auto
  from rd [OF this assms(4)] show ?thesis using assms(5) by (auto simp: mem_read_write_disjoint)
qed

end

sublocale flash_disk \<subseteq> store: byte_store "blk_rep dd contents" "dlen dd" "simple_blkdev_write dd" "simple_blkdev_read dd"
  by unfold_locales (rule simple_blkdev_write_rep simple_blkdev_read_rep, assumption+)+

context flash_disk
begin

lemmas store_facts = store.write_read_back store.write_read_other

end

section \<open>Properties\<close>

lemma blkdev_is_byte_store_parts:
  assumes "flash_disk dd contents" "blk_rep dd contents s v" "off + length xs \<le> dlen dd"
  shows "\<exists>s'. simple_blkdev_write dd xs off s = Some (int (length xs), s') \<and>
           blk_rep dd contents s' (mem_write v off xs)"
    and "\<exists>s'. simple_blkdev_read dd (length xs) off s = Some (int (length xs), mem_read v off (length xs), s') \<and>
           blk_rep dd contents s' v"
    and "simple_blkdev_write dd xs off s = Some (r, s1) \<Longrightarrow>
         \<exists>s2. simple_blkdev_read dd (length xs) off s1 = Some (int (length xs), xs, s2)"
  using flash_disk.simple_blkdev_write_rep [OF assms] flash_disk.simple_blkdev_read_rep [OF assms]
    flash_disk.store_facts(1) [OF assms] by blast+

text \<open>
  C2. Over every driver that meets the flash contract, the cached block device is a byte store of the
  size of the disk: a write inside the disk returns its length and changes exactly those bytes, a
  read returns the bytes last written, whatever buffers were evicted, flushed or read in between.
\<close>

theorem blkdev_is_byte_store:
  assumes "flash_disk dd contents" "blk_rep dd contents s v" "off + length xs \<le> dlen dd"
  shows "(\<exists>s'. simple_blkdev_write dd xs off s = Some (int (length xs), s') \<and>
           blk_rep dd contents s' (mem_write v off xs)) \<and>
    (\<exists>s'. simple_blkdev_read dd (length xs) off s = Some (int (length xs), mem_read v off (length xs), s') \<and>
           blk_rep dd contents s' v) \<and>
    (simple_blkdev_write dd xs off s = Some (r, s1) \<longrightarrow>
         (\<exists>s2. simple_blkdev_read dd (length xs) off s1 = Some (int (length xs), xs, s2)))"
  using blkdev_is_byte_store_parts [OF assms] by blast

text \<open>Two buffers over an erased virtual flash.\<close>

definition example_bdev :: block_device where
  "example_bdev = the (snd (bdev_init [(replicate 256 0, 0), (replicate 256 0, 0)] None))"

lemma example_blk_rep: "blk_rep vdisk (\<lambda>m. m) (example_bdev, \<lambda>_. 0xFF) (\<lambda>_. 0xFF)"
  by (rule vflash.bdev_init_rep [of "[(replicate 256 0, 0), (replicate 256 0, 0)]"])
    (simp_all add: example_bdev_def bdev_init_def vdisk_def)

theorem blkdev_is_byte_store_witness:
  "\<exists>s. simple_blkdev_write vdisk [1, 2, 3] 255 (example_bdev, \<lambda>_. 0xFF) = Some (3, s) \<and>
     (\<exists>s2. simple_blkdev_read vdisk 3 255 s = Some (3, [1, 2, 3], s2))"
proof -
  have r: "255 + length [1, 2, 3 :: u8] \<le> dlen vdisk" by (simp add: vdisk_def)
  note T = blkdev_is_byte_store [OF vflash.flash_disk_axioms example_blk_rep r]
  from T [THEN conjunct1] obtain s where s: "simple_blkdev_write vdisk [1, 2, 3] 255 (example_bdev, \<lambda>_. 0xFF) = Some (3, s)"
    by auto
  from T [THEN conjunct2, THEN conjunct2] s show ?thesis by (auto simp: numeral_3_eq_3)
qed



end
