(* ===== verification/Partition.thy ===== *)
theory Partition
  imports Blkdev
begin

text \<open>
  The partition table of \<open>dev/partition.c\<close>: names, disks and ranges, the lookup of \<open>name\<close> and
  \<open>name/child\<close>, and the accesses through the block cache (\<open>lgpt_\<close>) and directly to the disk
  (\<open>disk_partition_\<close>). It is a client of the byte store that the block cache provides.
  Addresses, offsets and lengths are 32-bit values; None is a failed assertion or an access outside
  a C object.
\<close>

section \<open>Definitions\<close>

text \<open>The children are the entries up to the one without a name; they have no children.\<close>

record disk_partition =
  pname :: string
  pparent :: string
  poffset :: nat
  plen :: nat
  pchild :: "(string \<times> string \<times> nat \<times> nat) list"

text \<open>A partition is an entry of the table or a child of one.\<close>

datatype part_ref = Entry nat | Child nat nat

text \<open>
  The table, the disk of every entry, the registered disks, and for every disk its block device
  and its device state.
\<close>

record 'd pt_world =
  partition_table :: "disk_partition list"
  parition_disk_cache :: "nat list"
  reg :: "'d disks"
  stores :: "nat \<Rightarrow> block_device \<times> 'd"

datatype match = NotFound | Found part_ref | Overrun

text \<open>The position of the first slash.\<close>

fun strchr_slash :: "string \<Rightarrow> nat option" where
  "strchr_slash [] = None"
| "strchr_slash (c # cs) = (if c = CHR ''/'' then Some 0 else map_option Suc (strchr_slash cs))"

fun match_child :: "string \<Rightarrow> (string \<times> string \<times> nat \<times> nat) list \<Rightarrow> nat \<Rightarrow> nat option" where
  "match_child name [] j = None"
| "match_child name (c # cs) j = (if name = fst c then Some j else match_child name cs (Suc j))"

text \<open>
  The loop of \<open>partition_match\<close>; \<open>p\<close> is the position in \<open>in\<close>, which moves on with every entry whose
  name matches the part before it.
\<close>

fun match_loop :: "string \<Rightarrow> nat option \<Rightarrow> disk_partition list \<Rightarrow> nat \<Rightarrow> match" where
  "match_loop inp p [] i = NotFound"
| "match_loop inp p (dp # dps) i =
     (case p of
        None \<Rightarrow> if inp = pname dp then Found (Entry i) else match_loop inp p dps (Suc i)
      | Some q \<Rightarrow>
          if take q inp = take q (pname dp)
          then
            let q = q + 1
            in if q > length inp then Overrun
               else (case match_child (drop q inp) (pchild dp) 0 of
                       Some j \<Rightarrow> Found (Child i j)
                     | None \<Rightarrow> match_loop inp (Some q) dps (Suc i))
          else match_loop inp p dps (Suc i))"

definition partition_match :: "string \<Rightarrow> 'd pt_world \<Rightarrow> match" where
  "partition_match inp w = match_loop inp (strchr_slash inp) (partition_table w) 0"

definition disk_partition_find :: "string \<Rightarrow> 'd pt_world \<Rightarrow> match" where
  "disk_partition_find name w = partition_match name w"

text \<open>The two assertions require an entry of the table.\<close>

definition disk_device_find_by_part :: "part_ref \<Rightarrow> 'd pt_world \<Rightarrow> nat option" where
  "disk_device_find_by_part part w = (case part of
     Entry i \<Rightarrow> if i < length (partition_table w) then Some (parition_disk_cache w ! i) else None
   | Child i j \<Rightarrow> None)"

definition disk_get_partition_table :: "'d pt_world \<Rightarrow> disk_partition list \<times> nat" where
  "disk_get_partition_table w = (partition_table w, length (partition_table w))"

text \<open>The members of the partition.\<close>

definition part_offset :: "part_ref \<Rightarrow> 'd pt_world \<Rightarrow> nat" where
  "part_offset part w = (case part of Entry i \<Rightarrow> poffset (partition_table w ! i)
     | Child i j \<Rightarrow> fst (snd (snd (pchild (partition_table w ! i) ! j))))"

definition part_len :: "part_ref \<Rightarrow> 'd pt_world \<Rightarrow> nat" where
  "part_len part w = (case part of Entry i \<Rightarrow> plen (partition_table w ! i)
     | Child i j \<Rightarrow> snd (snd (snd (pchild (partition_table w ! i) ! j))))"

definition set_store :: "nat \<Rightarrow> block_device \<times> 'd \<Rightarrow> 'd pt_world \<Rightarrow> 'd pt_world" where
  "set_store dd s w = w\<lparr>stores := (stores w)(dd := s)\<rparr>"

definition lgpt_read :: "part_ref \<Rightarrow> nat \<Rightarrow> nat \<Rightarrow> 'd pt_world \<Rightarrow> (int \<times> u8 list \<times> 'd pt_world) option" where
  "lgpt_read part addr sz w =
     (if w32 (addr + sz) > part_len part w then Some (- EINVAL, [], w)
      else Option.bind (disk_device_find_by_part part w) (\<lambda>dd.
        if dd = 0 then Some (- EINVAL, [], w)
        else map_option (\<lambda>(r, xs, s). (r, xs, set_store dd s w))
               (simple_blkdev_read (disk_tab (reg w) dd) sz (w32 (part_offset part w + addr)) (stores w dd))))"

definition lgpt_write :: "part_ref \<Rightarrow> nat \<Rightarrow> u8 list \<Rightarrow> 'd pt_world \<Rightarrow> (int \<times> 'd pt_world) option" where
  "lgpt_write part addr buf w =
     (if w32 (addr + length buf) > part_len part w then Some (- EINVAL, w)
      else Option.bind (disk_device_find_by_part part w) (\<lambda>dd.
        if dd = 0 then Some (- EINVAL, w)
        else map_option (\<lambda>(r, s). (r, set_store dd s w))
               (simple_blkdev_write (disk_tab (reg w) dd) buf (w32 (part_offset part w + addr)) (stores w dd))))"

definition lgpt_get_block_size :: "part_ref \<Rightarrow> 'd pt_world \<Rightarrow> (int \<times> nat) option" where
  "lgpt_get_block_size part w =
     Option.bind (disk_device_find_by_part part w) (\<lambda>dd.
       if dd = 0 then Some (- EINVAL, 0) else Some (0, blk_size (disk_tab (reg w) dd)))"

definition disk_partition_read :: "part_ref \<Rightarrow> nat \<Rightarrow> nat \<Rightarrow> 'd pt_world \<Rightarrow> (int \<times> u8 list) option" where
  "disk_partition_read part addr sz w =
     (if w32 (addr + sz) > part_len part w then Some (- EINVAL, [])
      else Option.bind (disk_device_find_by_part part w) (\<lambda>dd.
        if dd = 0 then Some (- EINVAL, [])
        else Some (disk_device_read (disk_tab (reg w) dd) sz (w32 (part_offset part w + addr)) (snd (stores w dd)))))"

definition disk_partition_write :: "part_ref \<Rightarrow> nat \<Rightarrow> u8 list \<Rightarrow> 'd pt_world \<Rightarrow> (int \<times> 'd pt_world) option" where
  "disk_partition_write part addr buf w =
     (if w32 (addr + length buf) > part_len part w then Some (- EINVAL, w)
      else Option.bind (disk_device_find_by_part part w) (\<lambda>dd.
        if dd = 0 then Some (- EINVAL, w)
        else let (r, d) = disk_device_write (disk_tab (reg w) dd) buf (w32 (part_offset part w + addr)) (snd (stores w dd))
             in Some (r, set_store dd (fst (stores w dd), d) w)))"

text \<open>The assertion is on a signed value.\<close>

definition disk_partition_erase :: "part_ref \<Rightarrow> nat \<Rightarrow> nat \<Rightarrow> 'd pt_world \<Rightarrow> (int \<times> 'd pt_world) option" where
  "disk_partition_erase part addr sz w =
     (if w32 (addr + sz) > part_len part w then Some (- EINVAL, w)
      else Option.bind (disk_device_find_by_part part w) (\<lambda>dd.
        if dd = 0 then Some (- EINVAL, w)
        else
          let ofs = w32 (part_offset part w + addr)
          in if \<not> (0 < ofs \<and> ofs < 2147483648) then None
             else let (r, d) = disk_device_erase (disk_tab (reg w) dd) ofs sz (snd (stores w dd))
                  in Some (r, set_store dd (fst (stores w dd), d) w)))"

definition disk_partition_erase_all :: "part_ref \<Rightarrow> 'd pt_world \<Rightarrow> (int \<times> 'd pt_world) option" where
  "disk_partition_erase_all part w = disk_partition_erase part 0 (part_len part w) w"

text \<open>
  \<open>mem\<close> says whether \<open>general_malloc\<close> returns memory. The loop opens the disk of the first entry every
  time.
\<close>

definition disk_partition_register :: "bool \<Rightarrow> disk_partition list \<Rightarrow> 'd pt_world \<Rightarrow> int \<times> 'd pt_world" where
  "disk_partition_register mem pt w =
     (if pt = [] then (- EINVAL, w)
      else if \<not> mem then (- ENOMEM, w)
      else
        let opened = map (\<lambda>_. disk_device_open (pparent (pt ! 0)) (reg w)) pt
        in if \<exists>x\<in>set opened. fst x \<noteq> 0 then (- EIO, w)
           else (0, w\<lparr>parition_disk_cache := map snd opened, partition_table := pt\<rparr>))"

text \<open>What entry \<open>i\<close> needs for its accesses to reach its own range of the disk.\<close>

definition entry_ok :: "('d \<Rightarrow> mem) \<Rightarrow> 'd pt_world \<Rightarrow> nat \<Rightarrow> bool" where
  "entry_ok contents w i \<longleftrightarrow> i < length (partition_table w) \<and> i < length (parition_disk_cache w) \<and>
     parition_disk_cache w ! i \<noteq> 0 \<and>
     flash_disk (disk_tab (reg w) (parition_disk_cache w ! i)) contents \<and>
     poffset (partition_table w ! i) + plen (partition_table w ! i) \<le>
       dlen (disk_tab (reg w) (parition_disk_cache w ! i))"

section \<open>Lemmas\<close>

lemma find_by_entry:
  "entry_ok contents w i \<Longrightarrow> disk_device_find_by_part (Entry i) w = Some (parition_disk_cache w ! i)"
  by (simp add: entry_ok_def disk_device_find_by_part_def)

lemma entry_small:
  assumes "entry_ok contents w i" "addr + n \<le> part_len (Entry i) w"
  shows "w32 (addr + n) = addr + n" "w32 (part_offset (Entry i) w + addr) = part_offset (Entry i) w + addr"
    "part_offset (Entry i) w + addr + n \<le> dlen (disk_tab (reg w) (parition_disk_cache w ! i))"
proof -
  let ?dd = "disk_tab (reg w) (parition_disk_cache w ! i)"
  have l: "dlen ?dd < 2147483648" using assms(1) flash_disk.len_int by (auto simp: entry_ok_def)
  have "poffset (partition_table w ! i) + plen (partition_table w ! i) \<le> dlen ?dd"
    using assms(1) by (simp add: entry_ok_def)
  then show "w32 (addr + n) = addr + n" "w32 (part_offset (Entry i) w + addr) = part_offset (Entry i) w + addr"
    "part_offset (Entry i) w + addr + n \<le> dlen ?dd"
    using assms(2) l by (simp_all add: part_offset_def part_len_def)
qed

lemma lgpt_write_in:
  assumes "entry_ok contents w i" "addr + length xs \<le> part_len (Entry i) w"
    and "blk_rep (disk_tab (reg w) (parition_disk_cache w ! i)) contents (stores w (parition_disk_cache w ! i)) v"
  shows "\<exists>s. lgpt_write (Entry i) addr xs w =
      Some (int (length xs), set_store (parition_disk_cache w ! i) s w) \<and>
    blk_rep (disk_tab (reg w) (parition_disk_cache w ! i)) contents s
      (mem_write v (part_offset (Entry i) w + addr) xs)"
proof -
  have F: "flash_disk (disk_tab (reg w) (parition_disk_cache w ! i)) contents" "parition_disk_cache w ! i \<noteq> 0"
    using assms(1) by (simp_all add: entry_ok_def)
  note S = entry_small [OF assms(1,2)]
  obtain s where "simple_blkdev_write (disk_tab (reg w) (parition_disk_cache w ! i)) xs
      (part_offset (Entry i) w + addr) (stores w (parition_disk_cache w ! i)) = Some (int (length xs), s)"
    "blk_rep (disk_tab (reg w) (parition_disk_cache w ! i)) contents s (mem_write v (part_offset (Entry i) w + addr) xs)"
    using flash_disk.simple_blkdev_write_rep [OF F(1) assms(3) S(3)] by blast
  then show ?thesis using find_by_entry [OF assms(1)] F(2) S assms(2)
    by (intro exI [of _ s]) (simp add: lgpt_write_def)
qed

lemma lgpt_read_rep:
  assumes "entry_ok contents w i" "addr + n \<le> part_len (Entry i) w"
    and "blk_rep (disk_tab (reg w) (parition_disk_cache w ! i)) contents (stores w (parition_disk_cache w ! i)) v"
  shows "\<exists>s. lgpt_read (Entry i) addr n w =
      Some (int n, mem_read v (part_offset (Entry i) w + addr) n, set_store (parition_disk_cache w ! i) s w) \<and>
    blk_rep (disk_tab (reg w) (parition_disk_cache w ! i)) contents s v"
proof -
  have F: "flash_disk (disk_tab (reg w) (parition_disk_cache w ! i)) contents" "parition_disk_cache w ! i \<noteq> 0"
    using assms(1) by (simp_all add: entry_ok_def)
  note S = entry_small [OF assms(1,2)]
  obtain s where "simple_blkdev_read (disk_tab (reg w) (parition_disk_cache w ! i)) n
      (part_offset (Entry i) w + addr) (stores w (parition_disk_cache w ! i)) =
      Some (int n, mem_read v (part_offset (Entry i) w + addr) n, s)"
    "blk_rep (disk_tab (reg w) (parition_disk_cache w ! i)) contents s v"
    using flash_disk.simple_blkdev_read_rep [OF F(1) assms(3) S(3)] by blast
  then show ?thesis using find_by_entry [OF assms(1)] F(2) S assms(2)
    by (intro exI [of _ s]) (simp add: lgpt_read_def)
qed

lemma lgpt_read_in:
  assumes "entry_ok contents w i" "addr + n \<le> part_len (Entry i) w"
    and "blk_rep (disk_tab (reg w) (parition_disk_cache w ! i)) contents (stores w (parition_disk_cache w ! i)) v"
  shows "\<exists>w'. lgpt_read (Entry i) addr n w = Some (int n, mem_read v (part_offset (Entry i) w + addr) n, w')"
  using lgpt_read_rep [OF assms] by blast

lemma set_store_simps [simp]:
  "partition_table (set_store k s w) = partition_table w" "reg (set_store k s w) = reg w"
  "parition_disk_cache (set_store k s w) = parition_disk_cache w"
  "stores (set_store k s w) = (stores w)(k := s)"
  "part_offset p (set_store k s w) = part_offset p w" "part_len p (set_store k s w) = part_len p w"
  "entry_ok contents (set_store k s w) i = entry_ok contents w i"
  by (simp_all add: set_store_def part_offset_def part_len_def entry_ok_def split: part_ref.split)

text \<open>A partition is a byte store of its own: \<open>v\<close> are its bytes, from address 0 on.\<close>

definition part_rep :: "('d \<Rightarrow> mem) \<Rightarrow> nat \<Rightarrow> nat \<Rightarrow> 'd pt_world \<Rightarrow> mem \<Rightarrow> bool" where
  "part_rep contents i n w v \<longleftrightarrow> entry_ok contents w i \<and> part_len (Entry i) w = n \<and>
     (\<exists>u. blk_rep (disk_tab (reg w) (parition_disk_cache w ! i)) contents (stores w (parition_disk_cache w ! i)) u \<and>
       (\<forall>a<n. v a = u (part_offset (Entry i) w + a)))"

lemma part_rep_write:
  assumes "part_rep contents i n w v" "off + length xs \<le> n"
  shows "\<exists>w'. lgpt_write (Entry i) off xs w = Some (int (length xs), w') \<and> part_rep contents i n w' (mem_write v off xs)"
proof -
  let ?k = "parition_disk_cache w ! i" and ?o = "part_offset (Entry i) w"
  obtain u where u: "blk_rep (disk_tab (reg w) ?k) contents (stores w ?k) u" "\<forall>a<n. v a = u (?o + a)"
    using assms(1) by (auto simp: part_rep_def)
  have e: "entry_ok contents w i" "off + length xs \<le> part_len (Entry i) w" "part_len (Entry i) w = n"
    using assms by (simp_all add: part_rep_def)
  obtain s where s: "lgpt_write (Entry i) off xs w = Some (int (length xs), set_store ?k s w)"
    "blk_rep (disk_tab (reg w) ?k) contents s (mem_write u (?o + off) xs)"
    using lgpt_write_in [OF e(1,2) u(1)] by blast
  have "\<forall>a<n. mem_write v off xs a = mem_write u (?o + off) xs (?o + a)"
    using u(2) by (auto simp: mem_write_def)
  then have "part_rep contents i n (set_store ?k s w) (mem_write v off xs)"
    unfolding part_rep_def using s(2) e by (intro conjI exI [of _ "mem_write u (?o + off) xs"]) simp_all
  then show ?thesis using s(1) by blast
qed

lemma part_rep_read:
  assumes "part_rep contents i n w v" "off + m \<le> n"
  shows "\<exists>w'. lgpt_read (Entry i) off m w = Some (int m, mem_read v off m, w') \<and> part_rep contents i n w' v"
proof -
  let ?k = "parition_disk_cache w ! i" and ?o = "part_offset (Entry i) w"
  obtain u where u: "blk_rep (disk_tab (reg w) ?k) contents (stores w ?k) u" "\<forall>a<n. v a = u (?o + a)"
    using assms(1) by (auto simp: part_rep_def)
  have e: "entry_ok contents w i" "off + m \<le> part_len (Entry i) w" "part_len (Entry i) w = n"
    using assms by (simp_all add: part_rep_def)
  obtain s where s: "lgpt_read (Entry i) off m w = Some (int m, mem_read u (?o + off) m, set_store ?k s w)"
    "blk_rep (disk_tab (reg w) ?k) contents s u"
    using lgpt_read_rep [OF e(1,2) u(1)] by blast
  have "mem_read u (?o + off) m = mem_read v off m"
    using u(2) assms(2) by (simp add: mem_read_eq_iff add.assoc)
  moreover have "part_rep contents i n (set_store ?k s w) v"
    unfolding part_rep_def using s(2) e u(2) by (intro conjI exI [of _ u]) simp_all
  ultimately show ?thesis using s(1) by auto
qed

interpretation part: byte_store "part_rep contents i n" n "\<lambda>xs off. lgpt_write (Entry i) off xs"
  "\<lambda>m off. lgpt_read (Entry i) off m" for contents i n
  by unfold_locales (rule part_rep_write part_rep_read, assumption+)+

section \<open>Properties\<close>

text \<open>
  C7. Partitions are isolated: a write inside partition \<open>i\<close> returns its length and reads back, and
  what any partition \<open>j\<close> that does not overlap it on the disk, or is on another disk, returns for a
  read is the same before and after.
\<close>

theorem partition_isolation:
  assumes "entry_ok contents w i" "addr + length xs \<le> part_len (Entry i) w"
    and "entry_ok contents w j" "p + n \<le> part_len (Entry j) w"
    and "\<forall>k. k = parition_disk_cache w ! i \<or> k = parition_disk_cache w ! j \<longrightarrow>
           blk_rep (disk_tab (reg w) k) contents (stores w k) (v k)"
    and "parition_disk_cache w ! i \<noteq> parition_disk_cache w ! j \<or>
         part_offset (Entry i) w + part_len (Entry i) w \<le> part_offset (Entry j) w \<or>
         part_offset (Entry j) w + part_len (Entry j) w \<le> part_offset (Entry i) w"
  shows "\<exists>w'. lgpt_write (Entry i) addr xs w = Some (int (length xs), w') \<and>
    (\<exists>w2. lgpt_read (Entry i) addr (length xs) w' = Some (int (length xs), xs, w2)) \<and>
    (\<exists>ys w2 w3. lgpt_read (Entry j) p n w = Some (int n, ys, w2) \<and> lgpt_read (Entry j) p n w' = Some (int n, ys, w3))"
proof -
  let ?k = "parition_disk_cache w ! i" and ?l = "parition_disk_cache w ! j"
  have V: "blk_rep (disk_tab (reg w) ?k) contents (stores w ?k) (v ?k)"
    "blk_rep (disk_tab (reg w) ?l) contents (stores w ?l) (v ?l)"
    using assms(5) by simp_all
  obtain s where s: "lgpt_write (Entry i) addr xs w = Some (int (length xs), set_store ?k s w)"
    "blk_rep (disk_tab (reg w) ?k) contents s (mem_write (v ?k) (part_offset (Entry i) w + addr) xs)"
    using lgpt_write_in [OF assms(1,2) V(1)] by blast
  let ?w = "set_store ?k s w"
  have 1: "\<exists>w2. lgpt_read (Entry i) addr (length xs) ?w = Some (int (length xs), xs, w2)"
    using lgpt_read_in [of contents ?w i addr "length xs" "mem_write (v ?k) (part_offset (Entry i) w + addr) xs"]
      assms(1,2) s(2) by (simp add: mem_read_write_same)
  have "\<exists>w2. lgpt_read (Entry j) p n ?w = Some (int n, mem_read (v ?l) (part_offset (Entry j) w + p) n, w2)"
  proof (cases "?k = ?l")
    case True
    then have "mem_read (mem_write (v ?k) (part_offset (Entry i) w + addr) xs) (part_offset (Entry j) w + p) n =
        mem_read (v ?k) (part_offset (Entry j) w + p) n"
      using assms(2,4,6) by (intro mem_read_write_disjoint) auto
    then show ?thesis
      using lgpt_read_in [of contents ?w j p n "mem_write (v ?k) (part_offset (Entry i) w + addr) xs"]
        assms(3,4) s(2) True by simp
  next
    case False
    then show ?thesis using lgpt_read_in [of contents ?w j p n] assms(3,4) V(2) by simp
  qed
  then show ?thesis using s(1) 1 lgpt_read_in [OF assms(3,4) V(2)] by blast
qed

text \<open>Two partitions of a virtual flash.\<close>

definition example_pt :: "mem pt_world" where
  "example_pt = \<lparr>partition_table =
      [\<lparr>pname = ''boot'', pparent = ''virtual-flash'', poffset = 0, plen = 4096, pchild = []\<rparr>,
       \<lparr>pname = ''data'', pparent = ''virtual-flash'', poffset = 4096, plen = 8192,
        pchild = [(''log'', ''data'', 4096, 2048)]\<rparr>],
    parition_disk_cache = [1, 1], reg = example_disks, stores = (\<lambda>_. (example_bdev, \<lambda>_. 0xFF))\<rparr>"

theorem partition_isolation_witness:
  "\<exists>w'. lgpt_write (Entry 0) 10 [1, 2] example_pt = Some (2, w') \<and>
     (\<exists>w2. lgpt_read (Entry 0) 10 2 w' = Some (2, [1, 2], w2))"
proof -
  have e: "entry_ok (\<lambda>m. m) example_pt 0" "entry_ok (\<lambda>m. m) example_pt 1"
    using vflash.flash_disk_axioms by (simp_all add: entry_ok_def example_pt_def example_disks_def) (simp_all add: vdisk_def)
  have d: "disk_tab (reg example_pt) = (\<lambda>_. vdisk)" "stores example_pt = (\<lambda>_. (example_bdev, \<lambda>_. 0xFF))"
    by (simp_all add: example_pt_def example_disks_def)
  from partition_isolation [OF e(1) _ e(2), of 10 "[1, 2]" 0 4 "\<lambda>_ _. 0xFF"] example_blk_rep
  show ?thesis unfolding d by (simp add: example_pt_def part_len_def part_offset_def numeral_2_eq_2) blast
qed

lemma partition_find_first_parts:
  assumes "partition_table w = dps @ dp # rest" "CHR ''/'' \<notin> set name"
  shows "name = pname dp \<Longrightarrow> \<forall>x\<in>set dps. pname x \<noteq> name \<Longrightarrow>
      disk_partition_find name w = Found (Entry (length dps))"
    and "take (length name) (pname dp) = name \<Longrightarrow> \<forall>x\<in>set dps. take (length name) (pname x) \<noteq> name \<Longrightarrow>
      pchild dp = cs @ c # cs' \<Longrightarrow> \<forall>x\<in>set cs. fst x \<noteq> fst c \<Longrightarrow>
      disk_partition_find (name @ ''/'' @ fst c) w = Found (Child (length dps) (length cs))"
proof -
  have sl: "strchr_slash name = None" "strchr_slash (name @ ''/'' @ cn) = Some (length name)" for cn
    using assms(2) by (induction name) auto
  have ch: "match_child (fst c) (cs @ c # cs') j = Some (j + length cs)" if "\<forall>x\<in>set cs. fst x \<noteq> fst c" for j
    using that by (induction cs arbitrary: j) auto
  have e: "match_loop name None (dps @ dp # rest) i = Found (Entry (i + length dps))"
    if "name = pname dp" "\<forall>x\<in>set dps. pname x \<noteq> name" for i
    using that(2) by (induction dps arbitrary: i) (auto simp: that(1))
  then show "disk_partition_find name w = Found (Entry (length dps))"
    if "name = pname dp" "\<forall>x\<in>set dps. pname x \<noteq> name"
    using that assms(1) sl(1) by (simp add: disk_partition_find_def partition_match_def)
  have "match_loop (name @ ''/'' @ fst c) (Some (length name)) (dps @ dp # rest) i = Found (Child (i + length dps) (length cs))"
    if "take (length name) (pname dp) = name" "\<forall>x\<in>set dps. take (length name) (pname x) \<noteq> name"
      "pchild dp = cs @ c # cs'" "\<forall>x\<in>set cs. fst x \<noteq> fst c" for i
    using that(2)
  proof (induction dps arbitrary: i)
    case Nil
    have "drop (Suc (length name)) (name @ ''/'' @ fst c) = fst c" by simp
    then show ?case using that(1,3) ch [OF that(4)] by simp
  next
    case (Cons x dps)
    then have "name \<noteq> take (length name) (pname x)" by auto
    then show ?case using Cons by simp
  qed
  then show "disk_partition_find (name @ ''/'' @ fst c) w = Found (Child (length dps) (length cs))"
    if "take (length name) (pname dp) = name" "\<forall>x\<in>set dps. take (length name) (pname x) \<noteq> name"
      "pchild dp = cs @ c # cs'" "\<forall>x\<in>set cs. fst x \<noteq> fst c"
    using that assms(1) sl(2) by (simp add: disk_partition_find_def partition_match_def)
qed

text \<open>
  The lookup of a name without a slash gives the first entry with that name, and of a path the
  child of the first entry whose name begins with the part before the slash, when that entry has it.
\<close>

theorem partition_find_first:
  assumes "partition_table w = dps @ dp # rest" "CHR ''/'' \<notin> set name"
  shows "(name = pname dp \<longrightarrow> (\<forall>x\<in>set dps. pname x \<noteq> name) \<longrightarrow>
      disk_partition_find name w = Found (Entry (length dps))) \<and>
    (take (length name) (pname dp) = name \<longrightarrow> (\<forall>x\<in>set dps. take (length name) (pname x) \<noteq> name) \<longrightarrow>
      pchild dp = cs @ c # cs' \<longrightarrow> (\<forall>x\<in>set cs. fst x \<noteq> fst c) \<longrightarrow>
      disk_partition_find (name @ ''/'' @ fst c) w = Found (Child (length dps) (length cs)))"
  using partition_find_first_parts [OF assms] by blast

theorem partition_find_first_witness:
  "disk_partition_find ''data/log'' example_pt = Found (Child 1 0)"
proof -
  let ?dp = "\<lambda>i. partition_table example_pt ! i"
  have t: "partition_table example_pt = [?dp 0] @ ?dp 1 # []" by (simp add: example_pt_def)
  show ?thesis
    using partition_find_first [OF t, of "''data''" "[]" "(''log'', ''data'', 4096, 2048)" "[]"]
    by (simp add: example_pt_def)
qed

end
