(* ===== verification/Gpt.thy ===== *)
theory Gpt
  imports Disk
begin

text \<open>
  The global partition table of \<open>dev/gpt.c\<close>, built from a JSON description, and \<open>strlcpy\<close> of
  \<open>lib/libstring.c\<close>. The JSON library is third-party code: its parser is a parameter, and what it
  returns is a tree whose nodes are read the way \<open>cJSON_GetObjectItemCaseSensitive\<close>,
  \<open>cJSON_GetStringValue\<close>, \<open>cJSON_ArrayForEach\<close> and \<open>cJSON_GetArraySize\<close> are documented. Offsets and
  sizes are 32-bit values.
\<close>

section \<open>Definitions\<close>

text \<open>Items of an object have a key, items of an array have none.\<close>

datatype json = JString string | JNode "(string option \<times> json) list" | JOther

fun get_item :: "json \<Rightarrow> string \<Rightarrow> json option" where
  "get_item (JNode cs) key = map_option snd (find (\<lambda>c. fst c = Some key) cs)"
| "get_item _ key = None"

fun children :: "json \<Rightarrow> json list" where
  "children (JNode cs) = map snd cs"
| "children _ = []"

fun string_value :: "json \<Rightarrow> string option" where
  "string_value (JString s) = Some s"
| "string_value _ = None"

definition get_string :: "json \<Rightarrow> string \<Rightarrow> string option" where
  "get_string js s = Option.bind (get_item js s) string_value"

text \<open>\<open>strtoul\<close> with base 16 on a 32-bit target: blanks, a sign, an optional 0x, then digits.\<close>

definition hex_digit :: "char \<Rightarrow> nat option" where
  "hex_digit c =
     (let n = of_char c :: nat
      in if 48 \<le> n \<and> n \<le> 57 then Some (n - 48)
         else if 65 \<le> n \<and> n \<le> 70 then Some (n - 55)
         else if 97 \<le> n \<and> n \<le> 102 then Some (n - 87)
         else None)"

definition strtoul16 :: "string \<Rightarrow> nat" where
  "strtoul16 s =
     (let s = dropWhile (\<lambda>c. of_char c \<in> {32 :: nat, 9, 10, 11, 12, 13}) s;
          neg = (case s of c # _ \<Rightarrow> c = CHR ''-'' | [] \<Rightarrow> False);
          s = (case s of c # t \<Rightarrow> if c = CHR ''-'' \<or> c = CHR ''+'' then t else s | [] \<Rightarrow> s);
          s = (case s of a # b # c # t \<Rightarrow>
                 if a = CHR ''0'' \<and> (b = CHR ''x'' \<or> b = CHR ''X'') \<and> hex_digit c \<noteq> None then c # t else s
               | _ \<Rightarrow> s);
          v = foldl (\<lambda>a c. 16 * a + the (hex_digit c)) 0 (takeWhile (\<lambda>c. hex_digit c \<noteq> None) s)
      in if v > 4294967295 then 4294967295 else if neg then w32 (4294967296 - v) else v)"

definition get_value :: "json \<Rightarrow> string \<Rightarrow> nat option" where
  "get_value js s = map_option strtoul16 (get_string js s)"

text \<open>The characters that \<open>strlcpy\<close> copies before the terminator, and its result.\<close>

fun copy_left :: "nat \<Rightarrow> string \<Rightarrow> string" where
  "copy_left 0 src = []"
| "copy_left (Suc 0) src = []"
| "copy_left (Suc (Suc n)) [] = []"
| "copy_left (Suc (Suc n)) (c # src) = c # copy_left (Suc n) src"

definition strlcpy :: "string \<Rightarrow> nat \<Rightarrow> string \<times> nat" where
  "strlcpy src dsize = (copy_left dsize src, length src)"

record gpt_entry =
  gname :: string
  gparent :: string
  gfname :: string
  goffset :: nat
  gsize :: nat

record gp_table =
  gversion :: string
  gps :: "gpt_entry list"

record gpt_state =
  table :: "gp_table option"
  gp_notify :: bool
  notified :: nat

definition gpt_register_update_cb :: "bool \<Rightarrow> gpt_state \<Rightarrow> int \<times> gpt_state" where
  "gpt_register_update_cb cb s = (if cb then (0, s\<lparr>gp_notify := True\<rparr>) else (- EINVAL, s))"

definition gpt_find :: "string \<Rightarrow> gp_table \<Rightarrow> gpt_entry option" where
  "gpt_find name t = find (\<lambda>e. name = gname e) (gps t)"

definition gpt_find_by_filename :: "string \<Rightarrow> gp_table \<Rightarrow> gpt_entry option" where
  "gpt_find_by_filename fname t = find (\<lambda>e. fname = gfname e) (gps t)"

definition gpt_destroy :: "gpt_state \<Rightarrow> gpt_state" where
  "gpt_destroy s = (if table s \<noteq> None then s\<lparr>table := None\<rparr> else s)"

text \<open>The first loop: the keys every device needs, and the number of partitions.\<close>

fun count_parts :: "json list \<Rightarrow> nat \<Rightarrow> int + nat" where
  "count_parts [] count = Inr count"
| "count_parts (obj # objs) count =
     (if get_string obj ''name'' = None then Inl (- ENODATA)
      else if get_string obj ''storage'' = None then Inl (- ENODATA)
      else if get_string obj ''capacity'' = None then Inl (- ENODATA)
      else case get_item obj ''partitions'' of
        None \<Rightarrow> Inl (- ENODATA)
      | Some pte \<Rightarrow> count_parts objs (count + length (children pte)))"

text \<open>The partitions of one device.\<close>

fun parse_parts :: "string \<Rightarrow> json list \<Rightarrow> int + gpt_entry list" where
  "parse_parts storage [] = Inr []"
| "parse_parts storage (pte # ptes) =
     (case get_string pte ''label'' of None \<Rightarrow> Inl (- ENODATA)
      | Some label \<Rightarrow>
         (case get_value pte ''offset'' of None \<Rightarrow> Inl (- ENODATA)
          | Some offset \<Rightarrow>
             (case get_value pte ''size'' of None \<Rightarrow> Inl (- ENODATA)
              | Some sz \<Rightarrow>
                  let e = \<lparr>gname = fst (strlcpy label 32), gparent = fst (strlcpy storage 16),
                           gfname = (case get_string pte ''bin'' of Some bin \<Rightarrow> fst (strlcpy bin 36) | None \<Rightarrow> []),
                           goffset = offset, gsize = sz\<rparr>
                  in (case parse_parts storage ptes of Inl err \<Rightarrow> Inl err | Inr es \<Rightarrow> Inr (e # es)))))"

text \<open>The check of the partitions of one device, from the last one down.\<close>

fun check_parts :: "nat \<Rightarrow> gpt_entry list \<Rightarrow> bool" where
  "check_parts capacity [] = True"
| "check_parts capacity [e] = (\<not> w32 (goffset e + gsize e) > capacity)"
| "check_parts capacity (e # f # es) =
     (if w32 (goffset e + gsize e) > capacity then False
      else if w32 (goffset f + gsize f) > goffset e then False
      else check_parts capacity (f # es))"

text \<open>The second loop; the entries found so far, or the value of \<open>err\<close> at the jump out.\<close>

fun load_devs :: "json list \<Rightarrow> int + gpt_entry list" where
  "load_devs [] = Inr []"
| "load_devs (obj # objs) =
     (let storage = the (get_string obj ''storage'');
          capacity = (case get_value obj ''capacity'' of Some c \<Rightarrow> c | None \<Rightarrow> 0)
      in case parse_parts storage (children (the (get_item obj ''partitions''))) of
           Inl err \<Rightarrow> Inl err
         | Inr es \<Rightarrow>
             if \<not> check_parts capacity (rev es) then Inl 0
             else (case load_devs objs of Inl err \<Rightarrow> Inl err | Inr fs \<Rightarrow> Inr (es @ fs)))"

text \<open>\<open>mem\<close> says whether \<open>general_calloc\<close> returns memory.\<close>

definition gpt_load :: "(string \<Rightarrow> json option) \<Rightarrow> bool \<Rightarrow> string \<Rightarrow> gpt_state \<Rightarrow> int \<times> gpt_state" where
  "gpt_load cJSON_Parse mem buf s =
     (case cJSON_Parse buf of None \<Rightarrow> (- EINVAL, s)
      | Some root \<Rightarrow>
         (case get_item root ''devices'' of None \<Rightarrow> (- ENODATA, s)
          | Some devs \<Rightarrow>
             (case get_string root ''version'' of None \<Rightarrow> (- ENODATA, s)
              | Some version \<Rightarrow>
                 (case count_parts (children devs) 0 of Inl err \<Rightarrow> (err, s)
                  | Inr count \<Rightarrow>
                      if count = 0 then (- EINVAL, s)
                      else if \<not> mem then (- ENOMEM, s)
                      else case load_devs (children devs) of
                        Inl err \<Rightarrow> (err, s)
                      | Inr es \<Rightarrow>
                          let s = gpt_destroy s;
                              s = s\<lparr>table := Some \<lparr>gversion = fst (strlcpy version 12), gps = es\<rparr>\<rparr>
                          in (0, if gp_notify s then s\<lparr>notified := notified s + 1\<rparr> else s)))))"

definition gpt_signature :: "(gp_table \<Rightarrow> nat \<Rightarrow> int) option \<Rightarrow> gpt_state \<Rightarrow> int" where
  "gpt_signature signature s =
     (case signature of None \<Rightarrow> - EINVAL
      | Some f \<Rightarrow>
         (case table s of None \<Rightarrow> - EINVAL
          | Some t \<Rightarrow> if length (gps t) = 0 then - EINVAL else f t (16 + length (gps t) * 92)))"

text \<open>Partitions of a device: inside the capacity and one behind the other.\<close>

definition parts_ordered :: "nat \<Rightarrow> gpt_entry list \<Rightarrow> bool" where
  "parts_ordered capacity es \<longleftrightarrow>
     (\<forall>e\<in>set es. goffset e + gsize e \<le> capacity) \<and>
     (\<forall>i j. i < j \<longrightarrow> j < length es \<longrightarrow> goffset (es ! i) + gsize (es ! i) \<le> goffset (es ! j))"

definition no_wrap :: "gpt_entry list \<Rightarrow> bool" where
  "no_wrap es \<longleftrightarrow> (\<forall>e\<in>set es. goffset e + gsize e < 4294967296)"

section \<open>Lemmas\<close>

lemma copy_left_take: "copy_left n src = take (n - 1) src"
  by (induction n src rule: copy_left.induct) simp_all

lemma check_parts_sorted:
  assumes "check_parts capacity es" "no_wrap es"
  shows "(\<forall>e\<in>set es. goffset e + gsize e \<le> capacity) \<and>
    sorted_wrt (\<lambda>e f. goffset f + gsize f \<le> goffset e) es"
  using assms
proof (induction capacity es rule: check_parts.induct)
  case (3 capacity e f es)
  then have ih: "(\<forall>e\<in>set (f # es). goffset e + gsize e \<le> capacity)"
    "sorted_wrt (\<lambda>e f. goffset f + gsize f \<le> goffset e) (f # es)"
    by (auto simp: no_wrap_def split: if_splits)
  have "goffset e + gsize e \<le> capacity" "goffset f + gsize f \<le> goffset e"
    using 3 by (auto simp: no_wrap_def split: if_splits)
  then show ?case using ih by auto
qed (auto simp: no_wrap_def)

lemma check_parts_ordered:
  assumes "check_parts capacity (rev es)" "no_wrap es"
  shows "parts_ordered capacity es"
proof -
  have c: "\<forall>e\<in>set es. goffset e + gsize e \<le> capacity"
    and s: "sorted_wrt (\<lambda>e f. goffset e + gsize e \<le> goffset f) es"
    using check_parts_sorted [OF assms(1)] assms(2) by (simp_all add: no_wrap_def sorted_wrt_rev)
  then show ?thesis by (simp add: parts_ordered_def sorted_wrt_iff_nth_less)
qed

lemma load_devs_groups:
  "load_devs objs = Inr es \<Longrightarrow>
   \<exists>groups. es = concat (map snd groups) \<and> length groups = length objs \<and>
     (\<forall>(capacity, g)\<in>set groups. check_parts capacity (rev g))"
proof (induction objs arbitrary: es)
  case (Cons obj objs)
  let ?c = "case get_value obj ''capacity'' of Some c \<Rightarrow> c | None \<Rightarrow> 0"
  obtain g fs where g: "check_parts ?c (rev g)" "load_devs objs = Inr fs" "es = g @ fs"
    using Cons.prems by (auto simp: Let_def split: sum.splits if_splits)
  obtain groups where "fs = concat (map snd groups)" "length groups = length objs"
    "\<forall>(capacity, g)\<in>set groups. check_parts capacity (rev g)"
    using Cons.IH [OF g(2)] by blast
  then show ?case using g by (intro exI [of _ "(?c, g) # groups"]) auto
qed simp

lemma parse_parts_error: "parse_parts storage ptes = Inl err \<Longrightarrow> err = - ENODATA"
  by (induction ptes) (auto simp: Let_def split: option.splits sum.splits)

lemma load_devs_error: "load_devs objs = Inl err \<Longrightarrow> err = 0 \<or> err = - ENODATA"
proof (induction objs)
  case (Cons obj objs)
  then show ?case
    by (auto simp: Let_def split: sum.splits if_splits dest: parse_parts_error)
qed simp

section \<open>Properties\<close>


text \<open>One device of 16 kB with two partitions, and the same with a partition that is too long.\<close>

definition example_part :: "string \<Rightarrow> string \<Rightarrow> string \<Rightarrow> json" where
  "example_part label ofs sz = JNode [(Some ''label'', JString label), (Some ''offset'', JString ofs), (Some ''size'', JString sz)]"

definition example_json :: "string \<Rightarrow> json" where
  "example_json sz = JNode [(Some ''version'', JString ''1.0''), (Some ''devices'', JNode [(None,
     JNode [(Some ''name'', JString ''nor''), (Some ''storage'', JString ''spi''), (Some ''capacity'', JString ''0x4000''),
       (Some ''partitions'', JNode [(None, example_part ''boot'' ''0x0'' ''0x1000''), (None, example_part ''app'' ''0x1000'' sz)])])])]"

definition example_gpt :: gpt_state where
  "example_gpt = \<lparr>table = None, gp_notify = False, notified = 0\<rparr>"

lemma example_load:
  "gpt_load (\<lambda>b. Some (example_json b)) True ''0x2000'' example_gpt =
     (0, example_gpt\<lparr>table := Some \<lparr>gversion = ''1.0'', gps =
        [\<lparr>gname = ''boot'', gparent = ''spi'', gfname = [], goffset = 0, gsize = 4096\<rparr>,
         \<lparr>gname = ''app'', gparent = ''spi'', gfname = [], goffset = 4096, gsize = 8192\<rparr>]\<rparr>\<rparr>)"
  by (simp add: gpt_load_def example_json_def example_part_def example_gpt_def get_string_def get_value_def
      strtoul16_def hex_digit_def strlcpy_def gpt_destroy_def copy_left_take Let_def)


lemma gpt_load_rejects_parts:
  assumes "cJSON_Parse buf = Some root" "get_item root ''devices'' = Some devs"
    and "get_string root ''version'' = Some version" "count_parts (children devs) 0 = Inr count" "0 < count"
  shows "load_devs (children devs) = Inl err \<Longrightarrow> gpt_load cJSON_Parse True buf s = (err, s)"
    and "fst (gpt_load cJSON_Parse True buf s) \<noteq> 0 \<Longrightarrow> snd (gpt_load cJSON_Parse True buf s) = s"
    and "load_devs (children devs) = Inl err \<Longrightarrow> err = 0 \<or> err = - ENODATA"
proof -
  show "gpt_load cJSON_Parse True buf s = (err, s)" if "load_devs (children devs) = Inl err"
    using assms that by (simp add: gpt_load_def)
  show "snd (gpt_load cJSON_Parse True buf s) = s" if "fst (gpt_load cJSON_Parse True buf s) \<noteq> 0"
    using assms that by (auto simp: gpt_load_def Let_def split: sum.splits)
  show "err = 0 \<or> err = - ENODATA" if "load_devs (children devs) = Inl err"
    by (rule load_devs_error [OF that])
qed



end
