(* ===== verification/Disklog.thy ===== *)
theory Disklog
  imports Blkdev
begin

text \<open>
  The disk log of \<open>lib/disklog.c\<close> (without \<open>CONFIG_DISKLOG_BIO\<close>): a header block and a ring of bytes
  behind it in one partition, written and read through the macros \<open>blkdev_write\<close> and \<open>blkdev_read\<close>.
  These are parameters of the model; what the log relies on is the contract \<open>byte_store\<close> of
  \<open>Blkdev\<close>. One thread at a time: the mutex is free when an operation takes it. Offsets and sizes
  are 32-bit values. None is a loop that does not end
  or a failed assertion.
\<close>

section \<open>Definitions\<close>

record disk_log =
  magic :: nat
  start :: nat
  end_ofs :: nat
  dsize :: nat
  wr_ofs :: nat
  rd_ofs :: nat
  d_size :: nat

abbreviation (input) DISKLOG_MAGIC :: nat where "DISKLOG_MAGIC \<equiv> 0xabdcebcf"
abbreviation (input) DISLOG_SWAP_PERIOD :: nat where "DISLOG_SWAP_PERIOD \<equiv> 43200000"
abbreviation (input) LOG_SIZE :: nat where "LOG_SIZE \<equiv> 1024"

text \<open>The context (\<open>timer\<close>: the period the timer is armed with; \<open>obs_added\<close>: the observer is registered with the
  system), with the static \<open>rdlog\<close> and the state of the block device underneath.\<close>

record 's disklog_ctx =
  filp :: disk_log
  offset :: nat
  len :: nat
  blksz :: nat
  upload_pending :: bool
  read_locked :: bool
  log_dirty :: bool
  should_stop :: bool
  timer :: "nat option"
  obs_added :: bool
  rdlog :: disk_log
  bdev :: 's

type_synonym 's writer = "u8 list \<Rightarrow> nat \<Rightarrow> 's \<Rightarrow> (int \<times> 's) option"
type_synonym 's reader = "nat \<Rightarrow> nat \<Rightarrow> 's \<Rightarrow> (int \<times> u8 list \<times> 's) option"

abbreviation sub32 :: "nat \<Rightarrow> nat \<Rightarrow> nat" where "sub32 x y \<equiv> w32 (x + 4294967296 - y)"

definition disklog_reset_locked :: "'s disklog_ctx \<Rightarrow> 's disklog_ctx" where
  "disklog_reset_locked c =
     (let b = blksz c;
          sz = w32 ((sub32 (len c) b div b) * b)
      in c\<lparr>filp := \<lparr>magic = DISKLOG_MAGIC, start = b, end_ofs = w32 (b + sz), dsize = sz,
           wr_ofs = b, rd_ofs = b, d_size = 0\<rparr>\<rparr>)"

definition disklog_reset :: "'s disklog_ctx \<Rightarrow> 's disklog_ctx" where
  "disklog_reset c = disklog_reset_locked (c\<lparr>read_locked := False\<rparr>)"

text \<open>The header in memory: seven little-endian words.\<close>

definition log_words :: "disk_log \<Rightarrow> nat list" where
  "log_words f = [magic f, start f, end_ofs f, dsize f, wr_ofs f, rd_ofs f, d_size f]"

definition log_bytes :: "disk_log \<Rightarrow> u8 list" where
  "log_bytes f = pack [4, 4, 4, 4, 4, 4, 4] (log_words f)"

definition log_of_bytes :: "u8 list \<Rightarrow> disk_log" where
  "log_of_bytes bs = (let w = unpack [4, 4, 4, 4, 4, 4, 4] bs
     in \<lparr>magic = w ! 0, start = w ! 1, end_ofs = w ! 2, dsize = w ! 3, wr_ofs = w ! 4, rd_ofs = w ! 5, d_size = w ! 6\<rparr>)"

text \<open>\<open>sync\<close> is \<open>blkdev_sync\<close>; the results of both calls are ignored.\<close>

definition disklog_flush :: "'s writer \<Rightarrow> ('s \<Rightarrow> 's) \<Rightarrow> 's disklog_ctx \<Rightarrow> 's disklog_ctx option" where
  "disklog_flush wr sync c =
     Option.bind (wr (log_bytes (filp c)) (offset c) (bdev c)) (\<lambda>(_, s). Some (c\<lparr>bdev := sync s\<rparr>))"

text \<open>\<open>locked\<close>: the timed or the tried lock has been taken.\<close>

definition disklog_sync :: "'s writer \<Rightarrow> ('s \<Rightarrow> 's) \<Rightarrow> bool \<Rightarrow> 's disklog_ctx \<Rightarrow> 's disklog_ctx option" where
  "disklog_sync wr sync locked c =
     (if log_dirty c \<and> locked then disklog_flush wr sync (c\<lparr>log_dirty := False\<rparr>) else Some c)"

definition disklog_sync_listen :: "'s writer \<Rightarrow> ('s \<Rightarrow> 's) \<Rightarrow> bool \<Rightarrow> 's disklog_ctx \<Rightarrow> 's disklog_ctx option" where
  "disklog_sync_listen wr sync locked c = disklog_sync wr sync locked (c\<lparr>should_stop := True\<rparr>)"

definition disklog_swap :: "'s writer \<Rightarrow> ('s \<Rightarrow> 's) \<Rightarrow> bool \<Rightarrow> 's disklog_ctx \<Rightarrow> 's disklog_ctx option" where
  "disklog_swap wr sync locked c =
     map_option (\<lambda>c. c\<lparr>timer := Some DISLOG_SWAP_PERIOD\<rparr>) (disklog_sync wr sync locked c)"

text \<open>\<open>disklog_init\<close> for the partition at \<open>off\<close> with \<open>n\<close> bytes on a disk with blocks of \<open>b\<close> bytes.\<close>

definition disklog_init ::
  "'s reader \<Rightarrow> nat \<Rightarrow> nat \<Rightarrow> nat \<Rightarrow> bool \<Rightarrow> 's disklog_ctx \<Rightarrow> (int \<times> bool \<times> 's disklog_ctx) option" where
  "disklog_init rd off n b initialized c =
     (if initialized then Some (0, initialized, c)
      else
        let c = c\<lparr>blksz := b, offset := off, len := n\<rparr>
        in Option.bind (rd 28 (offset c) (bdev c)) (\<lambda>(ret, bs, s).
             let c = c\<lparr>bdev := s\<rparr>
             in if ret < 0 then None
                else
                  let c = c\<lparr>filp := log_of_bytes bs\<rparr>;
                      c = (if magic (filp c) \<noteq> DISKLOG_MAGIC then disklog_reset_locked c else c)
                  in Some (0, True, c\<lparr>log_dirty := False, obs_added := True, timer := Some DISLOG_SWAP_PERIOD\<rparr>)))"

text \<open>The write loop: the code, the write offset, what remains, and the store.\<close>

partial_function (option) input_loop ::
  "'s writer \<Rightarrow> disk_log \<Rightarrow> nat \<Rightarrow> u8 list \<Rightarrow> nat \<Rightarrow> 's \<Rightarrow> (int \<times> nat \<times> u8 list \<times> 's) option" where
  "input_loop wr f ofs buf w s =
     (if buf = [] then Some (0, w, buf, s)
      else
        let bytes = min (sub32 (end_ofs f) w) (length buf)
        in Option.bind (wr (take bytes buf) (w32 (ofs + w)) s) (\<lambda>(ret, s).
             if ret < 0 then Some (ret, w, buf, s)
             else
               let w = w32 (w + bytes)
               in input_loop wr f ofs (drop bytes buf) (if w \<ge> end_ofs f then start f else w) s))"

definition disklog_input :: "'s writer \<Rightarrow> u8 list \<Rightarrow> 's disklog_ctx \<Rightarrow> (int \<times> 's disklog_ctx) option" where
  "disklog_input wr buf c =
     (if buf = [] then Some (- EINVAL, c)
      else if read_locked c then Some (- EBUSY, c)
      else
        let f = filp c
        in Option.bind (input_loop wr f (offset c) buf (wr_ofs f) (bdev c)) (\<lambda>(ret, w, rest, s).
             let f = (if ret < 0 then f
                      else
                        let f = f\<lparr>d_size := w32 (d_size f + (length buf - length rest))\<rparr>
                        in if d_size f > dsize f then f\<lparr>d_size := dsize f, rd_ofs := w\<rparr> else f);
                 f = f\<lparr>wr_ofs := w\<rparr>
             in Some (if ret < 0 then ret else 0, c\<lparr>filp := f, log_dirty := True, bdev := s\<rparr>)))"

text \<open>The upload loop; \<open>output\<close> is the callback on its context.\<close>

partial_function (option) output_loop ::
  "'s reader \<Rightarrow> (u8 list \<Rightarrow> 'c \<Rightarrow> bool \<times> 'c) \<Rightarrow> disk_log \<Rightarrow> nat \<Rightarrow> bool \<Rightarrow> nat \<Rightarrow> int \<Rightarrow> nat \<Rightarrow> nat \<Rightarrow> 's \<Rightarrow> 'c \<Rightarrow>
   (bool \<times> int \<times> nat \<times> 's \<times> 'c) option" where
  "output_loop rd output f ofs stop maxsize ret remain r s x =
     (if remain = 0 then Some (True, ret, r, s, x)
      else if stop then Some (False, ret, r, s, x)
      else
        let bytes = min (min (sub32 (end_ofs f) r) remain) maxsize
        in Option.bind (rd bytes (w32 (ofs + r)) s) (\<lambda>(ret, bs, s).
             if ret \<le> 0 then Some (False, ret, r, s, x)
             else
               let (ok, x) = output bs x
               in if \<not> ok then Some (False, - EIO, r, s, x)
                  else
                    let r = w32 (r + bytes)
                    in output_loop rd output f ofs stop maxsize ret (remain - bytes)
                         (if r \<ge> end_ofs f then start f else r) s x))"

definition disklog_ouput ::
  "'s reader \<Rightarrow> (u8 list \<Rightarrow> 'c \<Rightarrow> bool \<times> 'c) \<Rightarrow> bool \<Rightarrow> nat \<Rightarrow> 's disklog_ctx \<Rightarrow> 'c \<Rightarrow>
   (int \<times> 's disklog_ctx \<times> 'c) option" where
  "disklog_ouput rd output mem maxsize c x =
     (if upload_pending c then Some (- EBUSY, c, x)
      else
        let maxsize = (if maxsize = 0 then LOG_SIZE else maxsize)
        in if \<not> mem then Some (- ENOMEM, c, x)
           else
             let f = filp c
             in Option.bind (output_loop rd output f (offset c) (should_stop c) maxsize 0 (d_size f) (rd_ofs f) (bdev c) x)
                  (\<lambda>(fin, ret, r, s, x).
                    let c = c\<lparr>bdev := s\<rparr>
                    in if fin then Some (0, c\<lparr>filp := f\<lparr>rd_ofs := r, wr_ofs := r, d_size := 0\<rparr>\<rparr>, x)
                       else Some (ret, c, x)))"

text \<open>
  \<open>disklog_read\<close>: every chunk goes to the beginning of the buffer, and the code of the last one is
  returned.
\<close>

partial_function (option) read_chunks ::
  "'s reader \<Rightarrow> disk_log \<Rightarrow> nat \<Rightarrow> int \<Rightarrow> nat \<Rightarrow> nat \<Rightarrow> nat \<Rightarrow> u8 list \<Rightarrow> 's \<Rightarrow>
   (bool \<times> int \<times> nat \<times> nat \<times> u8 list \<times> 's) option" where
  "read_chunks rd f ofs ret remain sz r buf s =
     (if remain = 0 then Some (True, ret, sz, r, buf, s)
      else
        let bytes = min (sub32 (end_ofs f) r) remain
        in Option.bind (rd bytes (w32 (ofs + r)) s) (\<lambda>(ret, bs, s).
             let buf = buf_write buf 0 bs
             in if ret \<le> 0 then Some (False, ret, sz, r, buf, s)
                else
                  let r = w32 (r + bytes)
                  in read_chunks rd f ofs ret (remain - bytes) (sz - bytes)
                       (if r \<ge> end_ofs f then start f else r) buf s))"

definition disklog_read ::
  "'s reader \<Rightarrow> u8 list \<Rightarrow> bool \<Rightarrow> 's disklog_ctx \<Rightarrow> (int \<times> u8 list \<times> 's disklog_ctx) option" where
  "disklog_read rd buf first c =
     (if buf = [] then Some (- EINVAL, buf, c)
      else
        let c = (if first then c\<lparr>rdlog := filp c\<rparr> else c);
            f = rdlog c
        in Option.bind (read_chunks rd f (offset c) 0 (min (length buf) (d_size f)) (d_size f) (rd_ofs f) buf (bdev c))
             (\<lambda>(fin, ret, sz, r, buf, s).
               let c = c\<lparr>bdev := s\<rparr>
               in Some (ret, buf, if fin then c\<lparr>rdlog := f\<lparr>rd_ofs := r, d_size := sz\<rparr>\<rparr> else c)))"

text \<open>The struct of upload callbacks: each may be NULL; the context is threaded through.\<close>

record 'c log_upload_class =
  luc_begin :: "('c \<Rightarrow> 'c) option"
  luc_upload :: "(u8 list \<Rightarrow> 'c \<Rightarrow> bool \<times> 'c) option"
  luc_end :: "(int \<Rightarrow> 'c \<Rightarrow> 'c) option"
  luc_maxsize :: nat

definition disklog_upload_cb ::
  "'s reader \<Rightarrow> bool \<Rightarrow> 'c log_upload_class option \<Rightarrow> 's disklog_ctx \<Rightarrow> 'c \<Rightarrow> ('s disklog_ctx \<times> 'c) option" where
  "disklog_upload_cb rd mem luc c x =
     (case luc of None \<Rightarrow> Some (c, x)
      | Some l \<Rightarrow> (case luc_upload l of None \<Rightarrow> Some (c, x)
        | Some upload \<Rightarrow>
            let x = (case luc_begin l of None \<Rightarrow> x | Some f \<Rightarrow> f x)
            in Option.bind (disklog_ouput rd upload mem (luc_maxsize l) c x) (\<lambda>(err, c, x).
                 Some (c, case luc_end l of None \<Rightarrow> x | Some f \<Rightarrow> f err x))))"

definition disklog_read_lock :: "bool \<Rightarrow> 's disklog_ctx \<Rightarrow> int \<times> 's disklog_ctx" where
  "disklog_read_lock enable c = (0, c\<lparr>read_locked := enable\<rparr>)"

text \<open>
  What the log holds: the ring of \<open>size\<close> bytes behind the header, from the read offset on, over
  the bytes \<open>v\<close> of the store with \<open>cap\<close> bytes.
\<close>

definition log_ok :: "nat \<Rightarrow> 's disklog_ctx \<Rightarrow> bool" where
  "log_ok cap c \<longleftrightarrow> (let f = filp c in
     0 < dsize f \<and> end_ofs f = start f + dsize f \<and> start f \<le> rd_ofs f \<and> rd_ofs f < end_ofs f \<and>
     d_size f \<le> dsize f \<and> 28 \<le> start f \<and>
     wr_ofs f = start f + (rd_ofs f - start f + d_size f) mod dsize f \<and>
     offset c + end_ofs f \<le> cap \<and> cap < 4294967296)"

definition ring_at :: "mem \<Rightarrow> nat \<Rightarrow> nat \<Rightarrow> nat \<Rightarrow> nat \<Rightarrow> u8 list" where
  "ring_at v A sz p n = map (\<lambda>i. v (A + (p + i) mod sz)) [0..<n]"

definition log_data :: "mem \<Rightarrow> 's disklog_ctx \<Rightarrow> u8 list" where
  "log_data v c = ring_at v (offset c + start (filp c)) (dsize (filp c))
     (rd_ofs (filp c) - start (filp c)) (d_size (filp c))"

text \<open>The last \<open>k\<close> bytes.\<close>

definition keep_last :: "nat \<Rightarrow> 'a list \<Rightarrow> 'a list" where
  "keep_last k xs = drop (length xs - k) xs"

section \<open>Lemmas: rings\<close>

lemma ring_inj:
  fixes w i j n :: nat
  assumes "w < n" "i < n" "j < n" "(w + i) mod n = (w + j) mod n"
  shows "i = j"
  using assms by (auto simp: mod_if split: if_splits)

lemma ring_back:
  fixes w i k n :: nat
  assumes "0 < n" "k \<le> n"
  shows "((w + k) mod n + (i + n - k)) mod n = (w + i) mod n"
proof -
  have "((w + k) mod n + (i + n - k)) mod n = (w + k + (i + n - k)) mod n" by (simp add: mod_simps)
  also have "w + k + (i + n - k) = w + i + n" using assms(2) by simp
  finally show ?thesis by simp
qed

text \<open>\<open>v'\<close> is \<open>v\<close> after writing \<open>xs\<close> from position \<open>w\<close> on around the ring at \<open>A\<close>.\<close>

definition ring_written :: "nat \<Rightarrow> nat \<Rightarrow> nat \<Rightarrow> u8 list \<Rightarrow> mem \<Rightarrow> mem \<Rightarrow> bool" where
  "ring_written A n w xs v v' \<longleftrightarrow>
     (\<forall>i<length xs. length xs \<le> i + n \<longrightarrow> v' (A + (w + i) mod n) = xs ! i) \<and>
     (\<forall>i<n. length xs \<le> i \<longrightarrow> v' (A + (w + i) mod n) = v (A + (w + i) mod n)) \<and>
     (\<forall>a. a < A \<or> A + n \<le> a \<longrightarrow> v' a = v a)"

lemma ring_writtenD:
  assumes "ring_written A n w xs v v'"
  shows "i < length xs \<Longrightarrow> length xs \<le> i + n \<Longrightarrow> v' (A + (w + i) mod n) = xs ! i"
    and "i < n \<Longrightarrow> length xs \<le> i \<Longrightarrow> v' (A + (w + i) mod n) = v (A + (w + i) mod n)"
    and "a < A \<or> A + n \<le> a \<Longrightarrow> v' a = v a"
  using assms unfolding ring_written_def by blast+

lemma ring_written_chunk:
  assumes w: "w < n" and k: "0 < k" "k = min (n - w) (length xs)"
    and r: "ring_written A n ((w + k) mod n) (drop k xs) (mem_write v (A + w) (take k xs)) v'"
  shows "ring_written A n w xs v v'"
proof -
  let ?v = "mem_write v (A + w) (take k xs)" and ?w = "(w + k) mod n"
  have kn: "k \<le> n" "w + k \<le> n" "k \<le> length xs" using k by auto
  have bk: "(?w + (i + n - k)) mod n = (w + i) mod n" for i using ring_back [of n k w i] w kn by simp
  have fwd: "(?w + (i - k)) mod n = (w + i) mod n" if "k \<le> i" for i
  proof -
    have "(?w + (i - k)) mod n = (w + k + (i - k)) mod n" by (simp add: mod_simps)
    then show ?thesis using that by simp
  qed
  have 1: "v' (A + (w + i) mod n) = xs ! i" if i: "i < length xs" "length xs \<le> i + n" for i
  proof (cases "i < k")
    case True
    have "v' (A + (?w + (i + n - k)) mod n) = ?v (A + (?w + (i + n - k)) mod n)"
      by (rule ring_writtenD(2) [OF r]) (use i True kn in auto)
    moreover have "(w + i) mod n = w + i" using True kn by simp
    ultimately show ?thesis using bk [of i] True kn by (simp add: mem_write_in)
  next
    case False
    have "v' (A + (?w + (i - k)) mod n) = drop k xs ! (i - k)"
      by (rule ring_writtenD(1) [OF r]) (use i False kn in auto)
    then show ?thesis using fwd [of i] False kn by simp
  qed
  have 2: "v' (A + (w + i) mod n) = v (A + (w + i) mod n)" if i: "i < n" "length xs \<le> i" for i
  proof -
    have "v' (A + (?w + (i - k)) mod n) = ?v (A + (?w + (i - k)) mod n)"
      by (rule ring_writtenD(2) [OF r]) (use i kn in auto)
    then have e: "v' (A + (w + i) mod n) = ?v (A + (w + i) mod n)" using fwd [of i] i kn by simp
    have "\<not> (w \<le> (w + i) mod n \<and> (w + i) mod n < w + k)"
    proof
      assume a: "w \<le> (w + i) mod n \<and> (w + i) mod n < w + k"
      define j where "j = (w + i) mod n - w"
      have j: "j < k" "(w + j) mod n = (w + i) mod n" using a kn by (auto simp: j_def)
      have "j = i" by (rule ring_inj [OF w _ i(1) j(2)]) (use j kn in simp)
      then show False using j(1) i(2) kn by simp
    qed
    then have "A + (w + i) mod n < A + w \<or> A + w + length (take k xs) \<le> A + (w + i) mod n"
      using kn by auto
    from mem_write_out [OF this] show ?thesis using e by simp
  qed
  have 3: "v' a = v a" if "a < A \<or> A + n \<le> a" for a
  proof -
    have "v' a = ?v a" using r that unfolding ring_written_def by blast
    then show ?thesis using that kn by (auto simp: mem_write_out)
  qed
  show ?thesis unfolding ring_written_def using 1 2 3 by blast
qed

lemma length_ring_at [simp]: "length (ring_at v A n p k) = k"
  by (simp add: ring_at_def)

text \<open>Writing behind the data of a ring keeps the last bytes of data and new bytes together.\<close>

lemma ring_written_data:
  assumes n: "0 < n" "p < n" "d \<le> n" and w: "w = (p + d) mod n" and r: "ring_written A n w xs v v'"
  shows "d + length xs \<le> n \<Longrightarrow> ring_at v' A n p (d + length xs) = ring_at v A n p d @ xs"
    and "n \<le> d + length xs \<Longrightarrow>
      ring_at v' A n ((p + (d + length xs)) mod n) n = keep_last n (ring_at v A n p d @ xs)"
proof -
  have el: "v' (A + (p + k) mod n) = (ring_at v A n p d @ xs) ! k"
    if k: "k < d + length xs" "d + length xs \<le> k + n" for k
  proof (cases "k < d")
    case True
    have e: "(w + (k + n - d)) mod n = (p + k) mod n" using ring_back [of n d p k] n w by simp
    have "v' (A + (w + (k + n - d)) mod n) = v (A + (w + (k + n - d)) mod n)"
      by (rule ring_writtenD(2) [OF r]) (use k True n in auto)
    then show ?thesis using e True by (simp add: nth_append ring_at_def)
  next
    case False
    have e: "(w + (k - d)) mod n = (p + k) mod n"
    proof -
      have "(w + (k - d)) mod n = (p + d + (k - d)) mod n" by (simp add: w mod_simps)
      then show ?thesis using False by simp
    qed
    have "v' (A + (w + (k - d)) mod n) = xs ! (k - d)"
      by (rule ring_writtenD(1) [OF r]) (use k False in auto)
    then show ?thesis using e False by (simp add: nth_append)
  qed
  show "ring_at v' A n p (d + length xs) = ring_at v A n p d @ xs" if "d + length xs \<le> n"
    using that el by (intro nth_equalityI) (simp_all add: ring_at_def)
  show "ring_at v' A n ((p + (d + length xs)) mod n) n = keep_last n (ring_at v A n p d @ xs)"
    if l: "n \<le> d + length xs"
  proof (rule nth_equalityI)
    fix j assume "j < length (ring_at v' A n ((p + (d + length xs)) mod n) n)"
    then have j: "j < n" by simp
    define k where "k = d + length xs - n + j"
    have "((p + (d + length xs)) mod n + j) mod n = (p + (d + length xs) + j) mod n" by (simp add: mod_simps)
    also have "p + (d + length xs) + j = p + k + n" using l by (simp add: k_def)
    finally have "((p + (d + length xs)) mod n + j) mod n = (p + k) mod n" by simp
    then have "ring_at v' A n ((p + (d + length xs)) mod n) n ! j = (ring_at v A n p d @ xs) ! k"
      using el [of k] j l by (simp add: ring_at_def k_def)
    then show "ring_at v' A n ((p + (d + length xs)) mod n) n ! j = keep_last n (ring_at v A n p d @ xs) ! j"
      using j l by (simp add: keep_last_def k_def del: drop_append)
  qed (simp add: keep_last_def that)
qed

lemma ring_at_split:
  assumes "p < n" "k \<le> n - p" "k \<le> m"
  shows "ring_at v A n p m = mem_read v (A + p) k @ ring_at v A n ((p + k) mod n) (m - k)"
proof (rule nth_equalityI)
  fix i assume "i < length (ring_at v A n p m)"
  then have i: "i < m" by simp
  show "ring_at v A n p m ! i = (mem_read v (A + p) k @ ring_at v A n ((p + k) mod n) (m - k)) ! i"
  proof (cases "i < k")
    case True
    then show ?thesis using i assms by (simp add: nth_append ring_at_def nth_mem_read add.assoc)
  next
    case False
    have "((p + k) mod n + (i - k)) mod n = (p + k + (i - k)) mod n" by (simp add: mod_simps)
    then show ?thesis using False i assms by (simp add: nth_append ring_at_def)
  qed
qed (use assms in simp)

section \<open>Lemmas: the log over a byte store\<close>

lemma log_okD:
  assumes "log_ok cap c"
  shows "0 < dsize (filp c)" "end_ofs (filp c) = start (filp c) + dsize (filp c)"
    "rd_ofs (filp c) - start (filp c) < dsize (filp c)" "start (filp c) \<le> rd_ofs (filp c)"
    "d_size (filp c) \<le> dsize (filp c)" "offset c + end_ofs (filp c) \<le> cap" "cap < 4294967296"
    "wr_ofs (filp c) = start (filp c) + (rd_ofs (filp c) - start (filp c) + d_size (filp c)) mod dsize (filp c)"
    "28 \<le> start (filp c)" "rd_ofs (filp c) < end_ofs (filp c)"
proof -
  note h = assms [unfolded log_ok_def Let_def]
  show "rd_ofs (filp c) - start (filp c) < dsize (filp c)" using h by linarith
qed (use assms [unfolded log_ok_def Let_def] in blast)+

lemma sub32_le:
  assumes "y \<le> x" "x < 4294967296"
  shows "sub32 x y = x - y"
proof -
  have "x + 4294967296 - y = (x - y) + 4294967296" using assms(1) by simp
  then have "sub32 x y = ((x - y) + 4294967296) mod 4294967296" by (simp only:)
  also have "\<dots> = (x - y) mod 4294967296" by (rule mod_add_self2)
  also have "\<dots> = x - y" using assms(2) by (intro mod_less) linarith
  finally show ?thesis .
qed

lemma ofs_next:
  fixes w k n st :: nat
  assumes "w < n" "k \<le> n - w" "st + n < 4294967296"
  shows "(if w32 (st + w + k) \<ge> st + n then st else w32 (st + w + k)) = st + (w + k) mod n"
  using assms by (cases "w + k = n") (auto simp: mod_if)

context byte_store
begin

lemma input_loop_ring:
  assumes "rep s v" "w < n" "end_ofs f = start f + n" "ofs + end_ofs f \<le> cap" "cap < 4294967296"
  shows "\<exists>s' v'. input_loop wr f ofs xs (start f + w) s = Some (0, start f + (w + length xs) mod n, [], s') \<and>
    rep s' v' \<and> ring_written (ofs + start f) n w xs v v'"
  using assms(1,2)
proof (induction xs arbitrary: w s v rule: length_induct)
  case (1 xs)
  show ?case
  proof (cases "xs = []")
    case True then show ?thesis using 1(2,3) by (auto simp: input_loop.simps ring_written_def)
  next
    case False
    define k where "k = min (n - w) (length xs)"
    have kn: "0 < k" "k \<le> n - w" "k \<le> length xs" using False 1(3) by (auto simp: k_def)
    have "sub32 (end_ofs f) (start f + w) = end_ofs f - (start f + w)"
      by (rule sub32_le) (use assms(3-5) 1(3) in simp_all)
    also have "\<dots> = n - w" using assms(3) by simp
    finally have sub: "sub32 (end_ofs f) (start f + w) = n - w" .
    have ofs: "w32 (ofs + (start f + w)) = ofs + start f + w" using assms(3-5) 1(3) by simp
    have len: "ofs + start f + w + length (take k xs) \<le> cap" using assms(3,4) kn 1(3) by simp
    obtain s1 where s1: "wr (take k xs) (ofs + start f + w) s = Some (int (length (take k xs)), s1)"
      "rep s1 (mem_write v (ofs + start f + w) (take k xs))"
      using wr [OF 1(2) len] by blast
    have nx: "(if w32 (start f + w + k) \<ge> end_ofs f then start f else w32 (start f + w + k)) = start f + (w + k) mod n"
      using ofs_next [OF 1(3) kn(2), of "start f"] assms(3-5) by simp
    have eq: "input_loop wr f ofs xs (start f + w) s =
        input_loop wr f ofs (drop k xs) (start f + (w + k) mod n) s1"
      using False s1(1) nx unfolding input_loop.simps [of wr f ofs xs] Let_def sub ofs k_def [symmetric] by simp
    have wn: "(w + k) mod n < n" and ln: "length (drop k xs) < length xs" using 1(3) kn by simp_all
    obtain s' v' where s': "input_loop wr f ofs (drop k xs) (start f + (w + k) mod n) s1 =
        Some (0, start f + ((w + k) mod n + length (drop k xs)) mod n, [], s')" "rep s' v'"
      "ring_written (ofs + start f) n ((w + k) mod n) (drop k xs) (mem_write v (ofs + start f + w) (take k xs)) v'"
      using 1(1) [rule_format, OF ln s1(2) wn] by blast
    have "ring_written (ofs + start f) n w xs v v'"
      using ring_written_chunk [OF 1(3) kn(1) k_def s'(3)] .
    moreover have "((w + k) mod n + length (drop k xs)) mod n = (w + k + length (drop k xs)) mod n"
      by (simp add: mod_simps del: length_drop)
    then have "((w + k) mod n + length (drop k xs)) mod n = (w + length xs) mod n" using kn(3) by simp
    ultimately show ?thesis using eq s' by auto
  qed
qed

lemma disklog_input_log:
  assumes "rep (bdev c) v" "log_ok cap c" "xs \<noteq> []" "\<not> read_locked c" "dsize (filp c) + length xs < 4294967296"
  shows "\<exists>c' v'. disklog_input wr xs c = Some (0, c') \<and> rep (bdev c') v' \<and> log_ok cap c' \<and>
    log_data v' c' = keep_last (dsize (filp c)) (log_data v c @ xs) \<and> dsize (filp c') = dsize (filp c) \<and>
    offset c' = offset c \<and> log_dirty c'"
proof -
  let ?f = "filp c" and ?n = "dsize (filp c)" and ?p = "rd_ofs (filp c) - start (filp c)" and ?d = "d_size (filp c)"
  note L = log_okD [OF assms(2)]
  have w: "(?p + ?d) mod ?n < ?n" using L(1) by simp
  obtain s' v' where r: "input_loop wr ?f (offset c) xs (wr_ofs ?f) (bdev c) =
      Some (0, start ?f + ((?p + ?d) mod ?n + length xs) mod ?n, [], s')" "rep s' v'"
      "ring_written (offset c + start ?f) ?n ((?p + ?d) mod ?n) xs v v'"
    using input_loop_ring [OF assms(1) w L(2,6,7), of xs] unfolding L(8) by blast
  have e: "((?p + ?d) mod ?n + length xs) mod ?n = (?p + (?d + length xs)) mod ?n"
    by (simp add: mod_simps add.assoc)
  note R = ring_written_data [OF L(1,3,5) refl r(3)]
  have sm: "w32 (?d + length xs) = ?d + length xs" using assms(5) L(5) by simp
  show ?thesis
  proof (cases "?d + length xs > ?n")
    case True
    let ?w = "start ?f + (?p + (?d + length xs)) mod ?n"
    let ?c = "c\<lparr>filp := ?f\<lparr>d_size := ?n, rd_ofs := ?w, wr_ofs := ?w\<rparr>, log_dirty := True, bdev := s'\<rparr>"
    have "disklog_input wr xs c = Some (0, ?c)"
      using r(1) e sm True assms(3,4) by (simp add: disklog_input_def Let_def)
    moreover have "log_ok cap ?c" using L by (simp add: log_ok_def Let_def)
    moreover have "log_data v' ?c = keep_last ?n (log_data v c @ xs)" using R(2) True by (simp add: log_data_def)
    ultimately show ?thesis using r(2) by (intro exI [of _ ?c] exI [of _ v']) simp
  next
    case False
    let ?c = "c\<lparr>filp := ?f\<lparr>d_size := ?d + length xs, wr_ofs := start ?f + (?p + (?d + length xs)) mod ?n\<rparr>,
      log_dirty := True, bdev := s'\<rparr>"
    have "disklog_input wr xs c = Some (0, ?c)"
      using r(1) e sm False assms(3,4) by (simp add: disklog_input_def Let_def)
    moreover have "log_ok cap ?c" using L False by (simp add: log_ok_def Let_def)
    moreover have "keep_last ?n (log_data v c @ xs) = log_data v c @ xs"
      using False by (simp add: keep_last_def log_data_def)
    then have "log_data v' ?c = keep_last ?n (log_data v c @ xs)" using R(1) False by (simp add: log_data_def)
    ultimately show ?thesis using r(2) by (intro exI [of _ ?c] exI [of _ v']) simp
  qed
qed

lemma output_loop_ring:
  assumes "rep s v" "p < n" "end_ofs f = start f + n" "ofs + end_ofs f \<le> cap" "cap < 4294967296" "0 < mx"
  shows "\<exists>ret' s'. output_loop rd (\<lambda>bs x. (True, x @ bs)) f ofs False mx ret m (start f + p) s x =
      Some (True, ret', start f + (p + m) mod n, s', x @ ring_at v (ofs + start f) n p m) \<and> rep s' v"
  using assms(1,2)
proof (induction m arbitrary: p s x ret rule: less_induct)
  case (less m)
  show ?case
  proof (cases "m = 0")
    case True then show ?thesis using less.prems by (simp add: output_loop.simps ring_at_def)
  next
    case False
    define k where "k = min (min (n - p) m) mx"
    have kn: "0 < k" "k \<le> n - p" "k \<le> m" using False less.prems(2) assms(6) by (auto simp: k_def)
    have "sub32 (end_ofs f) (start f + p) = end_ofs f - (start f + p)"
      by (rule sub32_le) (use assms(3-5) less.prems(2) in simp_all)
    also have "\<dots> = n - p" using assms(3) by simp
    finally have sub: "sub32 (end_ofs f) (start f + p) = n - p" .
    have ofs: "w32 (ofs + (start f + p)) = ofs + start f + p" using assms(3-5) less.prems(2) by simp
    have "ofs + start f + p + k \<le> cap" using assms(3,4) kn less.prems(2) by simp
    then obtain s1 where s1: "rd k (ofs + start f + p) s = Some (int k, mem_read v (ofs + start f + p) k, s1)" "rep s1 v"
      using rd [OF less.prems(1)] by blast
    have nx: "(if w32 (start f + p + k) \<ge> end_ofs f then start f else w32 (start f + p + k)) = start f + (p + k) mod n"
      using ofs_next [OF less.prems(2) kn(2), of "start f"] assms(3-5) by simp
    have eq: "output_loop rd (\<lambda>bs x. (True, x @ bs)) f ofs False mx ret m (start f + p) s x =
        output_loop rd (\<lambda>bs x. (True, x @ bs)) f ofs False mx (int k) (m - k) (start f + (p + k) mod n) s1
          (x @ mem_read v (ofs + start f + p) k)"
      using False s1(1) nx kn(1)
      unfolding output_loop.simps [of rd "\<lambda>bs x. (True, x @ bs)" f ofs False mx ret m] Let_def sub ofs k_def [symmetric]
      by simp
    have pn: "(p + k) mod n < n" and mk: "m - k < m" using less.prems(2) kn False by simp_all
    have "((p + k) mod n + (m - k)) mod n = (p + k + (m - k)) mod n" by (simp add: mod_simps)
    then have e: "((p + k) mod n + (m - k)) mod n = (p + m) mod n" using kn(3) by simp
    show ?thesis
      using less.IH [OF mk s1(2) pn, of "int k" "x @ mem_read v (ofs + start f + p) k"]
        ring_at_split [OF less.prems(2) kn(2,3), of v "ofs + start f"]
      unfolding eq e by simp
  qed
qed

lemma disklog_ouput_log:
  assumes "rep (bdev c) v" "log_ok cap c" "\<not> upload_pending c" "\<not> should_stop c"
  shows "\<exists>c'. disklog_ouput rd (\<lambda>bs x. (True, x @ bs)) True mx c [] = Some (0, c', log_data v c) \<and>
    rep (bdev c') v \<and> log_ok cap c' \<and> log_data v c' = []"
proof -
  let ?f = "filp c" and ?n = "dsize (filp c)" and ?p = "rd_ofs (filp c) - start (filp c)" and ?d = "d_size (filp c)"
  note L = log_okD [OF assms(2)]
  let ?mx = "if mx = 0 then LOG_SIZE else mx"
  have mx: "0 < ?mx" by simp
  have p: "start ?f + ?p = rd_ofs ?f" using L(4) by simp
  obtain ret' s' where o: "output_loop rd (\<lambda>bs x. (True, x @ bs)) ?f (offset c) False ?mx 0 ?d (rd_ofs ?f) (bdev c) [] =
      Some (True, ret', start ?f + (?p + ?d) mod ?n, s', log_data v c)" "rep s' v"
    using output_loop_ring [OF assms(1) L(3,2,6,7) mx, of 0 ?d "[]"] unfolding p log_data_def by auto
  let ?r = "start ?f + (?p + ?d) mod ?n"
  let ?c = "c\<lparr>bdev := s', filp := ?f\<lparr>rd_ofs := ?r, wr_ofs := ?r, d_size := 0\<rparr>\<rparr>"
  have "disklog_ouput rd (\<lambda>bs x. (True, x @ bs)) True mx c [] = Some (0, ?c, log_data v c)"
    using o(1) assms(3,4) by (simp add: disklog_ouput_def Let_def)
  moreover have "log_ok cap ?c" using L by (simp add: log_ok_def Let_def)
  moreover have "log_data v ?c = []" by (simp add: log_data_def ring_at_def)
  ultimately show ?thesis using o(2) by auto
qed

end

section \<open>Lemmas: the header on the disk\<close>

lemma log_of_bytes_of_log:
  assumes "\<forall>x\<in>set (log_words f). x < 4294967296"
  shows "log_of_bytes (log_bytes f) = f" "length (log_bytes f) = 28"
proof -
  have "list_all2 (\<lambda>w x. x < 256 ^ w) [4, 4, 4, 4, 4, 4, 4] (log_words f)"
    using assms by (simp add: log_words_def)
  from unpack_pack [OF this] show "log_of_bytes (log_bytes f) = f"
    by (simp add: log_of_bytes_def log_bytes_def Let_def) (simp add: log_words_def)
  show "length (log_bytes f) = 28"
    using length_pack [of "log_words f" "[4, 4, 4, 4, 4, 4, 4]"] by (simp add: log_bytes_def log_words_def)
qed

text \<open>The byte store with the synchronisation that the log calls after writing its header.\<close>

locale synced_store = byte_store +
  fixes sync :: "'a \<Rightarrow> 'a"
  assumes sync: "rep s v \<Longrightarrow> rep (sync s) v"
begin

lemma disklog_flush_log:
  assumes "rep (bdev c) v" "log_ok cap c" "magic (filp c) = DISKLOG_MAGIC"
  shows "\<exists>s'. disklog_flush wr sync c = Some (c\<lparr>bdev := s'\<rparr>) \<and>
    rep s' (mem_write v (offset c) (log_bytes (filp c))) \<and>
    log_data (mem_write v (offset c) (log_bytes (filp c))) c = log_data v c"
proof -
  note L = log_okD [OF assms(2)]
  have "wr_ofs (filp c) < end_ofs (filp c)" unfolding L(2,8) using L(1) by simp
  then have f: "\<forall>x\<in>set (log_words (filp c)). x < 4294967296"
    using L(2,5,6,7,10) assms(3) by (simp add: log_words_def)
  note len = log_of_bytes_of_log(2) [OF f]
  have "offset c + length (log_bytes (filp c)) \<le> cap" using L(2,6,9) len by simp
  then obtain s1 where s1: "wr (log_bytes (filp c)) (offset c) (bdev c) = Some (int (length (log_bytes (filp c))), s1)"
    "rep s1 (mem_write v (offset c) (log_bytes (filp c)))"
    using wr [OF assms(1)] by blast
  have "log_data (mem_write v (offset c) (log_bytes (filp c))) c = log_data v c"
    using L(9) len by (simp add: log_data_def ring_at_def mem_write_out)
  then show ?thesis using s1 sync [OF s1(2)] by (auto simp: disklog_flush_def)
qed

lemma disklog_restart:
  assumes "rep (bdev c) v" "log_ok cap c" "magic (filp c) = DISKLOG_MAGIC"
    and "disklog_flush wr sync c = Some c1" "bdev c2 = bdev c1"
  shows "\<exists>c3. disklog_init rd (offset c) n b False c2 = Some (0, True, c3) \<and> filp c3 = filp c \<and>
    (\<exists>v'. rep (bdev c3) v' \<and> log_data v' c3 = log_data v c)"
proof -
  note L = log_okD [OF assms(2)]
  let ?v = "mem_write v (offset c) (log_bytes (filp c))"
  obtain s' where s': "c1 = c\<lparr>bdev := s'\<rparr>" "rep s' ?v" "log_data ?v c = log_data v c"
    using disklog_flush_log [OF assms(1-3)] assms(4) by auto
  have "wr_ofs (filp c) < end_ofs (filp c)" unfolding L(2,8) using L(1) by simp
  then have f: "\<forall>x\<in>set (log_words (filp c)). x < 4294967296"
    using L(2,5,6,7,10) assms(3) by (simp add: log_words_def)
  note F = log_of_bytes_of_log [OF f]
  have "offset c + 28 \<le> cap" using L(2,6,9) by simp
  then obtain s2 where s2: "rd 28 (offset c) s' = Some (28, mem_read ?v (offset c) 28, s2)" "rep s2 ?v"
    using rd [OF s'(2)] by fastforce
  have m: "mem_read ?v (offset c) 28 = log_bytes (filp c)" using F(2) by (intro mem_read_write_same) simp
  let ?c = "c2\<lparr>blksz := b, offset := offset c, len := n, bdev := s2, filp := filp c, log_dirty := False,
    obs_added := True, timer := Some DISLOG_SWAP_PERIOD\<rparr>"
  have "disklog_init rd (offset c) n b False c2 = Some (0, True, ?c)"
    using s2(1) assms(3,5) s'(1) F(1) m by (simp add: disklog_init_def)
  moreover have "log_data ?v ?c = log_data v c" using s'(3) by (simp add: log_data_def)
  ultimately show ?thesis using s2(2) by (intro exI [of _ ?c]) auto
qed

end

section \<open>The log on the block cache\<close>

text \<open>\<open>blkdev_sync\<close> when there is one block device.\<close>

definition sync_one :: "'d disk_device \<Rightarrow> block_device \<times> 'd \<Rightarrow> block_device \<times> 'd" where
  "sync_one dd s = snd (hd (snd (simple_blkdev_sync [(dd, s)])))"

context flash_disk
begin

lemma sync_one_rep: "blk_rep dd contents s v \<Longrightarrow> blk_rep dd contents (sync_one dd s) v"
  using simple_blkdev_sync_rep [of "fst s" "snd s" v False] by (auto simp: sync_one_def simple_blkdev_sync_def)

end

interpretation vlog: synced_store "blk_rep vdisk (\<lambda>m. m)" "dlen vdisk" "simple_blkdev_write vdisk"
  "simple_blkdev_read vdisk" "sync_one vdisk"
  by unfold_locales (rule vflash.sync_one_rep)

sublocale flash_disk \<subseteq> synced: synced_store "blk_rep dd contents" "dlen dd" "simple_blkdev_write dd"
  "simple_blkdev_read dd" "sync_one dd"
  by unfold_locales (rule sync_one_rep)

context flash_disk
begin

lemmas log_facts = store.disklog_input_log store.disklog_ouput_log synced.disklog_restart

end

section \<open>Properties\<close>

text \<open>
  C6. The log keeps the last bytes written: after \<open>disklog_input\<close> it holds the old data followed by
  the new, cut at the front to the size of the ring, and its invariant is kept, over any flash
  disk with the block cache in between.
\<close>

theorem disklog_keeps_last:
  assumes "flash_disk dd contents" "blk_rep dd contents (bdev c) v" "log_ok (dlen dd) c"
    and "xs \<noteq> []" "\<not> read_locked c" "dsize (filp c) + length xs < 4294967296"
  shows "\<exists>c' v'. disklog_input (simple_blkdev_write dd) xs c = Some (0, c') \<and>
    blk_rep dd contents (bdev c') v' \<and> log_ok (dlen dd) c' \<and>
    log_data v' c' = keep_last (dsize (filp c)) (log_data v c @ xs)"
  using flash_disk.log_facts(1) [OF assms] by blast

text \<open>An empty log of 15 blocks on the virtual flash.\<close>

definition example_log :: "(block_device \<times> mem) disklog_ctx" where
  "example_log = disklog_reset_locked
     \<lparr>filp = log_of_bytes (replicate 28 0), offset = 0, len = 4096, blksz = 256, upload_pending = False,
      read_locked = False, log_dirty = False, should_stop = False, timer = None, obs_added = False, rdlog = log_of_bytes (replicate 28 0),
      bdev = (example_bdev, \<lambda>_. 0xFF)\<rparr>"

lemma example_log_facts:
  "blk_rep vdisk (\<lambda>m. m) (bdev example_log) (\<lambda>_. 0xFF)" "log_ok (dlen vdisk) example_log"
  "\<not> read_locked example_log" "dsize (filp example_log) = 3840" "\<not> upload_pending example_log"
  "\<not> should_stop example_log" "log_data (\<lambda>_. 0xFF) example_log = []" "magic (filp example_log) = DISKLOG_MAGIC"
  using example_blk_rep
  by (simp_all add: example_log_def disklog_reset_locked_def log_ok_def vdisk_def Let_def log_data_def ring_at_def)

theorem disklog_keeps_last_witness:
  "\<exists>c' v'. disklog_input (simple_blkdev_write vdisk) [7, 8] example_log = Some (0, c') \<and> log_data v' c' = [7, 8]"
  using disklog_keeps_last [OF vflash.flash_disk_axioms example_log_facts(1,2), of "[7, 8]"] example_log_facts
  by (auto simp: keep_last_def)

text \<open>
  C27. The upload hands out exactly the data of the log, in order, whatever the chunk size, and leaves
  the log empty.
\<close>

theorem disklog_upload_all:
  assumes "flash_disk dd contents" "blk_rep dd contents (bdev c) v" "log_ok (dlen dd) c"
    and "\<not> upload_pending c" "\<not> should_stop c"
  shows "\<exists>c'. disklog_ouput (simple_blkdev_read dd) (\<lambda>bs x. (True, x @ bs)) True maxsize c [] =
      Some (0, c', log_data v c) \<and> blk_rep dd contents (bdev c') v \<and> log_ok (dlen dd) c' \<and> log_data v c' = []"
  using flash_disk.log_facts(2) [OF assms] by blast

theorem disklog_upload_all_witness:
  "\<exists>c'. disklog_ouput (simple_blkdev_read vdisk) (\<lambda>bs x. (True, x @ bs)) True 100 example_log [] = Some (0, c', [])"
  using disklog_upload_all [OF vflash.flash_disk_axioms example_log_facts(1,2,5,6), of 100] example_log_facts(7)
  by auto



end
