(* ===== verification/Msg_Storage.thy ===== *)
theory Msg_Storage
  imports Bitops Partition
begin

text \<open>
  The message database of \<open>lib/msg_storage.c\<close> and its partition backend \<open>lib/msg_partition_backend.c\<close>
  (default configuration: ten messages, fifty types, no checksum): a bitmap of slots and a list of
  the used slots in the order of arrival, linked by index, in a header that is written back from time
  to time; the contents are written at once. The backend is the record of operations \<open>msg_fops\<close>; what
  the database relies on is the contract \<open>byte_store\<close>, which a partition meets. One thread at a time:
  the mutex is free when an operation takes it. None is a failed assertion, an access outside an
  array or a loop that does not end.
\<close>

section \<open>Definitions\<close>

subsection \<open>Data\<close>

abbreviation (input) MAX_MESSAGES :: nat where "MAX_MESSAGES \<equiv> 10"
abbreviation (input) MAX_MESSAGE_TYPES :: nat where "MAX_MESSAGE_TYPES \<equiv> 50"
abbreviation (input) NULL_NODE :: nat where "NULL_NODE \<equiv> 65535"
abbreviation (input) INVALID_TYPE :: nat where "INVALID_TYPE \<equiv> 0"
abbreviation (input) MESSAGE_MAGIC :: nat where "MESSAGE_MAGIC \<equiv> 0x1eebcaa1"
abbreviation (input) MESSAGE_STATE_MAGIC :: nat where "MESSAGE_STATE_MAGIC \<equiv> 0x1eebcaa0"
abbreviation (input) MESSAGE_STATE_OFFSET :: nat where "MESSAGE_STATE_OFFSET \<equiv> 4096"
abbreviation (input) MESSAGE_CONTENT_OFFSET :: nat where "MESSAGE_CONTENT_OFFSET \<equiv> 8192"
abbreviation (input) MESSAGE_CHECK_PERIOD :: nat where "MESSAGE_CHECK_PERIOD \<equiv> 60000"
abbreviation (input) MSG_FILENAME :: string where "MSG_FILENAME \<equiv> ''msgfile.db''"
abbreviation (input) MSG_NOTIF_NORMAL :: nat where "MSG_NOTIF_NORMAL \<equiv> 0"
abbreviation (input) MSG_NOTIF_DISABLE :: nat where "MSG_NOTIF_DISABLE \<equiv> 2"
abbreviation (input) SHUTDOWN_FACTORY_RESET :: nat where "SHUTDOWN_FACTORY_RESET \<equiv> 2"

record msg_node =
  ntype :: nat
  nindex :: nat
  n_index :: nat
  p_index :: nat

record msg_payload =
  timestamp :: nat
  pid :: nat
  ptype :: nat
  c_len :: nat
  contact :: "nat list"
  m_len :: nat
  pbuffer :: "nat list"

record msg_database =
  m_magic :: nat
  m_bitmap :: "u32 list"
  m_node :: "msg_node list"
  m_first :: nat
  m_last :: nat
  m_offset :: nat

text \<open>\<open>npad\<close> is the padding byte between the switch and the bit vector.\<close>

record msg_notifstate =
  nmagic :: nat
  nstate :: "nat list"
  notif_enable :: bool
  npad :: nat
  bitvect :: u32

text \<open>
  The operations of a backend with handles \<open>'f\<close> (None is NULL) on its state \<open>'s\<close>. \<open>open\<close> returns the
  code and the handle it stored, if any; \<open>close\<close>, \<open>flush\<close> and \<open>unlink\<close> may be missing.
\<close>

record ('f, 's) msg_fops =
  f_open :: "string \<Rightarrow> 's \<Rightarrow> (int \<times> 'f option \<times> 's) option"
  f_close :: "('f option \<Rightarrow> 's \<Rightarrow> (int \<times> 's) option) option"
  f_flush :: "('f option \<Rightarrow> 's \<Rightarrow> (int \<times> 's) option) option"
  f_write :: "'f option \<Rightarrow> u8 list \<Rightarrow> nat \<Rightarrow> 's \<Rightarrow> (int \<times> 's) option"
  f_read :: "'f option \<Rightarrow> nat \<Rightarrow> nat \<Rightarrow> 's \<Rightarrow> (int \<times> u8 list \<times> 's) option"
  f_unlink :: "(string \<Rightarrow> 's \<Rightarrow> (int \<times> 's) option) option"

text \<open>\<open>DECLARE_KFIFO(fifo, uint16_t, 32)\<close>\<close>

record kfifo16 =
  fin :: u32
  fout :: u32
  fbuf :: "nat list"

text \<open>
  The context; \<open>timer\<close> is None when there is no timer, otherwise the period it is armed with; \<open>dev\<close> is
  the state of the backend and \<open>user_data\<close> what the notification callback works on.
\<close>

record ('f, 's, 'u) msg_context =
  db :: msg_database
  mstate :: msg_notifstate
  f_ops :: "('f, 's) msg_fops"
  obs_added :: bool
  timer :: "nat option option"
  fd :: "'f option"
  fifo :: kfifo16
  notify :: "(nat \<Rightarrow> 'u \<Rightarrow> 'u) option"
  user_data :: 'u
  dirty :: bool
  state_dirty :: bool
  new_idx :: nat
  dev :: 's

subsection \<open>The structures in memory\<close>

definition node_words :: "msg_node \<Rightarrow> nat list" where
  "node_words n = [ntype n, nindex n, n_index n, p_index n]"

definition db_layout :: "nat list" where
  "db_layout = [4, 4] @ replicate (4 * MAX_MESSAGES) 2 @ [2, 2, 4]"

definition db_bytes :: "msg_database \<Rightarrow> u8 list" where
  "db_bytes d = pack db_layout
     ([m_magic d] @ map unat (m_bitmap d) @ concat (map node_words (m_node d)) @ [m_first d, m_last d, m_offset d])"

fun nodes_of_words :: "nat list \<Rightarrow> msg_node list" where
  "nodes_of_words (t # i # n # p # ws) = \<lparr>ntype = t, nindex = i, n_index = n, p_index = p\<rparr> # nodes_of_words ws"
| "nodes_of_words ws = []"

definition db_of_bytes :: "u8 list \<Rightarrow> msg_database" where
  "db_of_bytes bs = (let w = unpack db_layout bs
     in \<lparr>m_magic = w ! 0, m_bitmap = [of_nat (w ! 1)], m_node = nodes_of_words (take (4 * MAX_MESSAGES) (drop 2 w)),
         m_first = w ! 42, m_last = w ! 43, m_offset = w ! 44\<rparr>)"

definition state_layout :: "nat list" where
  "state_layout = [4] @ replicate MAX_MESSAGE_TYPES 1 @ [1, 1, 4]"

definition state_bytes :: "msg_notifstate \<Rightarrow> u8 list" where
  "state_bytes s = pack state_layout
     ([nmagic s] @ nstate s @ [if notif_enable s then 1 else 0, npad s, unat (bitvect s)])"

definition state_of_bytes :: "u8 list \<Rightarrow> msg_notifstate" where
  "state_of_bytes bs = (let w = unpack state_layout bs
     in \<lparr>nmagic = w ! 0, nstate = take MAX_MESSAGE_TYPES (drop 1 w), notif_enable = (w ! 51 \<noteq> 0), npad = w ! 52,
         bitvect = of_nat (w ! 53)\<rparr>)"

definition payload_layout :: "nat list" where
  "payload_layout = [4, 2, 2, 2] @ replicate 32 1 @ [2] @ replicate 256 1"

definition payload_bytes :: "msg_payload \<Rightarrow> u8 list" where
  "payload_bytes p = pack payload_layout
     ([timestamp p, pid p, ptype p, c_len p] @ contact p @ [m_len p] @ pbuffer p)"

definition payload_of_bytes :: "u8 list \<Rightarrow> msg_payload" where
  "payload_of_bytes bs = (let w = unpack payload_layout bs
     in \<lparr>timestamp = w ! 0, pid = w ! 1, ptype = w ! 2, c_len = w ! 3, contact = take 32 (drop 4 w), m_len = w ! 36,
         pbuffer = drop 37 w\<rparr>)"

subsection \<open>The backend calls\<close>

definition fmsg_open :: "string \<Rightarrow> ('f, 's, 'u) msg_context \<Rightarrow> (int \<times> ('f, 's, 'u) msg_context) option" where
  "fmsg_open name ctx =
     Option.bind (f_open (f_ops ctx) name (dev ctx)) (\<lambda>(err, h, s).
       Some (err, ctx\<lparr>fd := (case h of None \<Rightarrow> fd ctx | Some _ \<Rightarrow> h), dev := s\<rparr>))"

definition fmsg_close :: "('f, 's, 'u) msg_context \<Rightarrow> (int \<times> ('f, 's, 'u) msg_context) option" where
  "fmsg_close ctx = (case f_close (f_ops ctx) of
     None \<Rightarrow> Some (0, ctx)
   | Some f \<Rightarrow> Option.bind (f (fd ctx) (dev ctx)) (\<lambda>(r, s). Some (r, ctx\<lparr>dev := s\<rparr>)))"

definition fmsg_write :: "u8 list \<Rightarrow> nat \<Rightarrow> ('f, 's, 'u) msg_context \<Rightarrow> (int \<times> ('f, 's, 'u) msg_context) option" where
  "fmsg_write buf ofs ctx =
     Option.bind (f_write (f_ops ctx) (fd ctx) buf ofs (dev ctx)) (\<lambda>(r, s). Some (r, ctx\<lparr>dev := s\<rparr>))"

definition fmsg_read :: "nat \<Rightarrow> nat \<Rightarrow> ('f, 's, 'u) msg_context \<Rightarrow> (int \<times> u8 list \<times> ('f, 's, 'u) msg_context) option" where
  "fmsg_read sz ofs ctx =
     Option.bind (f_read (f_ops ctx) (fd ctx) sz ofs (dev ctx)) (\<lambda>(r, bs, s). Some (r, bs, ctx\<lparr>dev := s\<rparr>))"

definition fmsg_flush :: "('f, 's, 'u) msg_context \<Rightarrow> (int \<times> ('f, 's, 'u) msg_context) option" where
  "fmsg_flush ctx = (case f_flush (f_ops ctx) of
     None \<Rightarrow> Some (0, ctx)
   | Some f \<Rightarrow> Option.bind (f (fd ctx) (dev ctx)) (\<lambda>(r, s). Some (r, ctx\<lparr>dev := s\<rparr>)))"

definition fmsg_remove :: "string \<Rightarrow> ('f, 's, 'u) msg_context \<Rightarrow> (int \<times> ('f, 's, 'u) msg_context) option" where
  "fmsg_remove name ctx = (case f_unlink (f_ops ctx) of
     None \<Rightarrow> Some (- ENOSYS, ctx)
   | Some f \<Rightarrow> Option.bind (f name (dev ctx)) (\<lambda>(r, s). Some (r, ctx\<lparr>dev := s\<rparr>)))"

definition fmsg_offset :: "msg_database \<Rightarrow> nat \<Rightarrow> nat" where
  "fmsg_offset mdb index = w32 (m_offset mdb + index * 300)"

subsection \<open>The list of slots\<close>

definition msg_node_init :: msg_node where
  "msg_node_init = \<lparr>ntype = INVALID_TYPE, nindex = NULL_NODE, n_index = NULL_NODE, p_index = NULL_NODE\<rparr>"

text \<open>Accesses to \<open>m_node[i]\<close>.\<close>

definition node_at :: "nat \<Rightarrow> msg_database \<Rightarrow> msg_node option" where
  "node_at i mdb = (if i < length (m_node mdb) then Some (m_node mdb ! i) else None)"

definition upd_node :: "nat \<Rightarrow> (msg_node \<Rightarrow> msg_node) \<Rightarrow> msg_database \<Rightarrow> msg_database option" where
  "upd_node i f mdb =
     (if i < length (m_node mdb) then Some (mdb\<lparr>m_node := (m_node mdb)[i := f (m_node mdb ! i)]\<rparr>) else None)"

definition msg_reinit_database :: "msg_database \<Rightarrow> msg_database" where
  "msg_reinit_database mdb = \<lparr>m_magic = MESSAGE_MAGIC, m_bitmap = map (\<lambda>_. 0) (m_bitmap mdb),
     m_node = replicate MAX_MESSAGES msg_node_init, m_first = NULL_NODE, m_last = NULL_NODE,
     m_offset = MESSAGE_CONTENT_OFFSET\<rparr>"

definition msg_storage_first :: "msg_database \<Rightarrow> int" where
  "msg_storage_first mdb = (if m_first mdb = NULL_NODE then - EINVAL else int (m_first mdb))"

definition msg_storage_next :: "int \<Rightarrow> msg_database \<Rightarrow> int" where
  "msg_storage_next i mdb =
     (if i < 0 then - EINVAL
      else if i < int MAX_MESSAGES
      then let idx = n_index (m_node mdb ! nat i) in if idx = NULL_NODE then - EINVAL else int idx
      else - EINVAL)"

text \<open>The loop of \<open>msg_reset_locked\<close>: more than \<open>MAX_MESSAGES\<close> rounds.\<close>

function too_many :: "msg_database \<Rightarrow> int \<Rightarrow> nat \<Rightarrow> bool" where
  "too_many mdb i k =
     (if i \<ge> 0 then if k + 1 > MAX_MESSAGES then True else too_many mdb (msg_storage_next i mdb) (k + 1) else False)"
  by pat_completeness auto

termination
  by (relation "measure (\<lambda>(mdb, i, k). MAX_MESSAGES - k)") auto

definition msg_reset_locked :: "bool \<Rightarrow> msg_database \<Rightarrow> msg_database" where
  "msg_reset_locked force mdb =
     (if \<not> force \<and> m_magic mdb = MESSAGE_MAGIC
      then if too_many mdb (msg_storage_first mdb) 0 then msg_reinit_database mdb else mdb
      else msg_reinit_database mdb)"

definition msg_state_reinit :: msg_notifstate where
  "msg_state_reinit = \<lparr>nmagic = MESSAGE_STATE_MAGIC, nstate = replicate MAX_MESSAGE_TYPES 0, notif_enable = True,
     npad = 0, bitvect = 0\<rparr>"

definition msg_state_reset_locked :: "bool \<Rightarrow> msg_notifstate \<Rightarrow> msg_notifstate" where
  "msg_state_reset_locked force st = (if \<not> force \<and> nmagic st = MESSAGE_STATE_MAGIC then st else msg_state_reinit)"

definition msg_remove_node :: "nat \<Rightarrow> msg_database \<Rightarrow> msg_database option" where
  "msg_remove_node idx mdb =
     Option.bind (node_at idx mdb) (\<lambda>node.
     Option.bind (if n_index node \<noteq> NULL_NODE then upd_node (n_index node) (\<lambda>x. x\<lparr>p_index := p_index node\<rparr>) mdb
                  else Some mdb) (\<lambda>mdb.
     Option.bind (node_at idx mdb) (\<lambda>node.
     Option.bind (if p_index node \<noteq> NULL_NODE then upd_node (p_index node) (\<lambda>x. x\<lparr>n_index := n_index node\<rparr>) mdb
                  else Some mdb) (\<lambda>mdb.
     Option.bind (node_at idx mdb) (\<lambda>node.
       let mdb = (if m_first mdb = idx then mdb\<lparr>m_first := n_index node\<rparr> else mdb);
           mdb = (if m_last mdb = idx then mdb\<lparr>m_last := p_index node\<rparr> else mdb)
       in upd_node idx (\<lambda>_. msg_node_init) mdb)))))"

text \<open>The search for a clear bit: the slot and the bitmap with the bit set; None when there is no slot.\<close>

fun slot_loop :: "u32 list \<Rightarrow> nat \<Rightarrow> (nat \<times> u32 list) option" where
  "slot_loop [] index = None"
| "slot_loop (w # ws) index =
     (if w \<noteq> 0xFFFFFFFF
      then let ofs = nat (ffsl (NOT w) - 1); index = index + ofs
           in if index \<ge> MAX_MESSAGES then None else Some (index, (w OR push_bit ofs 1) # ws)
      else map_option (\<lambda>(i, ws). (i, w # ws)) (slot_loop ws (index + 32)))"

definition msg_slot_allocate :: "msg_database \<Rightarrow> (nat \<times> msg_database) option" where
  "msg_slot_allocate mdb = (case slot_loop (m_bitmap mdb) 0 of
     Some (index, bm) \<Rightarrow> Some (index, mdb\<lparr>m_bitmap := bm\<rparr>)
   | None \<Rightarrow> let index = m_first mdb in map_option (\<lambda>mdb. (index, mdb)) (msg_remove_node index mdb))"

definition msg_mark_dirty :: "('f, 's, 'u) msg_context \<Rightarrow> ('f, 's, 'u) msg_context" where
  "msg_mark_dirty ctx = ctx\<lparr>timer := map_option (\<lambda>_. Some MESSAGE_CHECK_PERIOD) (timer ctx), dirty := True\<rparr>"

definition msg_slot_free :: "nat \<Rightarrow> ('f, 's, 'u) msg_context \<Rightarrow> (int \<times> ('f, 's, 'u) msg_context) option" where
  "msg_slot_free index ctx =
     (if index \<ge> MAX_MESSAGES then Some (- EINVAL, ctx)
      else
        let mdb = db ctx; w = index div 32;
            bm = (m_bitmap mdb)[w := (m_bitmap mdb ! w) AND NOT (push_bit (index mod 32) 1)]
        in Option.bind (msg_remove_node index (mdb\<lparr>m_bitmap := bm\<rparr>)) (\<lambda>mdb.
             Some (0, msg_mark_dirty (ctx\<lparr>db := mdb\<rparr>))))"

subsection \<open>Writing\<close>

definition kfifo_put :: "nat \<Rightarrow> kfifo16 \<Rightarrow> kfifo16" where
  "kfifo_put val f =
     (if fin f - fout f > 31 then f
      else f\<lparr>fbuf := (fbuf f)[unat (fin f AND 31) := val], fin := fin f + 1\<rparr>)"

definition kfifo_get :: "kfifo16 \<Rightarrow> (nat \<times> kfifo16) option" where
  "kfifo_get f = (if fin f = fout f then None else Some (fbuf f ! unat (fout f AND 31), f\<lparr>fout := fout f + 1\<rparr>))"

text \<open>Appending the slot to the list.\<close>

definition append_node :: "nat \<Rightarrow> nat \<Rightarrow> msg_database \<Rightarrow> msg_database option" where
  "append_node index t mdb =
     Option.bind (upd_node index (\<lambda>n. n\<lparr>ntype := t, nindex := index\<rparr>) mdb) (\<lambda>mdb.
     Option.bind
       (if m_last mdb \<noteq> NULL_NODE
        then Option.bind (upd_node (m_last mdb) (\<lambda>n. n\<lparr>n_index := index\<rparr>) mdb) (\<lambda>mdb.
               Option.bind (node_at (m_last mdb) mdb) (\<lambda>pnode. upd_node index (\<lambda>n. n\<lparr>p_index := nindex pnode\<rparr>) mdb))
        else upd_node index (\<lambda>n. n\<lparr>p_index := NULL_NODE\<rparr>) (mdb\<lparr>m_first := index\<rparr>)) (\<lambda>mdb.
     upd_node index (\<lambda>n. n\<lparr>n_index := NULL_NODE\<rparr>) (mdb\<lparr>m_last := index\<rparr>)))"

definition msg_content_write ::
  "msg_payload \<Rightarrow> ('f, 's, 'u) msg_context \<Rightarrow> (int \<times> nat \<times> ('f, 's, 'u) msg_context) option" where
  "msg_content_write content ctx =
     Option.bind (msg_slot_allocate (db ctx)) (\<lambda>(index, mdb).
     if \<not> index < MAX_MESSAGES then None
     else Option.bind (append_node index (ptype content) mdb) (\<lambda>mdb.
       Option.bind (fmsg_write (payload_bytes content) (fmsg_offset mdb index) (ctx\<lparr>db := mdb\<rparr>)) (\<lambda>(ret, ctx).
         if ret < 0 then Option.bind (msg_slot_free index ctx) (\<lambda>(_, ctx). Some (ret, index, ctx))
         else
           let ctx = msg_mark_dirty ctx
           in Some (0, index, ctx\<lparr>fifo := kfifo_put index (fifo ctx), new_idx := index\<rparr>))))"

definition msg_notify :: "nat \<Rightarrow> nat \<Rightarrow> ('f, 's, 'u) msg_context \<Rightarrow> ('f, 's, 'u) msg_context" where
  "msg_notify idx st ctx =
     (if st = MSG_NOTIF_NORMAL
      then (case notify ctx of None \<Rightarrow> ctx | Some f \<Rightarrow> ctx\<lparr>user_data := f idx (user_data ctx)\<rparr>)
      else ctx)"

definition msg_storage_write ::
  "msg_payload option \<Rightarrow> ('f, 's, 'u) msg_context \<Rightarrow> (int \<times> ('f, 's, 'u) msg_context) option" where
  "msg_storage_write content ctx = (case content of
     None \<Rightarrow> Some (- EINVAL, ctx)
   | Some content \<Rightarrow>
       if ptype content \<ge> MAX_MESSAGE_TYPES then Some (- EINVAL, ctx)
       else
         let st = nstate (mstate ctx) ! ptype content
         in if notif_enable (mstate ctx) \<and> st \<noteq> MSG_NOTIF_DISABLE
            then Option.bind (msg_content_write content ctx) (\<lambda>(err, idx, ctx).
                   Some (err, if err = 0 then msg_notify idx st ctx else ctx))
            else Some (0, ctx))"

subsection \<open>Reading\<close>

text \<open>The index is cut to 16 bits; slot \<open>MAX_MESSAGES\<close> passes the test and is outside the array.\<close>

definition msg_storage_read ::
  "int \<Rightarrow> ('f, 's, 'u) msg_context \<Rightarrow> (int \<times> msg_payload option \<times> ('f, 's, 'u) msg_context) option" where
  "msg_storage_read i ctx =
     (let idx = nat (i mod 65536)
      in if idx > MAX_MESSAGES \<or> idx = NULL_NODE then Some (- EINVAL, None, ctx)
         else Option.bind (node_at idx (db ctx)) (\<lambda>node.
           if ntype node = INVALID_TYPE then Some (- EINVAL, None, ctx)
           else Option.bind (fmsg_read 300 (fmsg_offset (db ctx) idx) ctx) (\<lambda>(err, bs, ctx).
             if err < 0 then Some (err, None, ctx) else Some (0, Some (payload_of_bytes bs), ctx))))"

text \<open>The slots that \<open>MSG_STORAGE_FOREACH\<close> visits, from slot \<open>i\<close> on.\<close>

partial_function (option) foreach_from :: "msg_database \<Rightarrow> int \<Rightarrow> nat list option" where
  "foreach_from mdb i =
     (if i \<ge> 0 then Option.bind (foreach_from mdb (msg_storage_next i mdb)) (\<lambda>js. Some (nat i # js)) else Some [])"

definition msg_storage_foreach :: "msg_database \<Rightarrow> nat list option" where
  "msg_storage_foreach mdb = foreach_from mdb (msg_storage_first mdb)"

definition msg_storage_numbers :: "('f, 's, 'u) msg_context \<Rightarrow> nat option" where
  "msg_storage_numbers ctx = map_option length (msg_storage_foreach (db ctx))"

definition msg_storage_remove :: "int \<Rightarrow> ('f, 's, 'u) msg_context \<Rightarrow> (int \<times> ('f, 's, 'u) msg_context) option" where
  "msg_storage_remove i ctx = (if i < 0 then None else msg_slot_free (nat i) ctx)"

definition msg_storage_get_newidx :: "('f, 's, 'u) msg_context \<Rightarrow> int \<times> ('f, 's, 'u) msg_context" where
  "msg_storage_get_newidx ctx = (case kfifo_get (fifo ctx) of
     None \<Rightarrow> (- ENODATA, ctx)
   | Some (val, f) \<Rightarrow> (int val, ctx\<lparr>fifo := f\<rparr>))"

definition msg_storage_get_node_newidx :: "('f, 's, 'u) msg_context \<Rightarrow> int" where
  "msg_storage_get_node_newidx ctx = int (new_idx ctx)"

subsection \<open>Writing back\<close>

definition msg_header_write :: "('f, 's, 'u) msg_context \<Rightarrow> (int \<times> ('f, 's, 'u) msg_context) option" where
  "msg_header_write ctx =
     Option.bind (fmsg_write (db_bytes (db ctx)) 0 ctx) (\<lambda>(ret, ctx). Some (if ret < 0 then ret else 0, ctx))"

definition msg_state_write :: "('f, 's, 'u) msg_context \<Rightarrow> (int \<times> ('f, 's, 'u) msg_context) option" where
  "msg_state_write ctx =
     Option.bind (fmsg_write (state_bytes (mstate ctx)) MESSAGE_STATE_OFFSET ctx) (\<lambda>(ret, ctx).
       Some (if ret < 0 then ret else 0, ctx))"

text \<open>The error of the header is kept in a variable of the inner block: the result does not show it.\<close>

definition msg_flush_header_locked :: "('f, 's, 'u) msg_context \<Rightarrow> (int \<times> ('f, 's, 'u) msg_context) option" where
  "msg_flush_header_locked ctx =
     Option.bind (if dirty ctx then msg_header_write (ctx\<lparr>dirty := False\<rparr>) else Some (0, ctx)) (\<lambda>(inner, ctx).
       if inner \<noteq> 0 then Some (0, ctx)
       else if state_dirty ctx
       then Option.bind (msg_state_write ctx) (\<lambda>(err, ctx). Some (err, ctx\<lparr>state_dirty := False\<rparr>))
       else Some (0, ctx))"

definition msg_flush_locked :: "('f, 's, 'u) msg_context \<Rightarrow> (int \<times> ('f, 's, 'u) msg_context) option" where
  "msg_flush_locked ctx =
     Option.bind (msg_flush_header_locked ctx) (\<lambda>(err, ctx). if err = 0 then fmsg_flush ctx else Some (err, ctx))"

definition msg_storage_flush :: "('f, 's, 'u) msg_context \<Rightarrow> (int \<times> ('f, 's, 'u) msg_context) option" where
  "msg_storage_flush ctx = msg_flush_locked ctx"

definition msg_check_cb :: "('f, 's, 'u) msg_context \<Rightarrow> ('f, 's, 'u) msg_context option" where
  "msg_check_cb ctx =
     Option.bind (msg_flush_header_locked ctx) (\<lambda>(_, ctx).
       Some (ctx\<lparr>timer := map_option (\<lambda>_. Some MESSAGE_CHECK_PERIOD) (timer ctx)\<rparr>))"

definition msg_storage_clean :: "('f, 's, 'u) msg_context \<Rightarrow> (int \<times> ('f, 's, 'u) msg_context) option" where
  "msg_storage_clean ctx =
     Option.bind (fmsg_close ctx) (\<lambda>(_, ctx).
     Option.bind (fmsg_remove MSG_FILENAME ctx) (\<lambda>(r, ctx).
       if r \<noteq> 0 then msg_flush_locked (ctx\<lparr>db := (db ctx)\<lparr>m_magic := 0\<rparr>, dirty := True\<rparr>)
       else Option.bind (fmsg_open MSG_FILENAME ctx) (\<lambda>(err, ctx).
         if err \<noteq> 0 then None else Some (err, ctx\<lparr>db := msg_reset_locked True (db ctx)\<rparr>))))"

subsection \<open>Notification settings\<close>

definition msg_storage_set_bitvec :: "u32 \<Rightarrow> u32 \<Rightarrow> ('f, 's, 'u) msg_context \<Rightarrow> int \<times> ('f, 's, 'u) msg_context" where
  "msg_storage_set_bitvec setmsk clrmsk ctx =
     (let newval = (bitvect (mstate ctx) AND NOT clrmsk) OR setmsk
      in (0, if bitvect (mstate ctx) \<noteq> newval
             then ctx\<lparr>mstate := (mstate ctx)\<lparr>bitvect := newval\<rparr>, state_dirty := True\<rparr> else ctx))"

definition msg_storage_get_bitvect :: "('f, 's, 'u) msg_context \<Rightarrow> u32" where
  "msg_storage_get_bitvect ctx = bitvect (mstate ctx)"

definition msg_storage_set_notif_switch :: "bool \<Rightarrow> ('f, 's, 'u) msg_context \<Rightarrow> int \<times> ('f, 's, 'u) msg_context" where
  "msg_storage_set_notif_switch enable ctx =
     (0, if notif_enable (mstate ctx) \<noteq> enable
         then ctx\<lparr>mstate := (mstate ctx)\<lparr>notif_enable := enable\<rparr>, state_dirty := True\<rparr> else ctx)"

definition msg_storage_get_notif_switch :: "('f, 's, 'u) msg_context \<Rightarrow> bool" where
  "msg_storage_get_notif_switch ctx = notif_enable (mstate ctx)"

text \<open>A negative type is outside the array. The result is an error also when the state has been set.\<close>

definition msg_storage_set_notification ::
  "int \<Rightarrow> nat \<Rightarrow> ('f, 's, 'u) msg_context \<Rightarrow> (int \<times> ('f, 's, 'u) msg_context) option" where
  "msg_storage_set_notification t st ctx =
     (if t \<ge> int MAX_MESSAGE_TYPES then Some (- EINVAL, ctx)
      else if \<not> notif_enable (mstate ctx) then Some (- EACCES, ctx)
      else if t < 0 then None
      else Some (- EINVAL,
        ctx\<lparr>mstate := (mstate ctx)\<lparr>nstate := (nstate (mstate ctx))[nat t := st]\<rparr>, state_dirty := True\<rparr>))"

definition msg_storage_get_notification :: "int \<Rightarrow> ('f, 's, 'u) msg_context \<Rightarrow> (int \<times> nat option) option" where
  "msg_storage_get_notification t ctx =
     (if t \<ge> int MAX_MESSAGE_TYPES then Some (- EINVAL, None)
      else if \<not> notif_enable (mstate ctx) then Some (0, Some MSG_NOTIF_DISABLE)
      else if t < 0 then None
      else Some (0, Some (nstate (mstate ctx) ! nat t)))"

definition msg_storage_register_notifier ::
  "(nat \<Rightarrow> 'u \<Rightarrow> 'u) option \<Rightarrow> 'u \<Rightarrow> ('f, 's, 'u) msg_context \<Rightarrow> int \<times> ('f, 's, 'u) msg_context" where
  "msg_storage_register_notifier cb a ctx = (0, ctx\<lparr>notify := cb, user_data := a\<rparr>)"

subsection \<open>Start and stop\<close>

definition msg_storage_register ::
  "('f, 's) msg_fops option \<Rightarrow> ('f, 's, 'u) msg_context \<Rightarrow> int \<times> ('f, 's, 'u) msg_context" where
  "msg_storage_register fops ctx =
     (case fops of None \<Rightarrow> (- EINVAL, ctx) | Some f \<Rightarrow> (0, ctx\<lparr>f_ops := f\<rparr>))"

text \<open>
  \<open>tmr\<close> says whether \<open>os_timer_create\<close> succeeds, \<open>obs\<close> is the result of \<open>system_add_observer\<close>. The two
  structures are read over the old ones.
\<close>

definition msg_storage_init ::
  "bool \<Rightarrow> int \<Rightarrow> ('f, 's, 'u) msg_context \<Rightarrow> (int \<times> ('f, 's, 'u) msg_context) option" where
  "msg_storage_init tmr obs ctx =
     Option.bind (fmsg_open MSG_FILENAME ctx) (\<lambda>(err, ctx).
     if err \<noteq> 0 then Some (err, ctx)
     else Option.bind (fmsg_read 96 0 ctx) (\<lambda>(err, bs, ctx).
     let ctx = ctx\<lparr>db := db_of_bytes (buf_write (db_bytes (db ctx)) 0 bs)\<rparr>
     in if err < 0 then Some (err, ctx)
     else Option.bind (fmsg_read 60 MESSAGE_STATE_OFFSET ctx) (\<lambda>(err, bs, ctx).
     let ctx = ctx\<lparr>mstate := state_of_bytes (buf_write (state_bytes (mstate ctx)) 0 bs)\<rparr>
     in if err < 0 then Some (err, ctx)
     else Some (obs, ctx\<lparr>db := msg_reset_locked False (db ctx), mstate := msg_state_reset_locked False (mstate ctx),
       timer := (if tmr then Some None else timer ctx),
       fifo := (fifo ctx)\<lparr>fin := 0, fout := 0\<rparr>, obs_added := (obs = 0)\<rparr>))))"

definition msg_storage_deinit :: "('f, 's, 'u) msg_context \<Rightarrow> (int \<times> ('f, 's, 'u) msg_context) option" where
  "msg_storage_deinit ctx =
     Option.bind (msg_flush_locked ctx) (\<lambda>(_, ctx).
     let ctx = ctx\<lparr>timer := None\<rparr>
     in if fd ctx = None then Some (0, ctx)
        else Option.bind (fmsg_close ctx) (\<lambda>(_, ctx). Some (0, ctx\<lparr>fd := None\<rparr>)))"

definition msg_storage_listen :: "nat \<Rightarrow> ('f, 's, 'u) msg_context \<Rightarrow> (int \<times> ('f, 's, 'u) msg_context) option" where
  "msg_storage_listen reason ctx =
     (if reason \<noteq> SHUTDOWN_FACTORY_RESET then msg_storage_deinit ctx else Some (0, ctx))"

subsection \<open>The partition backend\<close>

text \<open>The handle is a partition; \<open>dds\<close> are the disks with a block device.\<close>

definition msg_partition_open :: "string \<Rightarrow> 'd pt_world \<Rightarrow> (int \<times> part_ref option \<times> 'd pt_world) option" where
  "msg_partition_open name w = (case disk_partition_find name w of
     Found dp \<Rightarrow> Some (0, Some dp, w) | NotFound \<Rightarrow> Some (- ENODATA, None, w) | Overrun \<Rightarrow> None)"

definition msg_partition_close :: "part_ref option \<Rightarrow> 'd pt_world \<Rightarrow> (int \<times> 'd pt_world) option" where
  "msg_partition_close h w = Some (- ENOSYS, w)"

definition msg_partition_flush :: "nat list \<Rightarrow> part_ref option \<Rightarrow> 'd pt_world \<Rightarrow> (int \<times> 'd pt_world) option" where
  "msg_partition_flush dds h w =
     (let bs = snd (simple_blkdev_sync (map (\<lambda>k. (disk_tab (reg w) k, stores w k)) dds))
      in Some (0, fold (\<lambda>(k, _, s) w. set_store k s w) (zip dds bs) w))"

definition msg_partition_write ::
  "part_ref option \<Rightarrow> u8 list \<Rightarrow> nat \<Rightarrow> 'd pt_world \<Rightarrow> (int \<times> 'd pt_world) option" where
  "msg_partition_write h buf ofs w = (case h of None \<Rightarrow> None | Some dp \<Rightarrow> lgpt_write dp ofs buf w)"

definition msg_partition_read ::
  "part_ref option \<Rightarrow> nat \<Rightarrow> nat \<Rightarrow> 'd pt_world \<Rightarrow> (int \<times> u8 list \<times> 'd pt_world) option" where
  "msg_partition_read h sz ofs w = (case h of None \<Rightarrow> None | Some dp \<Rightarrow> lgpt_read dp ofs sz w)"

definition msg_partition_remove :: "string \<Rightarrow> 'd pt_world \<Rightarrow> (int \<times> 'd pt_world) option" where
  "msg_partition_remove name w = (case disk_partition_find name w of
     Found dp \<Rightarrow> disk_partition_erase_all dp w | NotFound \<Rightarrow> Some (- ENODEV, w) | Overrun \<Rightarrow> None)"

definition msg_partition_ops :: "nat list \<Rightarrow> (part_ref, 'd pt_world) msg_fops" where
  "msg_partition_ops dds = \<lparr>f_open = msg_partition_open, f_close = Some msg_partition_close,
     f_flush = Some (msg_partition_flush dds), f_write = msg_partition_write, f_read = msg_partition_read,
     f_unlink = Some msg_partition_remove\<rparr>"

definition msg_partition_backend_init ::
  "nat list \<Rightarrow> bool \<Rightarrow> int \<Rightarrow> (part_ref, 'd pt_world, 'u) msg_context \<Rightarrow>
   (int \<times> (part_ref, 'd pt_world, 'u) msg_context) option" where
  "msg_partition_backend_init dds tmr obs ctx =
     (let (err, ctx) = msg_storage_register (Some (msg_partition_ops dds)) ctx
      in if err = 0 then msg_storage_init tmr obs ctx else Some (err, ctx))"

subsection \<open>Specification\<close>

text \<open>
  The nodes of the slots \<open>xs\<close> form a doubly linked run between \<open>p\<close> and \<open>e\<close>; the whole list runs
  between two \<open>NULL_NODE\<close>s.
\<close>

fun dl :: "msg_node list \<Rightarrow> nat \<Rightarrow> nat list \<Rightarrow> nat \<Rightarrow> bool" where
  "dl ns p [] e \<longleftrightarrow> True"
| "dl ns p (x # xs) e \<longleftrightarrow> nindex (ns ! x) = x \<and> p_index (ns ! x) = p \<and> n_index (ns ! x) = hd (xs @ [e]) \<and> dl ns x xs e"

definition links_ok :: "msg_database \<Rightarrow> nat list \<Rightarrow> bool" where
  "links_ok mdb xs \<longleftrightarrow> length (m_node mdb) = MAX_MESSAGES \<and> distinct xs \<and> set xs \<subseteq> {..<MAX_MESSAGES} \<and>
     dl (m_node mdb) NULL_NODE xs NULL_NODE \<and>
     m_first mdb = hd (xs @ [NULL_NODE]) \<and> m_last mdb = last (NULL_NODE # xs) \<and>
     (\<forall>i<MAX_MESSAGES. i \<notin> set xs \<longrightarrow> m_node mdb ! i = msg_node_init)"

definition bits_ok :: "u32 list \<Rightarrow> nat list \<Rightarrow> bool" where
  "bits_ok bm xs \<longleftrightarrow> (\<exists>w. bm = [w] \<and> (\<forall>i<32. bit w i \<longleftrightarrow> i \<in> set xs))"

definition wf_payload :: "msg_payload \<Rightarrow> bool" where
  "wf_payload p \<longleftrightarrow> timestamp p < 4294967296 \<and> pid p < 65536 \<and> ptype p < MAX_MESSAGE_TYPES \<and> c_len p < 65536 \<and>
     length (contact p) = 32 \<and> (\<forall>x\<in>set (contact p). x < 256) \<and> m_len p < 65536 \<and>
     length (pbuffer p) = 256 \<and> (\<forall>x\<in>set (pbuffer p). x < 256)"

text \<open>
  The database holds the messages \<open>ms\<close>, in the order of arrival with their slots, when the store holds
  the bytes \<open>v\<close>.
\<close>

definition msg_rep :: "msg_database \<Rightarrow> mem \<Rightarrow> (nat \<times> msg_payload) list \<Rightarrow> bool" where
  "msg_rep mdb v ms \<longleftrightarrow> m_magic mdb = MESSAGE_MAGIC \<and> m_offset mdb = MESSAGE_CONTENT_OFFSET \<and>
     links_ok mdb (map fst ms) \<and> bits_ok (m_bitmap mdb) (map fst ms) \<and>
     (\<forall>(i, p)\<in>set ms. wf_payload p \<and> ntype (m_node mdb ! i) = ptype p \<and>
        mem_read v (MESSAGE_CONTENT_OFFSET + i * 300) 300 = payload_bytes p)"

text \<open>A new message takes the first free slot, or the place of the oldest one.\<close>

definition add_message :: "msg_payload \<Rightarrow> (nat \<times> msg_payload) list \<Rightarrow> (nat \<times> msg_payload) list" where
  "add_message p ms = (case filter (\<lambda>i. i \<notin> fst ` set ms) [0..<MAX_MESSAGES] of
     [] \<Rightarrow> tl ms @ [(fst (hd ms), p)]
   | i # _ \<Rightarrow> ms @ [(i, p)])"

section \<open>Lemmas: the list of slots\<close>

lemma dl_append: "dl ns p (xs @ ys) e \<longleftrightarrow> dl ns p xs (hd (ys @ [e])) \<and> dl ns (last (p # xs)) ys e"
  by (induction xs arbitrary: p) (auto simp: hd_append)

lemma dl_cong: "(\<And>x. x \<in> set xs \<Longrightarrow> ns ! x = ns' ! x) \<Longrightarrow> dl ns p xs e = dl ns' p xs e"
  by (induction xs arbitrary: p) auto

lemma dl_update_out: "i \<notin> set xs \<Longrightarrow> dl (ns[i := n]) p xs e = dl ns p xs e"
  by (intro dl_cong) (metis nth_list_update_neq)

lemma dl_set_end:
  assumes "dl ns p xs e" "distinct xs" "set xs \<subseteq> {..<length ns}" "xs \<noteq> []"
  shows "dl (ns[last xs := (ns ! last xs)\<lparr>n_index := e'\<rparr>]) p xs e'"
proof -
  obtain ys y where xs: "xs = ys @ [y]" using assms(4) by (metis rev_exhaust)
  have "dl (ns[y := (ns ! y)\<lparr>n_index := e'\<rparr>]) p ys y = dl ns p ys y"
    using assms(2) xs by (intro dl_update_out) simp
  then show ?thesis using assms xs by (auto simp: dl_append)
qed

lemma dl_set_start:
  assumes "dl ns p xs e" "distinct xs" "set xs \<subseteq> {..<length ns}" "xs \<noteq> []"
  shows "dl (ns[hd xs := (ns ! hd xs)\<lparr>p_index := p'\<rparr>]) p' xs e"
proof -
  obtain y ys where xs: "xs = y # ys" using assms(4) by (cases xs) auto
  have "dl (ns[y := (ns ! y)\<lparr>p_index := p'\<rparr>]) y ys e = dl ns y ys e"
    using assms(2) xs by (intro dl_update_out) simp
  then show ?thesis using assms xs by auto
qed

lemma msg_remove_node_links:
  assumes "links_ok mdb (as @ i # bs)"
  shows "\<exists>mdb'. msg_remove_node i mdb = Some mdb' \<and> links_ok mdb' (as @ bs) \<and> m_bitmap mdb' = m_bitmap mdb \<and>
    m_magic mdb' = m_magic mdb \<and> m_offset mdb' = m_offset mdb \<and>
    (\<forall>j\<in>set (as @ bs). ntype (m_node mdb' ! j) = ntype (m_node mdb ! j))"
proof -
  let ?ns = "m_node mdb" and ?E = "65535 :: nat"
  have L: "length ?ns = 10" "distinct (as @ i # bs)" "set (as @ i # bs) \<subseteq> {..<10}" "dl ?ns ?E (as @ i # bs) ?E"
    "m_first mdb = hd ((as @ i # bs) @ [?E])" "m_last mdb = last (?E # as @ i # bs)"
    "\<forall>j<10. j \<notin> set (as @ i # bs) \<longrightarrow> ?ns ! j = msg_node_init"
    using assms by (simp_all add: links_ok_def)
  have D: "dl ?ns ?E as i" "nindex (?ns ! i) = i" "p_index (?ns ! i) = last (?E # as)"
    "n_index (?ns ! i) = hd (bs @ [?E])" "dl ?ns i bs ?E"
    using L(4) by (auto simp: dl_append)
  have E: "j \<noteq> ?E" if "j \<in> set (as @ i # bs)" for j using L(3) that by auto
  define n1 where "n1 = (if bs = [] then ?ns else ?ns[hd bs := (?ns ! hd bs)\<lparr>p_index := last (?E # as)\<rparr>])"
  define n2 where "n2 = (if as = [] then n1 else n1[last as := (n1 ! last as)\<lparr>n_index := hd (bs @ [?E])\<rparr>])"
  define n3 where "n3 = n2[i := msg_node_init]"
  have nb: "hd bs \<in> set bs" "hd bs \<noteq> i" "hd bs \<notin> set as" "hd bs < 10" if "bs \<noteq> []"
  proof -
    show b: "hd bs \<in> set bs" using that by simp
    show "hd bs \<noteq> i" "hd bs \<notin> set as" using b L(2) by auto
    show "hd bs < 10" using b L(3) by auto
  qed
  have na: "last as \<in> set as" "last as \<noteq> i" "last as \<notin> set bs" "last as < 10" if "as \<noteq> []"
  proof -
    show a: "last as \<in> set as" using that by simp
    show "last as \<noteq> i" "last as \<notin> set bs" using a L(2) by auto
    show "last as < 10" using a L(3) by auto
  qed
  have l: "length n1 = 10" "length n2 = 10" "length n3 = 10" using L(1) by (simp_all add: n1_def n2_def n3_def)
  have i1: "n1 ! i = ?ns ! i" using nb(2) by (simp add: n1_def)
  have i2: "n2 ! i = ?ns ! i" using na(2) i1 by (simp add: n2_def)
  have n1b: "dl n1 (last (?E # as)) bs ?E"
    using dl_set_start [OF D(5), of "last (?E # as)"] L(1-3) by (auto simp: n1_def)
  have n1a: "dl n1 ?E as i" using D(1) nb(3) by (simp add: n1_def dl_update_out)
  have n2a: "dl n2 ?E as (hd (bs @ [?E]))"
    using dl_set_end [OF n1a, of "hd (bs @ [?E])"] L(1-3) l by (auto simp: n2_def)
  have n2b: "dl n2 (last (?E # as)) bs ?E" using n1b na(3) by (auto simp: n2_def dl_update_out)
  have n3: "dl n3 ?E (as @ bs) ?E"
    using n2a n2b L(2) by (auto simp: dl_append n3_def dl_update_out)
  have eq: "n3 ! j = ?ns ! j" if "j \<noteq> i" "bs \<noteq> [] \<longrightarrow> j \<noteq> hd bs" "as \<noteq> [] \<longrightarrow> j \<noteq> last as" for j
    using that by (cases "bs = []"; cases "as = []") (auto simp: n3_def n2_def n1_def)
  have out: "n3 ! j = msg_node_init" if j: "j < 10" "j \<notin> set (as @ bs)" for j
  proof (cases "j = i")
    case True
    then show ?thesis using j l by (simp add: n3_def)
  next
    case False
    have "n3 ! j = ?ns ! j" using False j nb(1) na(1) by (intro eq) auto
    then show ?thesis using False j L(7) by simp
  qed
  have t1: "ntype (n1 ! j) = ntype (?ns ! j)" if "j < 10" for j using that L(1) nb(4) by (simp add: n1_def nth_list_update)
  have ty: "ntype (n3 ! j) = ntype (?ns ! j)" if j: "j \<in> set (as @ bs)" for j
  proof -
    have "j \<noteq> i" "j < 10" using j L(2,3) by auto
    then show ?thesis using t1 l(1) na(4) by (simp add: n3_def n2_def nth_list_update)
  qed
  let ?f = "if m_first mdb = i then hd (bs @ [?E]) else m_first mdb"
  let ?l = "if m_last mdb = i then last (?E # as) else m_last mdb"
  let ?m = "mdb\<lparr>m_first := ?f, m_last := ?l, m_node := n3\<rparr>"
  have i: "i < 10" "i \<noteq> ?E" using L(3) E by auto
  have s1: "(if n_index (?ns ! i) \<noteq> ?E then upd_node (n_index (?ns ! i)) (\<lambda>x. x\<lparr>p_index := p_index (?ns ! i)\<rparr>) mdb
      else Some mdb) = Some (mdb\<lparr>m_node := n1\<rparr>)"
    using D(3,4) nb(4) L(1) by (auto simp: upd_node_def n1_def)
  have s2: "(if p_index (?ns ! i) \<noteq> ?E then upd_node (p_index (?ns ! i)) (\<lambda>x. x\<lparr>n_index := n_index (?ns ! i)\<rparr>)
      (mdb\<lparr>m_node := n1\<rparr>) else Some (mdb\<lparr>m_node := n1\<rparr>)) = Some (mdb\<lparr>m_node := n2\<rparr>)"
    using D(3,4) na(4) l by (auto simp: upd_node_def n2_def)
  have "msg_remove_node i mdb = Some ?m"
    using i(1) L(1) l s1 s2 D(3,4)
    by (simp add: msg_remove_node_def node_at_def i1 i2) (simp add: upd_node_def n3_def Let_def)
  moreover have "?f = hd ((as @ bs) @ [?E])" using L(2,5) by (cases as) auto
  moreover have "?l = last (?E # as @ bs)"
    using L(2,6) by (cases bs rule: rev_cases) auto
  moreover have "set (as @ bs) \<subseteq> {..<10}" "distinct (as @ bs)" using L(2,3) by auto
  ultimately have "links_ok ?m (as @ bs)" "msg_remove_node i mdb = Some ?m"
    using l n3 out by (simp_all add: links_ok_def)
  then show ?thesis using ty by (intro exI [of _ ?m]) simp
qed

lemma msg_remove_node_unused:
  assumes "links_ok mdb xs" "i < MAX_MESSAGES" "i \<notin> set xs"
  shows "msg_remove_node i mdb = Some mdb"
proof -
  have n: "m_node mdb ! i = msg_node_init" "length (m_node mdb) = 10" using assms by (simp_all add: links_ok_def)
  have "m_first mdb \<noteq> i" "m_last mdb \<noteq> i"
    using assms by (auto simp: links_ok_def hd_append)
  then show ?thesis
    using n assms(2) list_update_id [of "m_node mdb" i]
    by (simp add: msg_remove_node_def node_at_def upd_node_def msg_node_init_def)
qed

lemma append_node_links:
  assumes "links_ok mdb xs" "i < MAX_MESSAGES" "i \<notin> set xs"
  shows "\<exists>mdb'. append_node i t mdb = Some mdb' \<and> links_ok mdb' (xs @ [i]) \<and> m_bitmap mdb' = m_bitmap mdb \<and>
    m_magic mdb' = m_magic mdb \<and> m_offset mdb' = m_offset mdb \<and> ntype (m_node mdb' ! i) = t \<and>
    (\<forall>j\<in>set xs. ntype (m_node mdb' ! j) = ntype (m_node mdb ! j))"
proof -
  let ?ns = "m_node mdb" and ?E = "65535 :: nat"
  have L: "length ?ns = 10" "distinct xs" "set xs \<subseteq> {..<10}" "dl ?ns ?E xs ?E"
    "m_first mdb = hd (xs @ [?E])" "m_last mdb = last (?E # xs)"
    "\<forall>j<10. j \<notin> set xs \<longrightarrow> ?ns ! j = msg_node_init"
    using assms(1) by (simp_all add: links_ok_def)
  have la: "last xs \<in> set xs" "last xs < 10" "last xs \<noteq> i" "last xs \<noteq> ?E" "nindex (?ns ! last xs) = last xs" if "xs \<noteq> []"
  proof -
    show a: "last xs \<in> set xs" using that by simp
    show l: "last xs < 10" "last xs \<noteq> i" using a L(3) assms(3) by auto
    show "last xs \<noteq> ?E" using l by simp
    show "nindex (?ns ! last xs) = last xs"
      using L(4) that by (cases xs rule: rev_cases) (auto simp: dl_append)
  qed
  define n1 where "n1 = (if xs = [] then ?ns else ?ns[last xs := (?ns ! last xs)\<lparr>n_index := i\<rparr>])"
  define n2 where "n2 = n1[i := \<lparr>ntype = t, nindex = i, n_index = ?E, p_index = last (?E # xs)\<rparr>]"
  let ?m = "mdb\<lparr>m_first := hd (xs @ [i]), m_last := i, m_node := n2\<rparr>"
  have l: "length n1 = 10" "length n2 = 10" using L(1) by (simp_all add: n1_def n2_def)
  have "append_node i t mdb = Some ?m"
  proof (cases "xs = []")
    case True
    then show ?thesis using L(1,6,7) assms(2) by (simp add: append_node_def upd_node_def n1_def n2_def msg_node_init_def)
  next
    case False
    note La = la [OF False]
    have "n2 = ?ns[i := (?ns ! i)\<lparr>ntype := t, nindex := i\<rparr>, last xs := (?ns ! last xs)\<lparr>n_index := i\<rparr>,
        i := \<lparr>ntype = t, nindex = i, n_index = ?E, p_index = last xs\<rparr>]"
      using False La(3) by (simp add: n1_def n2_def list_update_swap)
    then show ?thesis
      using False La L(1,5,6,7) assms(2,3)
      by (simp add: append_node_def upd_node_def node_at_def msg_node_init_def hd_append)
  qed
  moreover have "dl n2 ?E (xs @ [i]) ?E"
  proof -
    have "dl n1 ?E xs i" using dl_set_end [OF L(4), of i] L(1-3) by (auto simp: n1_def)
    then show ?thesis using assms(2,3) l(1) by (simp add: dl_append n2_def dl_update_out)
  qed
  moreover have "n2 ! j = msg_node_init" if "j < 10" "j \<notin> set (xs @ [i])" for j
  proof -
    have "xs \<noteq> [] \<Longrightarrow> last xs \<noteq> j" using that la(1) by auto
    then show ?thesis using that L(7) by (simp add: n2_def n1_def)
  qed
  moreover have "ntype (n2 ! j) = ntype (?ns ! j)" if "j \<in> set xs" for j
  proof -
    have "j \<noteq> i" using that assms(3) by auto
    then show ?thesis using la(2) L(1) by (simp add: n2_def n1_def nth_list_update)
  qed
  moreover have "ntype (n2 ! i) = t" using l(1) assms(2) by (simp add: n2_def)
  ultimately show ?thesis
    using L(2,3) assms(2,3) l by (intro exI [of _ ?m]) (simp add: links_ok_def hd_append)
qed

lemma slot_loop_first:
  assumes "bits_ok bm xs" "set xs \<subseteq> {..<MAX_MESSAGES}"
  shows "slot_loop bm 0 = (case filter (\<lambda>i. i \<notin> set xs) [0..<MAX_MESSAGES] of [] \<Rightarrow> None
    | i # _ \<Rightarrow> Some (i, [bm ! 0 OR push_bit i 1]))"
proof -
  obtain w where w: "bm = [w]" "\<forall>i<32. bit w i \<longleftrightarrow> i \<in> set xs" using assms(1) by (auto simp: bits_ok_def)
  have b10: "\<not> bit w 10" using w(2) assms(2) by auto
  have "bit (0xFFFFFFFF :: u32) 10" by simp
  then have n: "w \<noteq> 0xFFFFFFFF" using b10 by auto
  have "bit (NOT w) 10" using b10 by (simp add: bit_simps)
  then have n0: "NOT w \<noteq> 0" by auto
  obtain k where k: "k < 32" "ffsl_index (NOT w) = int k" "bit (NOT w) k" "\<forall>i<k. \<not> bit (NOT w) i"
    using ffsl_index_first [OF n0] by blast
  have kx: "k \<notin> set xs" "\<forall>i<k. i \<in> set xs" using k w(2) by (auto simp: bit_simps)
  have e: "nat (ffsl (NOT w) - 1) = k" using k(2) by (simp add: ffsl_index_def)
  show ?thesis
  proof (cases "k < 10")
    case True
    then have "[0..<10] = [0..<k] @ k # [k + 1..<10]"
      by (metis le_add1 less_imp_le_nat plus_nat.add_0 upt_add_eq_append upt_conv_Cons zero_le Suc_eq_plus1 le_add_diff_inverse)
    then have "filter (\<lambda>i. i \<notin> set xs) [0..<10] = k # filter (\<lambda>i. i \<notin> set xs) [k + 1..<10]"
      using kx by simp
    then show ?thesis using True n e w(1) by (simp add: Let_def)
  next
    case False
    then have "filter (\<lambda>i. i \<notin> set xs) [0..<10] = []" using kx by (simp add: filter_empty_conv)
    then show ?thesis using False n e w(1) by (simp add: Let_def)
  qed
qed

lemma bits_ok_set:
  assumes "bits_ok bm xs" "i < 32"
  shows "bits_ok [bm ! 0 OR push_bit i 1] (xs @ [i])"
proof -
  obtain w where "bm = [w]" "\<forall>i<32. bit w i \<longleftrightarrow> i \<in> set xs" using assms(1) by (auto simp: bits_ok_def)
  then show ?thesis using assms(2) by (auto simp: bits_ok_def bit_simps)
qed

lemma bits_ok_clear:
  assumes "bits_ok bm xs" "i < 32"
  shows "bits_ok (bm[0 := (bm ! 0) AND NOT (push_bit i 1)]) (filter (\<lambda>j. j \<noteq> i) xs)"
proof -
  obtain w where "bm = [w]" "\<forall>i<32. bit w i \<longleftrightarrow> i \<in> set xs" using assms(1) by (auto simp: bits_ok_def)
  then show ?thesis using assms(2) by (auto simp: bits_ok_def bit_simps)
qed

lemma bits_ok_perm: "set xs = set ys \<Longrightarrow> bits_ok bm xs = bits_ok bm ys"
  by (simp add: bits_ok_def)

lemma all_slots_used:
  fixes xs :: "nat list"
  assumes "filter (\<lambda>i. i \<notin> set xs) [0..<MAX_MESSAGES] = []"
  shows "xs \<noteq> []"
  using assms by (cases xs) (auto simp: filter_empty_conv dest: spec [of _ 0])

text \<open>The slot a message gets and the slots that stay, as \<open>add_message\<close> has them.\<close>

lemma msg_slot_allocate_links:
  assumes "links_ok mdb xs" "bits_ok (m_bitmap mdb) xs"
    and "(i, ys) = (case filter (\<lambda>i. i \<notin> set xs) [0..<MAX_MESSAGES] of [] \<Rightarrow> (hd xs, tl xs) | i # _ \<Rightarrow> (i, xs))"
  shows "\<exists>mdb'. msg_slot_allocate mdb = Some (i, mdb') \<and> links_ok mdb' ys \<and> bits_ok (m_bitmap mdb') (ys @ [i]) \<and>
    i < MAX_MESSAGES \<and> i \<notin> set ys \<and> m_magic mdb' = m_magic mdb \<and> m_offset mdb' = m_offset mdb \<and>
    (\<forall>j\<in>set ys. ntype (m_node mdb' ! j) = ntype (m_node mdb ! j))"
proof (cases "filter (\<lambda>i. i \<notin> set xs) [0..<MAX_MESSAGES]")
  case Nil
  have ne: "xs \<noteq> []" by (rule all_slots_used [OF Nil])
  have iy: "i = hd xs" "ys = tl xs" using assms(3) Nil by simp_all
  then have xs: "xs = [] @ i # ys" using ne by simp
  have r: "set xs \<subseteq> {..<10}" "distinct xs" "m_first mdb = i"
    using assms(1) ne iy(1) by (simp_all add: links_ok_def hd_append)
  obtain mdb' where m: "msg_remove_node i mdb = Some mdb'" "links_ok mdb' ys" "m_bitmap mdb' = m_bitmap mdb"
    "m_magic mdb' = m_magic mdb" "m_offset mdb' = m_offset mdb" "\<forall>j\<in>set ys. ntype (m_node mdb' ! j) = ntype (m_node mdb ! j)"
    using msg_remove_node_links [OF assms(1) [unfolded xs]] by auto
  have "bits_ok (m_bitmap mdb') (ys @ [i])"
    using assms(2) m(3) bits_ok_perm [of xs "ys @ [i]"] xs by simp
  moreover have "slot_loop (m_bitmap mdb) 0 = None" using slot_loop_first [OF assms(2) r(1)] Nil by simp
  ultimately show ?thesis using m r xs by (auto simp: msg_slot_allocate_def)
next
  case (Cons j js)
  have iy: "i = j" "ys = xs" using assms(3) Cons by simp_all
  have r: "set xs \<subseteq> {..<10}" using assms(1) by (simp add: links_ok_def)
  have "j \<in> set (filter (\<lambda>i. i \<notin> set xs) [0..<MAX_MESSAGES])" unfolding Cons by simp
  then have j: "j < 10" "j \<notin> set xs" by auto
  have "slot_loop (m_bitmap mdb) 0 = Some (j, [m_bitmap mdb ! 0 OR push_bit j 1])"
    using slot_loop_first [OF assms(2) r] Cons by simp
  moreover have "bits_ok [m_bitmap mdb ! 0 OR push_bit j 1] (xs @ [j])" by (rule bits_ok_set [OF assms(2)]) (use j in simp)
  ultimately show ?thesis using assms(1) iy j by (simp add: msg_slot_allocate_def links_ok_def)
qed

lemma payload_roundtrip:
  assumes "wf_payload p"
  shows "payload_of_bytes (payload_bytes p) = p" "length (payload_bytes p) = 300"
proof -
  let ?ws = "[timestamp p, pid p, ptype p, c_len p] @ contact p @ [m_len p] @ pbuffer p"
  have l: "length (contact p) = 32" "length (pbuffer p) = 256" using assms by (simp_all add: wf_payload_def)
  have r: "list_all2 (\<lambda>w x. x < 256 ^ w) (replicate n 1) xs" if "length xs = n" "\<forall>x\<in>set xs. x < 256" for n and xs :: "nat list"
    using that by (simp add: list_all2_conv_all_nth)
  have "list_all2 (\<lambda>w x. x < 256 ^ w) payload_layout ?ws"
    unfolding payload_layout_def using assms l
    by (intro list_all2_appendI r) (simp_all add: wf_payload_def)
  from unpack_pack [OF this] show "payload_of_bytes (payload_bytes p) = p"
    using l by (simp add: payload_of_bytes_def payload_bytes_def Let_def nth_append)
  show "length (payload_bytes p) = 300"
    using l length_pack [of ?ws payload_layout] by (simp add: payload_bytes_def payload_layout_def sum_list_replicate)
qed

section \<open>Lemmas: the database over a byte store\<close>

lemma msg_rep_distinct: "msg_rep mdb v ms \<Longrightarrow> distinct (map fst ms) \<and> set (map fst ms) \<subseteq> {..<MAX_MESSAGES}"
  by (simp add: msg_rep_def links_ok_def)

text \<open>What stays when a message is added: all of them, or all but the oldest.\<close>

lemma add_message_split:
  assumes "distinct (map fst ms)"
  obtains i ms' where "add_message p ms = ms' @ [(i, p)]" "set ms' \<subseteq> set ms" "i \<notin> set (map fst ms')"
    "(i, map fst ms') = (case filter (\<lambda>i. i \<notin> set (map fst ms)) [0..<MAX_MESSAGES] of
       [] \<Rightarrow> (hd (map fst ms), tl (map fst ms)) | i # _ \<Rightarrow> (i, map fst ms))"
proof (cases "filter (\<lambda>i. i \<notin> set (map fst ms)) [0..<MAX_MESSAGES]")
  case Nil
  have "map fst ms \<noteq> []" by (rule all_slots_used [OF Nil])
  then obtain m ms' where ms: "ms = m # ms'" by (cases ms) auto
  have "add_message p ms = ms' @ [(fst m, p)]" using Nil ms by (simp add: add_message_def)
  then show thesis using that [of ms' "fst m"] assms ms Nil by auto
next
  case (Cons i js)
  have "i \<in> set (filter (\<lambda>i. i \<notin> set (map fst ms)) [0..<MAX_MESSAGES])" unfolding Cons by simp
  moreover have "add_message p ms = ms @ [(i, p)]" using Cons by (simp add: add_message_def)
  ultimately show thesis using that [of ms i] Cons by auto
qed

lemma slots_apart:
  fixes i j :: nat
  assumes "i \<noteq> j"
  shows "8192 + j * 300 + 300 \<le> 8192 + i * 300 \<or> 8192 + i * 300 + 300 \<le> 8192 + j * 300"
  using assms by (cases "i < j") auto

lemma mark_dirty_simps [simp]:
  "db (msg_mark_dirty c) = db c" "dev (msg_mark_dirty c) = dev c" "f_ops (msg_mark_dirty c) = f_ops c"
  "fd (msg_mark_dirty c) = fd c" "mstate (msg_mark_dirty c) = mstate c" "dirty (msg_mark_dirty c)"
  "fifo (msg_mark_dirty c) = fifo c" "notify (msg_mark_dirty c) = notify c" "state_dirty (msg_mark_dirty c) = state_dirty c"
  by (simp_all add: msg_mark_dirty_def)

lemma msg_notify_simps [simp]:
  "db (msg_notify i t c) = db c" "dev (msg_notify i t c) = dev c" "f_ops (msg_notify i t c) = f_ops c"
  "fd (msg_notify i t c) = fd c" "mstate (msg_notify i t c) = mstate c" "dirty (msg_notify i t c) = dirty c"
  "state_dirty (msg_notify i t c) = state_dirty c"
  by (simp_all add: msg_notify_def split: option.split)

text \<open>Walking the list.\<close>

lemma dl_next:
  assumes "dl (m_node mdb) p (x # xs) NULL_NODE" "set (x # xs) \<subseteq> {..<MAX_MESSAGES}"
  shows "msg_storage_next (int x) mdb = (if xs = [] then - 22 else int (hd xs))"
proof -
  have "xs \<noteq> [] \<Longrightarrow> hd xs \<noteq> 65535" using assms(2) by (cases xs) auto
  then show ?thesis using assms by (auto simp: msg_storage_next_def Let_def hd_append)
qed

lemma foreach_dl:
  assumes "dl (m_node mdb) p xs NULL_NODE" "set xs \<subseteq> {..<MAX_MESSAGES}"
  shows "foreach_from mdb (if xs = [] then - 22 else int (hd xs)) = Some xs"
  using assms
proof (induction xs arbitrary: p)
  case Nil
  then show ?case by (simp add: foreach_from.simps)
next
  case (Cons x xs)
  have "foreach_from mdb (msg_storage_next (int x) mdb) = Some xs"
    using dl_next [OF Cons.prems] Cons.IH [of x] Cons.prems by auto
  then show ?case by (simp add: foreach_from.simps [of mdb "int x"])
qed

lemma too_many_dl:
  assumes "dl (m_node mdb) p xs NULL_NODE" "set xs \<subseteq> {..<MAX_MESSAGES}"
    and "k \<le> MAX_MESSAGES"
  shows "too_many mdb (if xs = [] then - 22 else int (hd xs)) k \<longleftrightarrow> k + length xs > MAX_MESSAGES"
  using assms
proof (induction xs arbitrary: p k)
  case (Cons x xs)
  have "k < 10 \<Longrightarrow> too_many mdb (msg_storage_next (int x) mdb) (k + 1) \<longleftrightarrow> k + 1 + length xs > 10"
    using dl_next [OF Cons.prems(1,2)] Cons.IH [of x "k + 1"] Cons.prems by (auto simp del: too_many.simps)
  then show ?case using Cons.prems(3) by (auto simp: too_many.simps [of mdb "int x"] simp del: too_many.simps)
qed (simp add: too_many.simps [of mdb "- 22"] del: too_many.simps)

lemma links_ok_first:
  assumes "links_ok mdb xs"
  shows "msg_storage_first mdb = (if xs = [] then - 22 else int (hd xs))"
proof -
  have "xs \<noteq> [] \<Longrightarrow> hd xs \<noteq> 65535" using assms by (cases xs) (auto simp: links_ok_def)
  then show ?thesis using assms by (auto simp: msg_storage_first_def links_ok_def hd_append)
qed

lemma links_ok_foreach: "links_ok mdb xs \<Longrightarrow> msg_storage_foreach mdb = Some xs"
  using foreach_dl [of mdb 65535 xs] links_ok_first [of mdb xs]
  by (simp add: msg_storage_foreach_def links_ok_def)

lemma links_ok_length: "links_ok mdb xs \<Longrightarrow> length xs \<le> MAX_MESSAGES"
  using card_mono [of "{..<10 :: nat}" "set xs"] by (simp add: links_ok_def distinct_card)

lemma links_ok_reset:
  assumes "links_ok mdb xs" "m_magic mdb = MESSAGE_MAGIC"
  shows "msg_reset_locked False mdb = mdb"
proof -
  have "\<not> too_many mdb (msg_storage_first mdb) 0"
    using too_many_dl [of mdb 65535 xs 0] links_ok_first [OF assms(1)] links_ok_length [OF assms(1)] assms(1)
    by (simp add: links_ok_def del: too_many.simps)
  then show ?thesis using assms(2) by (simp add: msg_reset_locked_def del: too_many.simps)
qed

text \<open>Removing a slot, used or not.\<close>

lemma msg_slot_free_rep:
  assumes "msg_rep (db c) v ms" "i < MAX_MESSAGES"
  shows "\<exists>mdb. msg_slot_free i c = Some (0, msg_mark_dirty (c\<lparr>db := mdb\<rparr>)) \<and>
    msg_rep mdb v (filter (\<lambda>m. fst m \<noteq> i) ms)"
proof -
  let ?xs = "map fst ms" and ?ms = "filter (\<lambda>m. fst m \<noteq> i) ms"
  let ?m = "(db c)\<lparr>m_bitmap := (m_bitmap (db c))[0 := (m_bitmap (db c) ! 0) AND NOT (push_bit i 1)]\<rparr>"
  have R: "m_magic (db c) = MESSAGE_MAGIC" "m_offset (db c) = 8192" "links_ok (db c) ?xs" "bits_ok (m_bitmap (db c)) ?xs"
    "\<forall>(i, p)\<in>set ms. wf_payload p \<and> ntype (m_node (db c) ! i) = ptype p \<and> mem_read v (8192 + i * 300) 300 = payload_bytes p"
    using assms(1) by (simp_all add: msg_rep_def)
  have f: "map fst ?ms = filter (\<lambda>j. j \<noteq> i) ?xs" by (simp add: filter_map comp_def)
  have b: "bits_ok (m_bitmap ?m) (map fst ?ms)" unfolding f using bits_ok_clear [OF R(4), of i] assms(2) by simp
  have L: "links_ok ?m ?xs" using R(3) by (simp add: links_ok_def)
  have "\<exists>mdb. msg_remove_node i ?m = Some mdb \<and> links_ok mdb (map fst ?ms) \<and> m_bitmap mdb = m_bitmap ?m \<and>
    m_magic mdb = m_magic ?m \<and> m_offset mdb = m_offset ?m \<and>
    (\<forall>j\<in>set (map fst ?ms). ntype (m_node mdb ! j) = ntype (m_node ?m ! j))"
  proof (cases "i \<in> set ?xs")
    case True
    then obtain as bs where xs: "?xs = as @ i # bs" by (meson split_list)
    have "distinct (as @ i # bs)" using R(3) xs by (simp add: links_ok_def)
    then have "filter (\<lambda>j. j \<noteq> i) as = as" "filter (\<lambda>j. j \<noteq> i) bs = bs" by (auto simp: filter_id_conv)
    then have "map fst ?ms = as @ bs" unfolding f xs by simp
    then show ?thesis using msg_remove_node_links [OF L [unfolded xs]] by simp
  next
    case False
    then have "map fst ?ms = ?xs" unfolding f by (auto simp: filter_id_conv)
    then show ?thesis using msg_remove_node_unused [OF L assms(2) False] L by simp
  qed
  then obtain mdb where m: "msg_remove_node i ?m = Some mdb" "links_ok mdb (map fst ?ms)" "m_bitmap mdb = m_bitmap ?m"
    "m_magic mdb = m_magic ?m" "m_offset mdb = m_offset ?m"
    "\<forall>j\<in>set (map fst ?ms). ntype (m_node mdb ! j) = ntype (m_node ?m ! j)" by blast
  have "\<forall>(i, p)\<in>set ?ms. wf_payload p \<and> ntype (m_node mdb ! i) = ptype p \<and> mem_read v (8192 + i * 300) 300 = payload_bytes p"
  proof (clarsimp)
    fix j p assume j: "(j, p) \<in> set ms" "j \<noteq> i"
    have "j \<in> set (map fst ?ms)" using j by force
    then have "ntype (m_node mdb ! j) = ntype (m_node (db c) ! j)" using m(6) by fastforce
    then show "wf_payload p \<and> ntype (m_node mdb ! j) = ptype p \<and> mem_read v (8192 + j * 300) 300 = payload_bytes p"
      using R(5) j(1) by auto
  qed
  then have "msg_rep mdb v ?ms" unfolding msg_rep_def using m(2-5) b R(1,2) by simp
  moreover have "msg_slot_free i c = Some (0, msg_mark_dirty (c\<lparr>db := mdb\<rparr>))"
    using m(1) assms(2) by (simp add: msg_slot_free_def)
  ultimately show ?thesis by blast
qed

context byte_store
begin

lemma msg_content_write_adds:
  assumes "rep (dev c) v" "f_write (f_ops c) (fd c) = wr" "11192 \<le> cap" "msg_rep (db c) v ms" "wf_payload p"
  shows "\<exists>i c' v'. msg_content_write p c = Some (0, i, c') \<and> rep (dev c') v' \<and>
    msg_rep (db c') v' (add_message p ms) \<and> f_ops c' = f_ops c \<and> fd c' = fd c \<and> mstate c' = mstate c \<and>
    dirty c' \<and> state_dirty c' = state_dirty c \<and> (\<forall>a<8192. v' a = v a)"
proof -
  let ?xs = "map fst ms"
  have R: "m_magic (db c) = MESSAGE_MAGIC" "m_offset (db c) = 8192" "links_ok (db c) ?xs" "bits_ok (m_bitmap (db c)) ?xs"
    "\<forall>(i, p)\<in>set ms. wf_payload p \<and> ntype (m_node (db c) ! i) = ptype p \<and> mem_read v (8192 + i * 300) 300 = payload_bytes p"
    using assms(4) by (simp_all add: msg_rep_def)
  obtain i ms' where A: "add_message p ms = ms' @ [(i, p)]" "set ms' \<subseteq> set ms" "i \<notin> set (map fst ms')"
    "(i, map fst ms') = (case filter (\<lambda>i. i \<notin> set ?xs) [0..<MAX_MESSAGES] of [] \<Rightarrow> (hd ?xs, tl ?xs) | i # _ \<Rightarrow> (i, ?xs))"
    by (rule add_message_split [OF conjunct1 [OF msg_rep_distinct [OF assms(4)]], of p])
  obtain m1 where m1: "msg_slot_allocate (db c) = Some (i, m1)" "links_ok m1 (map fst ms')"
    "bits_ok (m_bitmap m1) (map fst ms' @ [i])" "i < 10" "m_magic m1 = m_magic (db c)" "m_offset m1 = m_offset (db c)"
    "\<forall>j\<in>set (map fst ms'). ntype (m_node m1 ! j) = ntype (m_node (db c) ! j)"
    using msg_slot_allocate_links [OF R(3,4) A(4)] by auto
  obtain m2 where m2: "append_node i (ptype p) m1 = Some m2" "links_ok m2 (map fst ms' @ [i])" "m_bitmap m2 = m_bitmap m1"
    "m_magic m2 = m_magic m1" "m_offset m2 = m_offset m1" "ntype (m_node m2 ! i) = ptype p"
    "\<forall>j\<in>set (map fst ms'). ntype (m_node m2 ! j) = ntype (m_node m1 ! j)"
    using append_node_links [OF m1(2,4) A(3), of "ptype p"] by auto
  note P = payload_roundtrip [OF assms(5)]
  have o: "fmsg_offset m2 i = 8192 + i * 300" using m1(4,6) m2(5) R(2) by (simp add: fmsg_offset_def)
  let ?v = "mem_write v (8192 + i * 300) (payload_bytes p)"
  have "8192 + i * 300 + length (payload_bytes p) \<le> cap" using m1(4) P(2) assms(3) by simp
  then obtain s where s: "wr (payload_bytes p) (8192 + i * 300) (dev c) = Some (int (length (payload_bytes p)), s)" "rep s ?v"
    using wr [OF assms(1)] by blast
  let ?c = "(msg_mark_dirty (c\<lparr>db := m2, dev := s\<rparr>))\<lparr>fifo := kfifo_put i (fifo c), new_idx := i\<rparr>"
  have "msg_content_write p c = Some (0, i, ?c)"
    using m1(1,4) m2(1) s(1) o assms(2) by (simp add: msg_content_write_def fmsg_write_def)
  moreover have "msg_rep m2 ?v (ms' @ [(i, p)])"
  proof -
    have "wf_payload q \<and> ntype (m_node m2 ! j) = ptype q \<and> mem_read ?v (8192 + j * 300) 300 = payload_bytes q"
      if q: "(j, q) \<in> set ms'" for j q
    proof -
      have j: "j \<in> set (map fst ms')" "j \<noteq> i" using q A(3) by force+
      have "mem_read ?v (8192 + j * 300) 300 = mem_read v (8192 + j * 300) 300"
        using slots_apart [OF j(2)] P(2) by (intro mem_read_write_disjoint) auto
      moreover have "(j, q) \<in> set ms" using q A(2) by auto
      then have "wf_payload q \<and> ntype (m_node (db c) ! j) = ptype q \<and> mem_read v (8192 + j * 300) 300 = payload_bytes q"
        using R(5) by auto
      moreover have "ntype (m_node m2 ! j) = ntype (m_node (db c) ! j)" using bspec [OF m2(7) j(1)] bspec [OF m1(7) j(1)] by simp
      ultimately show ?thesis by simp
    qed
    moreover have "mem_read ?v (8192 + i * 300) 300 = payload_bytes p" using P(2) by (intro mem_read_write_same) simp
    ultimately have "\<forall>(j, q)\<in>set (ms' @ [(i, p)]). wf_payload q \<and> ntype (m_node m2 ! j) = ptype q \<and>
        mem_read ?v (8192 + j * 300) 300 = payload_bytes q"
      using m2(6) assms(5) by auto
    then show ?thesis unfolding msg_rep_def using m2(2-5) m1(3,5,6) R(1,2) by simp
  qed
  moreover have "\<forall>a<8192. ?v a = v a" by (simp add: mem_write_def)
  ultimately show ?thesis using s(2) A(1) by (intro exI [of _ i] exI [of _ ?c] exI [of _ ?v]) simp
qed

end

section \<open>Lemmas: header and state on the disk\<close>

lemma dl_bounds:
  "dl ns p xs e \<Longrightarrow> x \<in> set xs \<Longrightarrow>
   nindex (ns ! x) = x \<and> n_index (ns ! x) \<in> insert e (set xs) \<and> p_index (ns ! x) \<in> insert p (set xs)"
proof (induction xs arbitrary: p)
  case (Cons y xs)
  then show ?case by (cases xs) auto
qed simp

lemma nodes_of_words: "nodes_of_words (concat (map node_words ns)) = ns"
  by (induction ns) (auto simp: node_words_def)

lemma length_node_words: "length (concat (map node_words ns)) = 4 * length ns"
  by (induction ns) (auto simp: node_words_def)

lemma list_all2_replicate:
  "length xs = n \<Longrightarrow> (\<forall>x\<in>set xs. x < 256 ^ w) \<Longrightarrow> list_all2 (\<lambda>w x. x < 256 ^ w) (replicate n w) xs" for xs :: "nat list"
  by (simp add: list_all2_conv_all_nth)

lemma length_db_bytes:
  "length (m_bitmap d) = 1 \<Longrightarrow> length (m_node d) = MAX_MESSAGES \<Longrightarrow> length (db_bytes d) = 96"
  unfolding db_bytes_def
  by (subst length_pack) (simp_all add: db_layout_def length_node_words sum_list_replicate)

lemma length_state_bytes: "length (nstate st) = MAX_MESSAGE_TYPES \<Longrightarrow> length (state_bytes st) = 60"
  unfolding state_bytes_def by (subst length_pack) (simp_all add: state_layout_def sum_list_replicate)

lemma db_roundtrip:
  assumes "m_magic d < 4294967296" "m_offset d < 4294967296" "m_first d < 65536" "m_last d < 65536"
    and "length (m_bitmap d) = 1" "length (m_node d) = MAX_MESSAGES" "\<forall>n\<in>set (m_node d). \<forall>x\<in>set (node_words n). x < 65536"
  shows "db_of_bytes (db_bytes d) = d"
proof -
  obtain w where w: "m_bitmap d = [w]" using assms(5) by (cases "m_bitmap d") auto
  let ?ns = "concat (map node_words (m_node d))"
  let ?ws = "[m_magic d, unat w] @ ?ns @ [m_first d, m_last d, m_offset d]"
  have l: "length ?ns = 40" using assms(6) by (simp add: length_node_words)
  have "list_all2 (\<lambda>w x. x < 256 ^ w) db_layout ?ws"
    unfolding db_layout_def using assms(1-4,7) l
    by (intro list_all2_appendI list_all2_replicate) auto
  from unpack_pack [OF this] have u: "unpack db_layout (db_bytes d) = ?ws" using w by (simp add: db_bytes_def)
  have "take 40 (drop 2 ?ws) = ?ns" using l by (simp add: numeral_2_eq_2)
  then show ?thesis using l w by (simp add: db_of_bytes_def u nodes_of_words nth_append Let_def)
qed

lemma state_roundtrip:
  assumes "nmagic st < 4294967296" "length (nstate st) = MAX_MESSAGE_TYPES" "\<forall>x\<in>set (nstate st). x < 256" "npad st < 256"
  shows "state_of_bytes (state_bytes st) = st"
proof -
  let ?ws = "[nmagic st] @ nstate st @ [if notif_enable st then 1 else 0, npad st, unat (bitvect st)]"
  have "list_all2 (\<lambda>w x. x < 256 ^ w) state_layout ?ws"
    unfolding state_layout_def using assms by (intro list_all2_appendI list_all2_replicate) auto
  from unpack_pack [OF this] have u: "unpack state_layout (state_bytes st) = ?ws" by (simp add: state_bytes_def)
  show ?thesis using assms(2) by (simp add: state_of_bytes_def u nth_append Let_def)
qed

lemma msg_rep_db_roundtrip:
  assumes "msg_rep mdb v ms"
  shows "db_of_bytes (db_bytes mdb) = mdb" "length (db_bytes mdb) = 96"
proof -
  let ?xs = "map fst ms"
  have L: "length (m_node mdb) = 10" "set ?xs \<subseteq> {..<10}" "dl (m_node mdb) 65535 ?xs 65535"
    "m_first mdb = hd (?xs @ [65535])" "m_last mdb = last (65535 # ?xs)"
    "\<forall>i<10. i \<notin> set ?xs \<longrightarrow> m_node mdb ! i = msg_node_init"
    using assms unfolding msg_rep_def links_ok_def by blast+
  have R: "m_magic mdb = MESSAGE_MAGIC" "m_offset mdb = 8192" "length (m_bitmap mdb) = 1"
    "\<forall>(i, p)\<in>set ms. wf_payload p \<and> ntype (m_node mdb ! i) = ptype p"
    using assms by (auto simp: msg_rep_def bits_ok_def)
  have s: "x < 65536" if "x \<in> insert 65535 (set ?xs)" for x using that L(2) by auto
  have "x < 65536" if n: "n \<in> set (m_node mdb)" and x: "x \<in> set (node_words n)" for n x
  proof -
    obtain i where i: "i < 10" "n = m_node mdb ! i" using n L(1) by (auto simp: in_set_conv_nth)
    show ?thesis
    proof (cases "i \<in> set ?xs")
      case True
      then obtain p where "(i, p) \<in> set ms" by auto
      then have "ntype n < 65536" using R(4) i by (auto simp: wf_payload_def)
      then show ?thesis using dl_bounds [OF L(3) True] x i s [of i] True s by (auto simp: node_words_def)
    next
      case False
      then show ?thesis using L(6) i x by (auto simp: node_words_def msg_node_init_def)
    qed
  qed
  moreover have "m_first mdb < 65536" unfolding L(4) by (rule s) (cases ms; simp)
  moreover have "m_last mdb < 65536" unfolding L(5) by (rule s) (use last_in_set [of "65535 # ?xs"] in simp)
  ultimately show "db_of_bytes (db_bytes mdb) = mdb" "length (db_bytes mdb) = 96"
    using L(1) R by (simp_all add: db_roundtrip length_db_bytes)
qed

section \<open>The database over its backend\<close>

text \<open>What is on the disk when the header or the state is not marked for writing.\<close>

definition msg_stored :: "('f, 's, 'u) msg_context \<Rightarrow> mem \<Rightarrow> bool" where
  "msg_stored c v \<longleftrightarrow> (\<not> dirty c \<longrightarrow> mem_read v 0 96 = db_bytes (db c)) \<and>
     (\<not> state_dirty c \<longrightarrow> mem_read v MESSAGE_STATE_OFFSET 60 = state_bytes (mstate c))"

definition state_ok :: "msg_notifstate \<Rightarrow> bool" where
  "state_ok st \<longleftrightarrow> nmagic st = MESSAGE_STATE_MAGIC \<and> length (nstate st) = MAX_MESSAGE_TYPES \<and>
     (\<forall>x\<in>set (nstate st). x < 256) \<and> npad st < 256"

text \<open>The state of a context that uses a backend: everything above together.\<close>

definition msg_holds :: "('s \<Rightarrow> mem \<Rightarrow> bool) \<Rightarrow> ('f, 's) msg_fops \<Rightarrow> 'f \<Rightarrow> ('f, 's, 'u) msg_context \<Rightarrow> mem \<Rightarrow>
   (nat \<times> msg_payload) list \<Rightarrow> bool" where
  "msg_holds rep ops h c v ms \<longleftrightarrow> f_ops c = ops \<and> fd c = Some h \<and> rep (dev c) v \<and> msg_rep (db c) v ms \<and>
     state_ok (mstate c) \<and> msg_stored c v"

lemma msg_rep_content:
  assumes "msg_rep mdb v ms" "\<forall>a\<ge>8192. v' a = v a"
  shows "msg_rep mdb v' ms"
proof -
  have "mem_read v' (8192 + i * 300) 300 = mem_read v (8192 + i * 300) 300" for i
    by (rule mem_read_cong) (use assms(2) in auto)
  then show ?thesis using assms(1) by (simp add: msg_rep_def)
qed

text \<open>
  What the database expects of a backend: a byte store with room for all messages, behind a handle
  that opening the file gives, and a flush that keeps the contents.
\<close>

locale msg_backend = byte_store rep cap "f_write ops (Some h)" "f_read ops (Some h)"
  for rep :: "'s \<Rightarrow> mem \<Rightarrow> bool" and cap :: nat and ops :: "('f, 's) msg_fops" and h :: 'f +
  assumes opens: "rep s v \<Longrightarrow> f_open ops MSG_FILENAME s = Some (0, Some h, s)"
    and flushes: "rep s v \<Longrightarrow> f_flush ops = Some fl \<Longrightarrow> \<exists>s'. fl (Some h) s = Some (0, s') \<and> rep s' v"
    and room: "rep s v \<Longrightarrow> 11192 \<le> cap"
begin

text \<open>Every operation on a context that holds messages keeps that and does to the messages what its name says.\<close>

lemma write_holds:
  assumes "msg_holds rep ops h c v ms" "wf_payload p" "notif_enable (mstate c)" "nstate (mstate c) ! ptype p \<noteq> 2"
  shows "\<exists>c' v'. msg_storage_write (Some p) c = Some (0, c') \<and> msg_holds rep ops h c' v' (add_message p ms)"
proof -
  have H: "f_ops c = ops" "fd c = Some h" "rep (dev c) v" "msg_rep (db c) v ms" "state_ok (mstate c)" "msg_stored c v"
    using assms(1) by (simp_all add: msg_holds_def)
  have w: "f_write (f_ops c) (fd c) = f_write ops (Some h)" using H(1,2) by simp
  obtain i c' v' where c': "msg_content_write p c = Some (0, i, c')" "rep (dev c') v'" "msg_rep (db c') v' (add_message p ms)"
    "f_ops c' = f_ops c" "fd c' = fd c" "mstate c' = mstate c" "dirty c'" "state_dirty c' = state_dirty c"
    "\<forall>a<8192. v' a = v a"
    using msg_content_write_adds [OF H(3) w room [OF H(3)] H(4) assms(2)] by blast
  let ?c = "msg_notify i (nstate (mstate c) ! ptype p) c'"
  have "mem_read v' 4096 60 = mem_read v 4096 60" by (rule mem_read_cong) (use c'(9) in auto)
  then have "msg_holds rep ops h ?c v' (add_message p ms)"
    using c' H by (simp add: msg_holds_def msg_stored_def)
  moreover have "ptype p < 50" using assms(2) by (simp add: wf_payload_def)
  then have "msg_storage_write (Some p) c = Some (0, ?c)"
    using c'(1) assms(3,4) by (simp add: msg_storage_write_def)
  ultimately show ?thesis by blast
qed

lemma remove_holds:
  assumes "msg_holds rep ops h c v ms" "i < MAX_MESSAGES"
  shows "\<exists>c'. msg_storage_remove (int i) c = Some (0, c') \<and> msg_holds rep ops h c' v (filter (\<lambda>m. fst m \<noteq> i) ms)"
proof -
  obtain mdb where "msg_slot_free i c = Some (0, msg_mark_dirty (c\<lparr>db := mdb\<rparr>))" "msg_rep mdb v (filter (\<lambda>m. fst m \<noteq> i) ms)"
    using msg_slot_free_rep [of c v ms i] assms by (auto simp: msg_holds_def)
  then show ?thesis
    using assms(1) by (auto simp: msg_storage_remove_def msg_holds_def msg_stored_def msg_mark_dirty_def)
qed

lemma read_holds:
  assumes "msg_holds rep ops h c v ms" "(i, p) \<in> set ms" "ptype p \<noteq> 0"
  shows "\<exists>c'. msg_storage_read (int i) c = Some (0, Some p, c') \<and> msg_holds rep ops h c' v ms"
proof -
  have H: "f_ops c = ops" "fd c = Some h" "rep (dev c) v" "msg_rep (db c) v ms"
    using assms(1) by (simp_all add: msg_holds_def)
  have P: "wf_payload p" "ntype (m_node (db c) ! i) = ptype p" "mem_read v (8192 + i * 300) 300 = payload_bytes p"
    using H(4) assms(2) by (auto simp: msg_rep_def)
  have i: "i < 10" "length (m_node (db c)) = 10" "fmsg_offset (db c) i = 8192 + i * 300"
    using H(4) assms(2) by (auto simp: msg_rep_def links_ok_def fmsg_offset_def)
  have "8192 + i * 300 + 300 \<le> cap" using i(1) room [OF H(3)] by simp
  then obtain s' where s': "f_read ops (Some h) 300 (8192 + i * 300) (dev c) = Some (300, payload_bytes p, s')" "rep s' v"
    using rd [OF H(3)] P(3) by fastforce
  have "msg_storage_read (int i) c = Some (0, Some p, c\<lparr>dev := s'\<rparr>)"
    using i P(2) assms(3) s'(1) H(1,2) payload_roundtrip [OF P(1)]
    by (simp add: msg_storage_read_def node_at_def fmsg_read_def nat_mod_as_int Let_def)
  moreover have "msg_holds rep ops h (c\<lparr>dev := s'\<rparr>) v ms"
    using assms(1) s'(2) by (simp add: msg_holds_def msg_stored_def)
  ultimately show ?thesis by blast
qed

text \<open>Writing back the header and the state.\<close>

lemma header_write_holds:
  assumes "msg_holds rep ops h c v ms"
  shows "\<exists>c' v'. (if dirty c then msg_header_write (c\<lparr>dirty := False\<rparr>) else Some (0, c)) = Some (0, c') \<and>
    msg_holds rep ops h c' v' ms \<and> \<not> dirty c' \<and> state_dirty c' = state_dirty c \<and> db c' = db c \<and> mstate c' = mstate c"
proof (cases "dirty c")
  case True
  have H: "f_ops c = ops" "fd c = Some h" "rep (dev c) v" "msg_rep (db c) v ms" "state_ok (mstate c)" "msg_stored c v"
    using assms(1) by (simp_all add: msg_holds_def)
  note B = msg_rep_db_roundtrip [OF H(4)]
  let ?v = "mem_write v 0 (db_bytes (db c))"
  obtain s' where s': "f_write ops (Some h) (db_bytes (db c)) 0 (dev c) = Some (int (length (db_bytes (db c))), s')" "rep s' ?v"
    using wr [OF H(3), of 0 "db_bytes (db c)"] B(2) room [OF H(3)] by auto
  let ?c = "c\<lparr>dirty := False, dev := s'\<rparr>"
  have "mem_read ?v 4096 60 = mem_read v 4096 60" using B(2) by (intro mem_read_write_disjoint) simp
  moreover have "mem_read ?v 0 96 = db_bytes (db c)" using B(2) by (intro mem_read_write_same) simp
  moreover have "msg_rep (db c) ?v ms" using B(2) by (intro msg_rep_content [OF H(4)]) (simp add: mem_write_def)
  ultimately have "msg_holds rep ops h ?c ?v ms" using H s'(2) by (simp add: msg_holds_def msg_stored_def)
  moreover have "msg_header_write (c\<lparr>dirty := False\<rparr>) = Some (0, ?c)"
    using s'(1) H(1,2) by (simp add: msg_header_write_def fmsg_write_def)
  ultimately show ?thesis using True by (intro exI [of _ ?c] exI [of _ ?v]) simp
qed (use assms in auto)

lemma state_write_holds:
  assumes "msg_holds rep ops h c v ms"
  shows "\<exists>c' v'. msg_state_write c = Some (0, c') \<and> msg_holds rep ops h (c'\<lparr>state_dirty := False\<rparr>) v' ms \<and>
    dirty c' = dirty c \<and> db c' = db c \<and> mstate c' = mstate c"
proof -
  have H: "f_ops c = ops" "fd c = Some h" "rep (dev c) v" "msg_rep (db c) v ms" "state_ok (mstate c)" "msg_stored c v"
    using assms(1) by (simp_all add: msg_holds_def)
  have B: "length (state_bytes (mstate c)) = 60" using H(5) by (simp add: state_ok_def length_state_bytes)
  let ?v = "mem_write v 4096 (state_bytes (mstate c))"
  obtain s' where s': "f_write ops (Some h) (state_bytes (mstate c)) 4096 (dev c) =
      Some (int (length (state_bytes (mstate c))), s')" "rep s' ?v"
    using wr [OF H(3), of 4096 "state_bytes (mstate c)"] B room [OF H(3)] by auto
  have "mem_read ?v 0 96 = mem_read v 0 96" by (intro mem_read_write_disjoint) simp
  moreover have "mem_read ?v 4096 60 = state_bytes (mstate c)" using B by (intro mem_read_write_same) simp
  moreover have "msg_rep (db c) ?v ms" using B by (intro msg_rep_content [OF H(4)]) (simp add: mem_write_def)
  ultimately have "msg_holds rep ops h (c\<lparr>dev := s', state_dirty := False\<rparr>) ?v ms"
    using H s'(2) by (simp add: msg_holds_def msg_stored_def)
  moreover have "msg_state_write c = Some (0, c\<lparr>dev := s'\<rparr>)"
    using s'(1) H(1,2) by (simp add: msg_state_write_def fmsg_write_def)
  ultimately show ?thesis by (intro exI [of _ "c\<lparr>dev := s'\<rparr>"] exI [of _ ?v]) simp
qed

lemma flush_holds:
  assumes "msg_holds rep ops h c v ms"
  shows "\<exists>c' v'. msg_storage_flush c = Some (0, c') \<and> msg_holds rep ops h c' v' ms \<and> \<not> dirty c' \<and> \<not> state_dirty c' \<and>
    db c' = db c \<and> mstate c' = mstate c"
proof -
  obtain c1 v1 where c1: "(if dirty c then msg_header_write (c\<lparr>dirty := False\<rparr>) else Some (0, c)) = Some (0, c1)"
    "msg_holds rep ops h c1 v1 ms" "\<not> dirty c1" "state_dirty c1 = state_dirty c" "db c1 = db c" "mstate c1 = mstate c"
    using header_write_holds [OF assms] by blast
  obtain c2 v2 where c2: "(if state_dirty c1 then Option.bind (msg_state_write c1) (\<lambda>(err, ctx). Some (err, ctx\<lparr>state_dirty := False\<rparr>))
      else Some (0, c1)) = Some (0, c2)" "msg_holds rep ops h c2 v2 ms" "\<not> dirty c2" "\<not> state_dirty c2" "db c2 = db c" "mstate c2 = mstate c"
  proof (cases "state_dirty c1")
    case True
    obtain c' v' where "msg_state_write c1 = Some (0, c')" "msg_holds rep ops h (c'\<lparr>state_dirty := False\<rparr>) v' ms"
      "dirty c' = dirty c1" "db c' = db c1" "mstate c' = mstate c1"
      using state_write_holds [OF c1(2)] by blast
    then show thesis using that [of "c'\<lparr>state_dirty := False\<rparr>" v'] True c1 by simp
  next
    case False
    then show thesis using that [of c1 v1] c1 by simp
  qed
  have h: "msg_flush_header_locked c = Some (0, c2)" using c1(1) c2(1) by (simp add: msg_flush_header_locked_def)
  have H: "f_ops c2 = ops" "fd c2 = Some h" "rep (dev c2) v2" using c2(2) by (simp_all add: msg_holds_def)
  show ?thesis
  proof (cases "f_flush ops")
    case None
    then show ?thesis using h H c2 by (simp add: msg_storage_flush_def msg_flush_locked_def fmsg_flush_def) blast
  next
    case (Some fl)
    obtain s' where s': "fl (Some h) (dev c2) = Some (0, s')" "rep s' v2" using flushes [OF H(3) Some] by blast
    have "msg_storage_flush c = Some (0, c2\<lparr>dev := s'\<rparr>)"
      using h H(1,2) Some s'(1) by (simp add: msg_storage_flush_def msg_flush_locked_def fmsg_flush_def)
    moreover have "msg_holds rep ops h (c2\<lparr>dev := s'\<rparr>) v2 ms"
      using c2(2) s'(2) by (simp add: msg_holds_def msg_stored_def)
    ultimately show ?thesis using c2 by (intro exI [of _ "c2\<lparr>dev := s'\<rparr>"] exI [of _ v2]) simp
  qed
qed

text \<open>Starting on a disk that has been flushed.\<close>

lemma restart_holds:
  assumes "msg_holds rep ops h c v ms" "\<not> dirty c" "\<not> state_dirty c"
    and "f_ops c2 = ops" "dev c2 = dev c" "length (m_bitmap (db c2)) = 1" "length (m_node (db c2)) = MAX_MESSAGES"
    and "length (nstate (mstate c2)) = MAX_MESSAGE_TYPES"
  shows "\<exists>c3. msg_storage_init tmr 0 c2 = Some (0, c3) \<and> msg_holds rep ops h c3 v ms \<and>
    db c3 = db c \<and> mstate c3 = mstate c"
proof -
  have H: "rep (dev c2) v" "msg_rep (db c) v ms" "state_ok (mstate c)"
    "mem_read v 0 96 = db_bytes (db c)" "mem_read v 4096 60 = state_bytes (mstate c)"
    using assms(1-3,5) by (simp_all add: msg_holds_def msg_stored_def)
  have o: "fmsg_open MSG_FILENAME c2 = Some (0, c2\<lparr>fd := Some h\<rparr>)"
    using opens [OF H(1)] assms(4) by (simp add: fmsg_open_def)
  note B = msg_rep_db_roundtrip [OF H(2)]
  have S: "state_of_bytes (state_bytes (mstate c)) = mstate c" "length (state_bytes (mstate c)) = 60"
    using H(3) by (simp_all add: state_ok_def state_roundtrip length_state_bytes)
  obtain s1 where s1: "f_read ops (Some h) 96 0 (dev c2) = Some (96, db_bytes (db c), s1)" "rep s1 v"
    using rd [OF H(1), of 0 96] H(4) room [OF H(1)] by auto
  obtain s2 where s2: "f_read ops (Some h) 60 4096 s1 = Some (60, state_bytes (mstate c), s2)" "rep s2 v"
    using rd [OF s1(2), of 4096 60] H(5) room [OF H(1)] by auto
  have b: "buf_write (db_bytes (db c2)) 0 (db_bytes (db c)) = db_bytes (db c)"
    "buf_write (state_bytes (mstate c2)) 0 (state_bytes (mstate c)) = state_bytes (mstate c)"
    using assms(6-8) B(2) S(2) by (simp_all add: length_db_bytes length_state_bytes)
  have r: "msg_reset_locked False (db c) = db c" "msg_state_reset_locked False (mstate c) = mstate c"
    using H(2,3) links_ok_reset by (auto simp: msg_rep_def msg_state_reset_locked_def state_ok_def)
  let ?c = "c2\<lparr>fd := Some h, dev := s2, db := db c, mstate := mstate c, timer := (if tmr then Some None else timer c2),
       fifo := (fifo c2)\<lparr>fin := 0, fout := 0\<rparr>, obs_added := True\<rparr>"
  have "msg_storage_init tmr 0 c2 = Some (0, ?c)"
    using o s1(1) s2(1) assms(4) b B(1) S(1) r by (simp add: msg_storage_init_def fmsg_read_def Let_def)
  moreover have "msg_holds rep ops h ?c v ms"
    using assms(4) s2(2) H by (simp add: msg_holds_def msg_stored_def)
  ultimately show ?thesis by (intro exI [of _ ?c]) simp
qed

end

section \<open>A partition as backend\<close>

text \<open>The synchronisation treats every block device on its own.\<close>

lemma bdev_sync_each:
  "snd (bdev_sync e m iv (map (\<lambda>k. (D k, S k)) ks)) = map (\<lambda>k. hd (snd (bdev_sync e m iv [(D k, S k)]))) ks"
  by (induction ks) (auto simp: Let_def split: prod.split)

lemma fold_set_store:
  assumes "distinct ks"
  shows "fold (\<lambda>(k, _, s) w. set_store k s w) (zip ks (map g ks)) w =
    w\<lparr>stores := (\<lambda>k. if k \<in> set ks then snd (g k) else stores w k)\<rparr>"
  using assms
proof (induction ks arbitrary: w)
  case (Cons k ks)
  then have "fold (\<lambda>(k, _, s) w. set_store k s w) (zip (k # ks) (map g (k # ks))) w =
    (set_store k (snd (g k)) w)\<lparr>stores := (\<lambda>j. if j \<in> set ks then snd (g j) else stores (set_store k (snd (g k)) w) j)\<rparr>"
    by (simp add: case_prod_unfold)
  also have "\<dots> = w\<lparr>stores := (\<lambda>j. if j \<in> set (k # ks) then snd (g j) else stores w j)\<rparr>"
    using Cons.prems by (auto simp: set_store_def fun_eq_iff intro!: pt_world.equality)
  finally show ?case .
qed simp

lemma part_rep_flush:
  assumes "part_rep contents i n w v" "distinct dds"
  shows "\<exists>w'. msg_partition_flush dds h w = Some (0, w') \<and> part_rep contents i n w' v \<and> partition_table w' = partition_table w"
proof -
  let ?k = "parition_disk_cache w ! i" and ?D = "disk_tab (reg w)" and ?o = "part_offset (Entry i) w"
  let ?g = "\<lambda>k. hd (snd (bdev_sync BLKDEV_HOLD_TIME 2147483647 False [(?D k, stores w k)]))"
  let ?w = "w\<lparr>stores := (\<lambda>k. if k \<in> set dds then snd (?g k) else stores w k)\<rparr>"
  obtain u where u: "blk_rep (?D ?k) contents (stores w ?k) u" "\<forall>a<n. v a = u (?o + a)"
    and e: "entry_ok contents w i" "part_len (Entry i) w = n"
    using assms(1) by (auto simp: part_rep_def)
  have F: "flash_disk (?D ?k) contents" using e(1) by (simp add: entry_ok_def)
  have "blk_rep (?D ?k) contents (snd (?g ?k)) u"
    using flash_disk.simple_blkdev_sync_rep [OF F, of "fst (stores w ?k)" "snd (stores w ?k)" u False] u(1) by auto
  then have "blk_rep (?D ?k) contents (stores ?w ?k) u" using u(1) by simp
  moreover have "part_offset (Entry i) ?w = ?o" "part_len (Entry i) ?w = n" "entry_ok contents ?w i"
    using e by (simp_all add: part_offset_def part_len_def entry_ok_def)
  ultimately have "part_rep contents i n ?w v" unfolding part_rep_def using u(2) by auto
  moreover have "msg_partition_flush dds h w = Some (0, ?w)"
    unfolding msg_partition_flush_def simple_blkdev_sync_def Let_def bdev_sync_each
    unfolding fold_set_store [OF assms(2)] ..
  ultimately show ?thesis by (intro exI [of _ ?w]) simp
qed

lemma lgpt_write_table: "lgpt_write p a xs w = Some (r, w') \<Longrightarrow> partition_table w' = partition_table w"
  by (auto simp: lgpt_write_def bind_eq_Some_conv split: if_splits)

lemma lgpt_read_table: "lgpt_read p a n w = Some (r, xs, w') \<Longrightarrow> partition_table w' = partition_table w"
  by (auto simp: lgpt_read_def bind_eq_Some_conv split: if_splits)

text \<open>A world in which partition \<open>i\<close> of \<open>n\<close> bytes is the message file.\<close>

definition msg_part_rep :: "('d \<Rightarrow> mem) \<Rightarrow> nat \<Rightarrow> nat \<Rightarrow> nat list \<Rightarrow> 'd pt_world \<Rightarrow> mem \<Rightarrow> bool" where
  "msg_part_rep contents i n dds w v \<longleftrightarrow> part_rep contents i n w v \<and>
     disk_partition_find MSG_FILENAME w = Found (Entry i) \<and> 11192 \<le> n \<and> distinct dds"

lemma find_table: "partition_table w' = partition_table w \<Longrightarrow> disk_partition_find name w' = disk_partition_find name w"
  by (simp add: disk_partition_find_def partition_match_def)

interpretation part_msg: msg_backend "msg_part_rep contents i n dds" n "msg_partition_ops dds" "Entry i" for contents i n dds
proof unfold_locales
  fix s :: "'a pt_world" and v off xs m fl
  assume R: "msg_part_rep contents i n dds s v"
  then have P: "part_rep contents i n s v" by (simp add: msg_part_rep_def)
  show "f_open (msg_partition_ops dds) MSG_FILENAME s = Some (0, Some (Entry i), s)" "11192 \<le> n"
    using R by (simp_all add: msg_part_rep_def msg_partition_ops_def msg_partition_open_def)
  show "\<exists>s'. f_write (msg_partition_ops dds) (Some (Entry i)) xs off s = Some (int (length xs), s') \<and>
      msg_part_rep contents i n dds s' (mem_write v off xs)" if r: "off + length xs \<le> n"
  proof -
    obtain w where w: "lgpt_write (Entry i) off xs s = Some (int (length xs), w)" "part_rep contents i n w (mem_write v off xs)"
      using part_rep_write [OF P r] by blast
    then show ?thesis using R find_table [OF lgpt_write_table [OF w(1)]]
      by (simp add: msg_part_rep_def msg_partition_ops_def msg_partition_write_def)
  qed
  show "\<exists>s'. f_read (msg_partition_ops dds) (Some (Entry i)) m off s = Some (int m, mem_read v off m, s') \<and>
      msg_part_rep contents i n dds s' v" if r: "off + m \<le> n"
  proof -
    obtain w where w: "lgpt_read (Entry i) off m s = Some (int m, mem_read v off m, w)" "part_rep contents i n w v"
      using part_rep_read [OF P r] by blast
    then show ?thesis using R find_table [OF lgpt_read_table [OF w(1)]]
      by (simp add: msg_part_rep_def msg_partition_ops_def msg_partition_read_def)
  qed
  show "\<exists>s'. fl (Some (Entry i)) s = Some (0, s') \<and> msg_part_rep contents i n dds s' v"
    if f: "f_flush (msg_partition_ops dds) = Some fl"
  proof -
    have d: "distinct dds" "fl = msg_partition_flush dds" using R f by (simp_all add: msg_part_rep_def msg_partition_ops_def)
    obtain w where "fl (Some (Entry i)) s = Some (0, w)" "part_rep contents i n w v" "partition_table w = partition_table s"
      using part_rep_flush [OF P d(1), of "Some (Entry i)"] d(2) by blast
    then show ?thesis using R find_table [of w s] by (simp add: msg_part_rep_def)
  qed
qed

section \<open>Properties\<close>

text \<open>
  C9. A message written to the database, over a partition behind the block cache, becomes the newest
  one: it takes the first free slot or, when all are used, the slot of the oldest message, which is
  the only one lost. The iteration visits the messages in the order of arrival, and every message
  with a valid type reads back as it was written.
\<close>

theorem msg_write_keeps_newest:
  assumes "msg_holds (msg_part_rep contents i n dds) (msg_partition_ops dds) (Entry i) c v ms"
    and "wf_payload p" "notif_enable (mstate c)" "nstate (mstate c) ! ptype p \<noteq> MSG_NOTIF_DISABLE"
  shows "\<exists>c' v'. msg_storage_write (Some p) c = Some (0, c') \<and>
    msg_holds (msg_part_rep contents i n dds) (msg_partition_ops dds) (Entry i) c' v' (add_message p ms) \<and>
    msg_storage_foreach (db c') = Some (map fst (add_message p ms)) \<and>
    (\<forall>(j, q)\<in>set (add_message p ms). ptype q \<noteq> INVALID_TYPE \<longrightarrow>
       (\<exists>c''. msg_storage_read (int j) c' = Some (0, Some q, c'')))"
proof -
  obtain c' v' where c': "msg_storage_write (Some p) c = Some (0, c')"
    "msg_holds (msg_part_rep contents i n dds) (msg_partition_ops dds) (Entry i) c' v' (add_message p ms)"
    using part_msg.write_holds [OF assms] by blast
  have "links_ok (db c') (map fst (add_message p ms))" using c'(2) by (simp add: msg_holds_def msg_rep_def)
  from links_ok_foreach [OF this] show ?thesis using c' part_msg.read_holds [OF c'(2)] by blast
qed

text \<open>An empty database on a partition of the virtual flash.\<close>

definition example_msg_world :: "mem pt_world" where
  "example_msg_world = \<lparr>partition_table =
      [\<lparr>pname = ''msgfile.db'', pparent = ''virtual-flash'', poffset = 4096, plen = 16384, pchild = []\<rparr>],
    parition_disk_cache = [1], reg = example_disks, stores = (\<lambda>_. (example_bdev, \<lambda>_. 0xFF))\<rparr>"

definition example_msg :: "(part_ref, mem pt_world, nat list) msg_context" where
  "example_msg = \<lparr>db = \<lparr>m_magic = MESSAGE_MAGIC, m_bitmap = [0], m_node = replicate MAX_MESSAGES msg_node_init,
      m_first = NULL_NODE, m_last = NULL_NODE, m_offset = MESSAGE_CONTENT_OFFSET\<rparr>,
    mstate = msg_state_reinit, f_ops = msg_partition_ops [1], obs_added = True, timer = Some None, fd = Some (Entry 0),
    fifo = \<lparr>fin = 0, fout = 0, fbuf = replicate 32 0\<rparr>, notify = Some (\<lambda>i is. i # is), user_data = [],
    dirty = True, state_dirty = True, new_idx = 0, dev = example_msg_world\<rparr>"

definition example_payload :: msg_payload where
  "example_payload = \<lparr>timestamp = 1, pid = 2, ptype = 3, c_len = 0, contact = replicate 32 0, m_len = 0, pbuffer = replicate 256 7\<rparr>"

lemma example_msg_holds:
  "msg_holds (msg_part_rep (\<lambda>m. m) 0 16384 [1]) (msg_partition_ops [1]) (Entry 0) example_msg (\<lambda>_. 0xFF) []"
proof -
  have d: "disk_tab (reg example_msg_world) = (\<lambda>_. vdisk)" "stores example_msg_world = (\<lambda>_. (example_bdev, \<lambda>_. 0xFF))"
    "parition_disk_cache example_msg_world = [1]" "part_len (Entry 0) example_msg_world = 16384"
    "part_offset (Entry 0) example_msg_world = 4096" "length (partition_table example_msg_world) = 1"
    "poffset (partition_table example_msg_world ! 0) = 4096" "plen (partition_table example_msg_world ! 0) = 16384"
    by (simp_all add: example_msg_world_def example_disks_def part_len_def part_offset_def)
  have "entry_ok (\<lambda>m. m) example_msg_world 0"
    using vflash.flash_disk_axioms by (simp add: entry_ok_def d) (simp add: vdisk_def)
  then have "part_rep (\<lambda>m. m) 0 16384 example_msg_world (\<lambda>_. 0xFF)"
    unfolding part_rep_def using example_blk_rep by (auto simp: d intro!: exI [of _ "\<lambda>_. 0xFF"])
  moreover have "disk_partition_find ''msgfile.db'' example_msg_world = Found (Entry 0)"
    by (simp add: disk_partition_find_def partition_match_def example_msg_world_def)
  ultimately have "msg_part_rep (\<lambda>m. m) 0 16384 [1] example_msg_world (\<lambda>_. 0xFF)" by (simp add: msg_part_rep_def)
  then show ?thesis
    by (simp add: msg_holds_def example_msg_def msg_rep_def links_ok_def bits_ok_def state_ok_def msg_state_reinit_def
        msg_stored_def)
qed

lemma example_payload_wf: "wf_payload example_payload"
  by (simp add: wf_payload_def example_payload_def)

theorem msg_write_keeps_newest_witness:
  "\<exists>c'. msg_storage_write (Some example_payload) example_msg = Some (0, c') \<and> msg_storage_foreach (db c') = Some [0] \<and>
     (\<exists>c''. msg_storage_read 0 c' = Some (0, Some example_payload, c''))"
proof -
  have "add_message example_payload [] = [(0, example_payload)]" by (simp add: add_message_def upt_rec)
  then show ?thesis
    using msg_write_keeps_newest [OF example_msg_holds example_payload_wf]
    by (auto simp: example_msg_def msg_state_reinit_def example_payload_def)
qed

text \<open>
  Removing a slot takes exactly its message out of the list, and nothing when the slot is free;
  the others keep their order and contents, and their number is reported.
\<close>

theorem msg_remove_one:
  assumes "msg_holds (msg_part_rep contents i n dds) (msg_partition_ops dds) (Entry i) c v ms" "j < MAX_MESSAGES"
  shows "\<exists>c'. msg_storage_remove (int j) c = Some (0, c') \<and>
    msg_holds (msg_part_rep contents i n dds) (msg_partition_ops dds) (Entry i) c' v (filter (\<lambda>m. fst m \<noteq> j) ms) \<and>
    msg_storage_numbers c' = Some (length (filter (\<lambda>m. fst m \<noteq> j) ms))"
proof -
  obtain c' where c': "msg_storage_remove (int j) c = Some (0, c')"
    "msg_holds (msg_part_rep contents i n dds) (msg_partition_ops dds) (Entry i) c' v (filter (\<lambda>m. fst m \<noteq> j) ms)"
    using part_msg.remove_holds [OF assms] by blast
  then have "links_ok (db c') (map fst (filter (\<lambda>m. fst m \<noteq> j) ms))" by (simp add: msg_holds_def msg_rep_def)
  from links_ok_foreach [OF this] show ?thesis using c' by (intro exI [of _ c']) (simp add: msg_storage_numbers_def)
qed

theorem msg_remove_one_witness:
  "\<exists>c'. msg_storage_remove 3 example_msg = Some (0, c') \<and> msg_storage_numbers c' = Some 0"
  using msg_remove_one [OF example_msg_holds, of 3] by auto



text \<open>
  What modelling showed: a failed write of the header is not reported and the database is no longer
  marked for writing; setting a notification state reports an error although it is set.
\<close>

lemma msg_flush_hides_error:
  assumes "dirty c" "f_write (f_ops c) (fd c) (db_bytes (db c)) 0 (dev c) = Some (- EIO, s)"
  shows "msg_flush_header_locked c = Some (0, c\<lparr>dirty := False, dev := s\<rparr>)"
  using assms by (simp add: msg_flush_header_locked_def msg_header_write_def fmsg_write_def)

lemma msg_set_notification_fails:
  assumes "notif_enable (mstate c)" "0 \<le> t" "t < int MAX_MESSAGE_TYPES"
  shows "\<exists>c'. msg_storage_set_notification t st c = Some (- EINVAL, c') \<and>
    nstate (mstate c') = (nstate (mstate c))[nat t := st]"
  using assms by (simp add: msg_storage_set_notification_def)

end
