(* ===== verification/Radix_Tree.thy ===== *)
theory Radix_Tree
  imports Prelude
begin

text \<open>
  The radix tree of \<open>container/radix-tree.c\<close> (with \<open>CONFIG_RADIX_SMALL\<close>: sixteen slots per node): a map
  from 32-bit indices to pointers. No two slots share a node, so the pointer structure is a tree; the
  tag bit of the root pointer says whether it is a node. The loops that walk down and rebuild the
  path are recursion on the height. None is a failed assertion or the use of an item as a node. The
  interface \<open>index_map\<close> says what a map of this kind promises; it is interpreted on the tree.
\<close>

section \<open>Definitions\<close>

text \<open>A slot: NULL, an item (a pointer that is not NULL, with a clear bit 0), or a node.\<close>

datatype rslot = RNull | RItem u32 | RNode (rheight: nat) (rcount: u32) (rslots: "rslot list")

record radix_tree_root =
  height :: nat
  rnode :: rslot

abbreviation (input) RADIX_TREE_MAP_SHIFT :: nat where "RADIX_TREE_MAP_SHIFT \<equiv> 4"
abbreviation (input) RADIX_TREE_MAP_SIZE :: nat where "RADIX_TREE_MAP_SIZE \<equiv> 16"
abbreviation (input) RADIX_TREE_MAX_PATH :: nat where "RADIX_TREE_MAX_PATH \<equiv> 8"

definition radix_tree_is_indirect_ptr :: "u32 \<Rightarrow> bool" where
  "radix_tree_is_indirect_ptr ptr \<longleftrightarrow> ptr AND 1 \<noteq> 0"

definition maxindex :: "nat \<Rightarrow> nat" where
  "maxindex h =
     (let width = h * RADIX_TREE_MAP_SHIFT; shift = 32 - int width
      in if shift < 0 then 4294967295 else if shift \<ge> 32 then 0 else drop_bit (nat shift) 4294967295)"

text \<open>The table after \<open>radix_tree_init\<close>.\<close>

definition radix_tree_init :: "nat list" where
  "radix_tree_init = map maxindex [0..<RADIX_TREE_MAX_PATH + 1]"

definition radix_tree_maxindex :: "nat \<Rightarrow> nat option" where
  "radix_tree_maxindex h = (if h < length radix_tree_init then Some (radix_tree_init ! h) else None)"

definition INIT_RADIX_TREE :: radix_tree_root where
  "INIT_RADIX_TREE = \<lparr>height = 0, rnode = RNull\<rparr>"

text \<open>\<open>(index >> shift) & RADIX_TREE_MAP_MASK\<close> for the node of height \<open>h + 1\<close>.\<close>

definition slot_of :: "nat \<Rightarrow> nat \<Rightarrow> nat" where
  "slot_of index h = drop_bit (h * RADIX_TREE_MAP_SHIFT) index mod RADIX_TREE_MAP_SIZE"

subsection \<open>Insertion\<close>

text \<open>\<open>mem\<close> is the number of allocations that succeed from here on.\<close>

function grow_height :: "nat \<Rightarrow> nat \<Rightarrow> nat option" where
  "grow_height index h = (case radix_tree_maxindex h of None \<Rightarrow> None
     | Some m \<Rightarrow> if index > m then grow_height index (h + 1) else Some h)"
  by pat_completeness auto

termination
  by (relation "measure (\<lambda>(index, h). 10 - h)") (auto simp: radix_tree_maxindex_def radix_tree_init_def split: if_splits)

function extend_loop :: "nat \<Rightarrow> radix_tree_root \<Rightarrow> nat \<Rightarrow> int \<times> radix_tree_root \<times> nat" where
  "extend_loop h root mem =
     (if mem = 0 then (- ENOMEM, root, mem)
      else
        let newheight = height root + 1;
            root = \<lparr>height = newheight, rnode = RNode newheight 1 (rnode root # replicate 15 RNull)\<rparr>
        in if h > newheight then extend_loop h root (mem - 1) else (0, root, mem - 1))"
  by pat_completeness auto

termination
  by (relation "measure (\<lambda>(h, root, mem). mem)") auto

definition radix_tree_extend :: "nat \<Rightarrow> radix_tree_root \<Rightarrow> nat \<Rightarrow> (int \<times> radix_tree_root \<times> nat) option" where
  "radix_tree_extend index root mem =
     Option.bind (grow_height index (height root + 1)) (\<lambda>h.
       if rnode root = RNull then Some (0, root\<lparr>height := h\<rparr>, mem)
       else Some (extend_loop h root mem))"

text \<open>
  The loop of \<open>radix_tree_insert\<close> from a slot of height \<open>h\<close> on: the code, the slot, whether the slot
  counts as used from now on and was not before, and the allocations left.
\<close>

fun insert_at :: "nat \<Rightarrow> nat \<Rightarrow> u32 \<Rightarrow> rslot \<Rightarrow> nat \<Rightarrow> (int \<times> rslot \<times> bool \<times> nat) option" where
  "insert_at 0 index item slot mem =
     (if slot \<noteq> RNull then Some (- EEXIST, slot, False, mem)
      else Some (0, if item = 0 then RNull else RItem item, True, mem))"
| "insert_at (Suc h) index item slot mem =
     (let new = (slot = RNull);
          node = (if new then RNode (Suc h) 0 (replicate RADIX_TREE_MAP_SIZE RNull) else slot)
      in if new \<and> mem = 0 then Some (- ENOMEM, slot, False, mem)
         else
           let mem = (if new then mem - 1 else mem)
           in (case node of
                 RNode hh c ss \<Rightarrow>
                   let offset = slot_of index h
                   in Option.bind (insert_at h index item (ss ! offset) mem) (\<lambda>(err, s, added, mem).
                        Some (err, RNode hh (if added then c + 1 else c) (ss[offset := s]), new, mem))
               | _ \<Rightarrow> None))"

definition radix_tree_insert :: "nat \<Rightarrow> u32 \<Rightarrow> radix_tree_root \<Rightarrow> nat \<Rightarrow> (int \<times> radix_tree_root \<times> nat) option" where
  "radix_tree_insert index item root mem =
     (if radix_tree_is_indirect_ptr item then None
      else Option.bind (radix_tree_maxindex (height root)) (\<lambda>m.
        Option.bind (if index > m then radix_tree_extend index root mem else Some (0, root, mem)) (\<lambda>(error, root, mem).
          if error \<noteq> 0 then Some (error, root, mem)
          else Option.bind (insert_at (height root) index item (rnode root) mem) (\<lambda>(err, s, _, mem).
            Some (err, root\<lparr>rnode := s\<rparr>, mem)))))"

subsection \<open>Lookup\<close>

fun lookup_loop :: "nat \<Rightarrow> nat \<Rightarrow> rslot \<Rightarrow> rslot option" where
  "lookup_loop 0 index node = None"
| "lookup_loop (Suc h) index node = (case node of
     RNode hh c ss \<Rightarrow>
       let s = ss ! slot_of index h
       in if s = RNull then Some RNull else if h = 0 then Some s else lookup_loop h index s
   | _ \<Rightarrow> None)"

definition radix_tree_lookup :: "nat \<Rightarrow> radix_tree_root \<Rightarrow> rslot option" where
  "radix_tree_lookup index root = (case rnode root of
     RNull \<Rightarrow> Some RNull
   | RItem p \<Rightarrow> Some (if index > 0 then RNull else RItem p)
   | RNode h c ss \<Rightarrow>
       Option.bind (radix_tree_maxindex h) (\<lambda>m. if index > m then Some RNull else lookup_loop h index (rnode root)))"

subsection \<open>Deletion\<close>

fun radix_tree_shrink :: "nat \<Rightarrow> rslot \<Rightarrow> radix_tree_root option" where
  "radix_tree_shrink 0 n = Some \<lparr>height = 0, rnode = n\<rparr>"
| "radix_tree_shrink (Suc h) n = (case n of
     RNode hh c ss \<Rightarrow>
       if c \<noteq> 1 \<or> ss ! 0 = RNull then Some \<lparr>height = Suc h, rnode = n\<rparr> else radix_tree_shrink h (ss ! 0)
   | _ \<Rightarrow> None)"

text \<open>
  Down the path and back: the item, what is left of the node (NULL when it has been freed), and
  whether the node itself lost a slot.
\<close>

fun delete_at :: "nat \<Rightarrow> nat \<Rightarrow> rslot \<Rightarrow> (rslot \<times> rslot \<times> bool) option" where
  "delete_at 0 index slot = Some (slot, RNull, True)"
| "delete_at (Suc h) index slot = (case slot of
     RNull \<Rightarrow> Some (RNull, RNull, False)
   | RItem p \<Rightarrow> None
   | RNode hh c ss \<Rightarrow>
       let offset = slot_of index h
       in Option.bind (delete_at h index (ss ! offset)) (\<lambda>(item, s, _).
            if item = RNull then Some (RNull, slot, False)
            else if s \<noteq> RNull then Some (item, RNode hh c (ss[offset := s]), False)
            else if c - 1 \<noteq> 0 then Some (item, RNode hh (c - 1) (ss[offset := RNull]), True)
            else Some (item, RNull, True)))"

definition radix_tree_delete :: "nat \<Rightarrow> radix_tree_root \<Rightarrow> (rslot \<times> radix_tree_root) option" where
  "radix_tree_delete index root =
     Option.bind (radix_tree_maxindex (height root)) (\<lambda>m.
       if index > m then Some (RNull, root)
       else if height root = 0 then Some (rnode root, root\<lparr>rnode := RNull\<rparr>)
       else Option.bind (delete_at (height root) index (rnode root)) (\<lambda>(item, n, lost).
         if item = RNull then Some (RNull, root)
         else if n = RNull then Some (item, \<lparr>height = 0, rnode = RNull\<rparr>)
         else if lost then map_option (\<lambda>root. (item, root)) (radix_tree_shrink (height root) n)
         else Some (item, root\<lparr>rnode := n\<rparr>)))"

subsection \<open>Specification\<close>

text \<open>A well-formed slot of height \<open>h\<close>: the heights are right and the counts are those of the used slots.\<close>

fun slot_ok :: "nat \<Rightarrow> rslot \<Rightarrow> bool" where
  "slot_ok 0 s \<longleftrightarrow> (case s of RNull \<Rightarrow> True | RItem p \<Rightarrow> p \<noteq> 0 \<and> \<not> radix_tree_is_indirect_ptr p | _ \<Rightarrow> False)"
| "slot_ok (Suc h) s \<longleftrightarrow> (case s of RNull \<Rightarrow> True | RItem p \<Rightarrow> False
     | RNode hh c ss \<Rightarrow> hh = Suc h \<and> length ss = RADIX_TREE_MAP_SIZE \<and>
         unat c = length (filter (\<lambda>s. s \<noteq> RNull) ss) \<and> (\<forall>s\<in>set ss. slot_ok h s))"

definition radix_ok :: "radix_tree_root \<Rightarrow> bool" where
  "radix_ok root \<longleftrightarrow> height root \<le> RADIX_TREE_MAX_PATH \<and> slot_ok (height root) (rnode root)"

text \<open>The item at an index below a slot of height \<open>h\<close>, and the map a tree stands for.\<close>

fun item_at :: "nat \<Rightarrow> rslot \<Rightarrow> nat \<Rightarrow> u32 option" where
  "item_at 0 s index = (case s of RItem p \<Rightarrow> Some p | _ \<Rightarrow> None)"
| "item_at (Suc h) s index = (case s of RNode hh c ss \<Rightarrow> item_at h (ss ! slot_of index h) index | _ \<Rightarrow> None)"

definition radix_map :: "radix_tree_root \<Rightarrow> nat \<Rightarrow> u32 option" where
  "radix_map root index = (if index < 16 ^ height root then item_at (height root) (rnode root) index else None)"

definition slot_item :: "u32 option \<Rightarrow> rslot" where
  "slot_item x = (case x of None \<Rightarrow> RNull | Some p \<Rightarrow> RItem p)"

section \<open>Lemmas\<close>

lemma slot_of_alt: "slot_of index h = index div 16 ^ h mod 16"
proof -
  have "(2 :: nat) ^ (h * 4) = 16 ^ h" by (subst mult.commute) (simp add: power_mult)
  then show ?thesis by (simp add: slot_of_def drop_bit_eq_div)
qed

lemma slot_of_less [simp]: "slot_of index h < 16"
  by (simp add: slot_of_def)

lemma slot_of_small: "index < 16 ^ Suc h \<Longrightarrow> slot_of index h = 0 \<longleftrightarrow> index < 16 ^ h"
  by (simp add: slot_of_alt less_mult_imp_div_less div_eq_0_iff)

text \<open>Two indices agree below height \<open>h + 1\<close> when they agree on the slot and below it.\<close>

lemma same_path_Suc:
  "j mod 16 ^ Suc h = i mod 16 ^ Suc h \<longleftrightarrow> slot_of j h = slot_of i h \<and> j mod 16 ^ h = i mod 16 ^ h" for i j :: nat
proof -
  have m: "k mod 16 ^ Suc h = 16 ^ h * slot_of k h + k mod 16 ^ h" for k :: nat
    using mod_mult2_eq [of k "16 ^ h" 16] by (simp add: slot_of_alt mult.commute)
  have d: "(16 ^ h * a + b) div 16 ^ h = a" "(16 ^ h * a + b) mod 16 ^ h = b" if "b < 16 ^ h" for a b :: nat
    using that by simp_all
  have l: "k mod 16 ^ h < 16 ^ h" for k :: nat by simp
  show ?thesis unfolding m using d [OF l [of j], of "slot_of j h"] d [OF l [of i], of "slot_of i h"] by metis
qed

lemma maxindex_upto: "h \<le> RADIX_TREE_MAX_PATH \<Longrightarrow> radix_tree_maxindex h = Some (16 ^ h - 1)"
proof -
  assume "h \<le> 8"
  then have "h \<in> {0, 1, 2, 3, 4, 5, 6, 7, 8}" by auto
  then have "maxindex h = 16 ^ h - 1" by (auto simp: maxindex_def drop_bit_eq_div)
  then show ?thesis using \<open>h \<le> 8\<close> by (simp add: radix_tree_maxindex_def radix_tree_init_def del: upt_Suc)
qed

lemma index_above: "index > 16 ^ h - 1 \<longleftrightarrow> \<not> index < 16 ^ h" for index :: nat
  using zero_less_power [of "16 :: nat" h] by linarith

lemma length_filter_update:
  "i < length xs \<Longrightarrow> length (filter P (xs[i := y])) + (if P (xs ! i) then 1 else 0) =
     length (filter P xs) + (if P y then 1 else 0)"
proof (induction xs arbitrary: i)
  case (Cons x xs)
  then show ?case by (cases i) auto
qed simp

text \<open>A node in use, and what it means that only one slot is.\<close>

lemma slot_okE:
  assumes "slot_ok (Suc h) s" "s \<noteq> RNull"
  obtains c ss where "s = RNode (Suc h) c ss" "length ss = 16" "unat c = length (filter (\<lambda>s. s \<noteq> RNull) ss)"
    "\<forall>s\<in>set ss. slot_ok h s"
  using assms by (cases s) auto

lemma slot_ok_Null [simp]: "slot_ok h RNull"
  by (cases h) auto

lemma item_at_Null [simp]: "item_at h RNull j = None"
  by (cases h) auto

lemma one_used:
  assumes "length (filter P xs) = 1" "i < length xs" "P (xs ! i)" "j < length xs" "P (xs ! j)"
  shows "j = i"
proof (rule ccontr)
  assume n: "j \<noteq> i"
  have "{i, j} \<subseteq> {k. k < length xs \<and> P (xs ! k)}" using assms by auto
  then have "card {i, j} \<le> card {k. k < length xs \<and> P (xs ! k)}" by (intro card_mono) auto
  then show False using n assms(1) by (simp add: length_filter_conv_card)
qed

lemma grow_height_reaches:
  assumes "index < 4294967296" "h \<le> RADIX_TREE_MAX_PATH"
  shows "\<exists>h'. grow_height index h = Some h' \<and> h \<le> h' \<and> h' \<le> RADIX_TREE_MAX_PATH \<and> index < 16 ^ h'"
  using assms
proof (induction index h rule: grow_height.induct)
  case (1 index h)
  note m = maxindex_upto [OF 1(3)]
  show ?case
  proof (cases "index < 16 ^ h")
    case True
    then show ?thesis using 1(3) m index_above [of h index] by (auto simp: grow_height.simps [of index h] simp del: grow_height.simps)
  next
    case False
    have "h \<noteq> 8" using False 1(2) by auto
    then have "h + 1 \<le> 8" using 1(3) by simp
    then obtain h' where "grow_height index (h + 1) = Some h'" "h + 1 \<le> h'" "h' \<le> 8" "index < 16 ^ h'"
      using 1(1) [OF m] False 1(2) index_above [of h index] by blast
    then show ?thesis using m False index_above [of h index]
      by (auto simp: grow_height.simps [of index h] simp del: grow_height.simps)
  qed
qed

lemma extend_once:
  assumes "radix_ok root" "rnode root \<noteq> RNull" "height root < RADIX_TREE_MAX_PATH"
    and "r = \<lparr>height = height root + 1, rnode = RNode (height root + 1) 1 (rnode root # replicate 15 RNull)\<rparr>"
  shows "radix_ok r" "radix_map r = radix_map root"
proof -
  show "radix_ok r" using assms by (auto simp: radix_ok_def)
  show "radix_map r = radix_map root"
  proof
    fix j
    let ?h = "height root"
    have "(rnode root # replicate 15 RNull) ! slot_of j ?h = (if slot_of j ?h = 0 then rnode root else RNull)"
      using slot_of_less [of j ?h] by (cases "slot_of j ?h") simp_all
    moreover have "j < 16 ^ ?h \<Longrightarrow> j < 16 ^ (?h + 1)" by simp
    ultimately show "radix_map r j = radix_map root j"
      using slot_of_small [of j ?h] by (auto simp: radix_map_def assms(4))
  qed
qed

lemma extend_loop_map:
  assumes "radix_ok root" "rnode root \<noteq> RNull" "height root < h" "h \<le> RADIX_TREE_MAX_PATH" "extend_loop h root mem = (e, r, m)"
  shows "radix_ok r \<and> radix_map r = radix_map root \<and> e \<in> {0, - ENOMEM} \<and> (e = 0 \<longrightarrow> height r = h) \<and>
    (h - height root \<le> mem \<longrightarrow> e = 0 \<and> m + (h - height root) = mem)"
  using assms
proof (induction h root mem rule: extend_loop.induct)
  case (1 h root mem)
  let ?r = "\<lparr>height = height root + 1, rnode = RNode (height root + 1) 1 (rnode root # replicate 15 RNull)\<rparr>"
  have E: "radix_ok ?r" "radix_map ?r = radix_map root"
    using extend_once [OF 1(2,3) _ refl] 1(4,5) by simp_all
  show ?case
  proof (cases "mem = 0")
    case True
    then show ?thesis using 1(2,4,6) by simp
  next
    case False
    show ?thesis
    proof (cases "h > height root + 1")
      case True
      have "extend_loop h ?r (mem - 1) = (e, r, m)" using 1(6) False True by (simp del: extend_loop.simps add: extend_loop.simps [of h root])
      then have "radix_ok r \<and> radix_map r = radix_map ?r \<and> e \<in> {0, - ENOMEM} \<and> (e = 0 \<longrightarrow> height r = h) \<and>
        (h - height ?r \<le> mem - 1 \<longrightarrow> e = 0 \<and> m + (h - height ?r) = mem - 1)"
        using 1(1) [OF False refl refl] E(1) True 1(5) by simp
      then show ?thesis using E(2) True False by auto
    next
      case f: False
      then have "e = 0" "r = ?r" "m = mem - 1" using 1(6) False by (simp_all del: extend_loop.simps add: extend_loop.simps [of h root])
      then show ?thesis using E f 1(4) False by auto
    qed
  qed
qed

lemma lookup_loop_item:
  assumes "slot_ok (Suc h) s" "s \<noteq> RNull"
  shows "lookup_loop (Suc h) index s = Some (slot_item (item_at (Suc h) s index))"
  using assms
proof (induction h arbitrary: s)
  case 0
  obtain c ss where s: "s = RNode (Suc 0) c ss" "length ss = 16" "unat c = length (filter (\<lambda>s. s \<noteq> RNull) ss)"
    "\<forall>s\<in>set ss. slot_ok 0 s"
    by (rule slot_okE [OF 0])
  have "slot_ok 0 (ss ! slot_of index 0)" using s by simp
  then show ?case using s(1) by (auto simp: slot_item_def Let_def split: rslot.splits)
next
  case (Suc h)
  obtain c ss where s: "s = RNode (Suc (Suc h)) c ss" "length ss = 16" "unat c = length (filter (\<lambda>s. s \<noteq> RNull) ss)"
    "\<forall>s\<in>set ss. slot_ok (Suc h) s"
    by (rule slot_okE [OF Suc.prems])
  let ?t = "ss ! slot_of index (Suc h)"
  have t: "slot_ok (Suc h) ?t" using s by simp
  have "lookup_loop (Suc (Suc h)) index s = (if ?t = RNull then Some RNull else lookup_loop (Suc h) index ?t)"
    using s(1) by (simp add: Let_def)
  moreover have "item_at (Suc (Suc h)) s index = item_at (Suc h) ?t index" using s(1) by simp
  ultimately show ?case using Suc.IH [OF t] by (cases "?t = RNull") (simp_all add: slot_item_def)
qed

text \<open>What a successful insertion leaves at every index, and that a failing one changes nothing.\<close>

definition inserted :: "nat \<Rightarrow> nat \<Rightarrow> u32 \<Rightarrow> rslot \<Rightarrow> int \<Rightarrow> rslot \<Rightarrow> bool" where
  "inserted h index item s err s' \<longleftrightarrow> slot_ok h s' \<and> err \<in> {0, - EEXIST, - ENOMEM} \<and>
     (err = - EEXIST \<longleftrightarrow> item_at h s index \<noteq> None) \<and>
     (\<forall>j. item_at h s' j = (if err = 0 \<and> j mod 16 ^ h = index mod 16 ^ h then Some item else item_at h s j))"

lemma inserted_node:
  assumes "length ss = 16" "unat c = length (filter (\<lambda>s. s \<noteq> RNull) ss)" "\<forall>s\<in>set ss. slot_ok h s"
    and "inserted h index item (ss ! slot_of index h) err s'" "added \<longleftrightarrow> ss ! slot_of index h = RNull \<and> s' \<noteq> RNull"
    and "ss ! slot_of index h \<noteq> RNull \<Longrightarrow> s' \<noteq> RNull"
  shows "inserted (Suc h) index item (RNode (Suc h) c ss) err
    (RNode (Suc h) (if added then c + 1 else c) (ss[slot_of index h := s']))"
proof -
  let ?o = "slot_of index h"
  have I: "slot_ok h s'" "err \<in> {0, - EEXIST, - ENOMEM}" "err = - EEXIST \<longleftrightarrow> item_at h (ss ! ?o) index \<noteq> None"
    "\<And>j. item_at h s' j = (if err = 0 \<and> j mod 16 ^ h = index mod 16 ^ h then Some item else item_at h (ss ! ?o) j)"
    using assms(4) unfolding inserted_def by blast+
  have "length (filter (\<lambda>s. s \<noteq> RNull) ss) \<le> 16" using assms(1) length_filter_le by metis
  then have u: "unat (c + 1) = unat c + 1" using assms(2) by (simp add: unat_word_ariths)
  have "unat (if added then c + 1 else c) = length (filter (\<lambda>s. s \<noteq> RNull) (ss[?o := s']))"
    using length_filter_update [of ?o ss "\<lambda>s. s \<noteq> RNull" s'] assms(1,2,5,6) u by (auto split: if_splits)
  moreover have "slot_ok h t" if "t \<in> set (ss[?o := s'])" for t
    using that set_update_subset_insert [of ss ?o s'] assms(3) I(1) by blast
  ultimately have "slot_ok (Suc h) (RNode (Suc h) (if added then c + 1 else c) (ss[?o := s']))"
    using assms(1) by simp
  moreover have "item_at (Suc h) (RNode (Suc h) (if added then c + 1 else c) (ss[?o := s'])) j =
      (if err = 0 \<and> j mod 16 ^ Suc h = index mod 16 ^ Suc h then Some item else item_at (Suc h) (RNode (Suc h) c ss) j)" for j
    unfolding same_path_Suc using assms(1) I(4) [of j] by (cases "slot_of j h = ?o") auto
  ultimately show ?thesis unfolding inserted_def using I(2,3) by simp
qed

lemma insert_at_inserted:
  assumes "slot_ok h s" "item \<noteq> 0" "\<not> radix_tree_is_indirect_ptr item"
  shows "\<exists>err s' added m. insert_at h index item s mem = Some (err, s', added, m) \<and> inserted h index item s err s' \<and>
    (added \<longleftrightarrow> s = RNull \<and> s' \<noteq> RNull) \<and> (s \<noteq> RNull \<longrightarrow> s' \<noteq> RNull) \<and> (h \<le> mem \<longrightarrow> err \<noteq> - ENOMEM)"
  using assms(1)
proof (induction h arbitrary: s mem)
  case 0
  then show ?case using assms(2,3) by (cases s) (auto simp: inserted_def)
next
  case (Suc h)
  show ?case
  proof (cases "s = RNull \<and> mem = 0")
    case True
    then show ?thesis by (auto simp: inserted_def)
  next
    case False
    define m1 where "m1 = (if s = RNull then mem - 1 else mem)"
    define node where "node = (if s = RNull then RNode (Suc h) 0 (replicate 16 RNull) else s)"
    have nok: "slot_ok (Suc h) node" "node \<noteq> RNull" using Suc.prems by (auto simp: node_def)
    obtain c ss where n: "node = RNode (Suc h) c ss" "length ss = 16" "unat c = length (filter (\<lambda>s. s \<noteq> RNull) ss)"
      "\<forall>s\<in>set ss. slot_ok h s"
      by (rule slot_okE [OF nok])
    let ?o = "slot_of index h"
    have "slot_ok h (ss ! ?o)" using n(2,4) by simp
    from Suc.IH [OF this, of m1] obtain err s' added m where I: "insert_at h index item (ss ! ?o) m1 = Some (err, s', added, m)"
      "inserted h index item (ss ! ?o) err s'" "added \<longleftrightarrow> ss ! ?o = RNull \<and> s' \<noteq> RNull" "ss ! ?o \<noteq> RNull \<longrightarrow> s' \<noteq> RNull"
      "h \<le> m1 \<longrightarrow> err \<noteq> - ENOMEM" by blast
    let ?s = "RNode (Suc h) (if added then c + 1 else c) (ss[?o := s'])"
    have "insert_at (Suc h) index item s mem = Some (err, ?s, s = RNull, m)"
      using False I(1) n(1) unfolding insert_at.simps Let_def node_def [symmetric] m1_def [symmetric] by auto
    moreover have ins: "inserted (Suc h) index item node err ?s"
      unfolding n(1) by (rule inserted_node [OF n(2-4) I(2,3)]) (use I(4) in simp)
    have eq: "item_at (Suc h) node = item_at (Suc h) s" by (rule ext) (simp add: node_def)
    have "inserted (Suc h) index item s err ?s" using ins unfolding inserted_def eq .
    moreover have "Suc h \<le> mem \<longrightarrow> err \<noteq> - ENOMEM" using I(5) by (auto simp: m1_def split: if_splits)
    ultimately show ?thesis by blast
  qed
qed

text \<open>What a deletion leaves at every index.\<close>

definition deleted :: "nat \<Rightarrow> nat \<Rightarrow> rslot \<Rightarrow> rslot \<Rightarrow> rslot \<Rightarrow> bool" where
  "deleted h index s item s' \<longleftrightarrow> slot_ok h s' \<and> item = slot_item (item_at h s index) \<and>
     (\<forall>j. item_at h s' j = (if j mod 16 ^ h = index mod 16 ^ h then None else item_at h s j))"

lemma item_at_same_path: "j mod 16 ^ h = index mod 16 ^ h \<Longrightarrow> item_at h s j = item_at h s index"
proof (induction h arbitrary: s)
  case (Suc h)
  then show ?case unfolding same_path_Suc by (cases s) auto
qed simp

lemma deleted_none:
  assumes "slot_ok h s" "item_at h s index = None"
  shows "deleted h index s RNull s"
proof -
  have "item_at h s j = (if j mod 16 ^ h = index mod 16 ^ h then None else item_at h s j)" for j
    using item_at_same_path [of j h index s] assms(2) by simp
  then show ?thesis using assms by (simp add: deleted_def slot_item_def)
qed

lemma slot_item_None [simp]: "slot_item x = RNull \<longleftrightarrow> x = None"
  by (simp add: slot_item_def split: option.split)

lemma delete_at_deleted:
  assumes "slot_ok h s"
  shows "\<exists>item s' lost. delete_at h index s = Some (item, s', lost) \<and> deleted h index s item s'"
  using assms
proof (induction h arbitrary: s)
  case 0
  then show ?case by (cases s) (auto simp: deleted_def slot_item_def)
next
  case (Suc h)
  show ?case
  proof (cases "s = RNull")
    case True
    then show ?thesis by (auto simp: deleted_def slot_item_def)
  next
    case False
    obtain c ss where n: "s = RNode (Suc h) c ss" "length ss = 16" "unat c = length (filter (\<lambda>s. s \<noteq> RNull) ss)"
      "\<forall>s\<in>set ss. slot_ok h s"
      by (rule slot_okE [OF Suc.prems False])
    let ?o = "slot_of index h"
    have "slot_ok h (ss ! ?o)" using n(2,4) by simp
    from Suc.IH [OF this] obtain item t lost where D: "delete_at h index (ss ! ?o) = Some (item, t, lost)"
      "deleted h index (ss ! ?o) item t" by blast
    have t: "slot_ok h t" "item = slot_item (item_at h (ss ! ?o) index)"
      "\<forall>j. item_at h t j = (if j mod 16 ^ h = index mod 16 ^ h then None else item_at h (ss ! ?o) j)"
      using D(2) by (simp_all add: deleted_def)
    have it: "item_at (Suc h) s j = item_at h (ss ! slot_of j h) j" for j using n(1) by simp
    have upd: "deleted (Suc h) index s item (RNode (Suc h) c' (ss[?o := t]))"
      if c': "unat c' = length (filter (\<lambda>s. s \<noteq> RNull) (ss[?o := t]))" for c'
    proof -
      have "\<forall>x\<in>set (ss[?o := t]). slot_ok h x"
        using set_update_subset_insert [of ss ?o t] n(4) t(1) by blast
      then have "slot_ok (Suc h) (RNode (Suc h) c' (ss[?o := t]))" using c' n(2) by simp
      moreover have "item_at (Suc h) (RNode (Suc h) c' (ss[?o := t])) j =
          (if j mod 16 ^ Suc h = index mod 16 ^ Suc h then None else item_at (Suc h) s j)" for j
        unfolding same_path_Suc using n(1,2) spec [OF t(3), of j] by (cases "slot_of j h = ?o") auto
      ultimately show ?thesis unfolding deleted_def using t(2) n(1) by simp
    qed
    show ?thesis
    proof (cases "item = RNull")
      case True
      then have "item_at (Suc h) s index = None" using t(2) it by simp
      from deleted_none [OF Suc.prems this] have "deleted (Suc h) index s item s" using True by simp
      moreover have "delete_at (Suc h) index s = Some (item, s, False)" using D(1) n(1) True by simp
      ultimately show ?thesis by blast
    next
      case ni: False
      then have used: "ss ! ?o \<noteq> RNull" using t(2) by auto
      have cnt: "length (filter (\<lambda>s. s \<noteq> RNull) (ss[?o := t])) + 1 = unat c + (if t \<noteq> RNull then 1 else 0)"
        using length_filter_update [of ?o ss "\<lambda>s. s \<noteq> RNull" t] n(2,3) used by simp
      show ?thesis
      proof (cases "t = RNull")
        case False
        then have "delete_at (Suc h) index s = Some (item, RNode (Suc h) c (ss[?o := t]), False)"
          using D(1) n(1) ni by simp
        then show ?thesis using upd [of c] cnt False by auto
      next
        case True
        have "c \<noteq> 0" using cnt True by auto
        then have u: "unat (c - 1) = length (filter (\<lambda>s. s \<noteq> RNull) (ss[?o := t]))"
          using cnt True by (simp add: unat_minus_one)
        show ?thesis
        proof (cases "c - 1 = 0")
          case False
          then have "delete_at (Suc h) index s = Some (item, RNode (Suc h) (c - 1) (ss[?o := t]), True)"
            using D(1) n(1) ni True by simp
          then show ?thesis using upd [OF u] by blast
        next
          case z: True
          have "delete_at (Suc h) index s = Some (item, RNull, True)" using D(1) n(1) ni True z by simp
          moreover have "length (filter (\<lambda>s. s \<noteq> RNull) (ss[?o := t])) = 0" using u z by simp
          then have e: "ss[?o := t] ! k = RNull" if "k < 16" for k
            using that n(2) by (auto simp: filter_empty_conv)
          have "item_at (Suc h) (RNode (Suc h) (c - 1) (ss[?o := t])) j = None" for j using e by simp
          then have "deleted (Suc h) index s item RNull" using upd [OF u] by (simp add: deleted_def)
          ultimately show ?thesis by blast
        qed
      qed
    qed
  qed
qed

lemma shrink_map:
  assumes "slot_ok h n" "n \<noteq> RNull" "h \<le> RADIX_TREE_MAX_PATH"
  shows "\<exists>r. radix_tree_shrink h n = Some r \<and> radix_ok r \<and>
    (\<forall>j. radix_map r j = (if j < 16 ^ h then item_at h n j else None))"
  using assms
proof (induction h arbitrary: n)
  case 0
  then show ?case by (auto simp: radix_ok_def radix_map_def)
next
  case (Suc h)
  obtain c ss where n: "n = RNode (Suc h) c ss" "length ss = 16" "unat c = length (filter (\<lambda>s. s \<noteq> RNull) ss)"
    "\<forall>s\<in>set ss. slot_ok h s"
    by (rule slot_okE [OF Suc.prems(1,2)])
  show ?case
  proof (cases "c \<noteq> 1 \<or> ss ! 0 = RNull")
    case True
    then have "radix_tree_shrink (Suc h) n = Some \<lparr>height = Suc h, rnode = n\<rparr>" using n(1) by simp
    then show ?thesis using Suc.prems by (simp add: radix_ok_def radix_map_def)
  next
    case False
    have "slot_ok h (ss ! 0)" using n(2,4) by simp
    then obtain r where r: "radix_tree_shrink h (ss ! 0) = Some r" "radix_ok r"
      "\<forall>j. radix_map r j = (if j < 16 ^ h then item_at h (ss ! 0) j else None)"
      using Suc.IH [of "ss ! 0"] False Suc.prems(3) by auto
    have one: "length (filter (\<lambda>s. s \<noteq> RNull) ss) = 1" using n(3) False by simp
    have "ss ! slot_of j h = RNull" if "slot_of j h \<noteq> 0" for j
      using one_used [OF one, of 0 "slot_of j h"] n(2) False that by auto
    then have "item_at (Suc h) n j = (if slot_of j h = 0 then item_at h (ss ! 0) j else None)" for j
      using n(1) by simp
    moreover have "j < 16 ^ h \<Longrightarrow> j < 16 ^ Suc h" for j :: nat by simp
    ultimately have "radix_map r j = (if j < 16 ^ Suc h then item_at (Suc h) n j else None)" for j
      using spec [OF r(3), of j] slot_of_small [of j h] by (simp del: power_Suc item_at.simps)
    then show ?thesis using r(1,2) n(1) False by auto
  qed
qed

section \<open>The tree as a map\<close>

lemma radix_tree_lookup_map:
  assumes "radix_ok root"
  shows "radix_tree_lookup index root = Some (slot_item (radix_map root index))"
proof (cases "rnode root")
  case (RNode h c ss)
  then obtain h' where h: "height root = Suc h'" "h = Suc h'"
    using assms by (cases "height root") (auto simp: radix_ok_def)
  have "slot_ok (Suc h') (rnode root)" "rnode root \<noteq> RNull" "Suc h' \<le> 8" using assms h RNode by (auto simp: radix_ok_def)
  from lookup_loop_item [OF this(1,2)] maxindex_upto [OF this(3)] show ?thesis
    unfolding radix_tree_lookup_def RNode using h index_above [of "Suc h'" index]
    by (simp add: radix_map_def RNode slot_item_def del: item_at.simps lookup_loop.simps power_Suc)
next
  case (RItem x)
  then show ?thesis using assms
    by (cases "height root") (auto simp: radix_ok_def radix_tree_lookup_def radix_map_def slot_item_def)
qed (simp add: radix_tree_lookup_def radix_map_def slot_item_def)

lemma radix_tree_extend_map:
  assumes "radix_ok root" "index < 4294967296" "\<not> index < 16 ^ height root"
  shows "\<exists>e r m. radix_tree_extend index root mem = Some (e, r, m) \<and> radix_ok r \<and> radix_map r = radix_map root \<and>
    e \<in> {0, - ENOMEM} \<and> (e = 0 \<longrightarrow> index < 16 ^ height r) \<and> (8 \<le> mem \<longrightarrow> e = 0 \<and> mem \<le> m + 8)"
proof -
  have "height root \<noteq> 8" using assms(2,3) by auto
  then have "height root + 1 \<le> 8" using assms(1) by (simp add: radix_ok_def)
  from grow_height_reaches [OF assms(2) this] obtain h where h: "grow_height index (height root + 1) = Some h"
    "height root + 1 \<le> h" "h \<le> 8" "index < 16 ^ h" by blast
  show ?thesis
  proof (cases "rnode root = RNull")
    case True
    then have "radix_map (root\<lparr>height := h\<rparr>) = radix_map root" by (simp add: radix_map_def fun_eq_iff)
    then show ?thesis using h True by (simp add: radix_tree_extend_def radix_ok_def)
  next
    case False
    obtain e r m where x: "extend_loop h root mem = (e, r, m)" by (cases "extend_loop h root mem") auto
    have E: "radix_ok r" "radix_map r = radix_map root" "e \<in> {0, - ENOMEM}" "e = 0 \<longrightarrow> height r = h"
      "h - height root \<le> mem \<longrightarrow> e = 0 \<and> m + (h - height root) = mem"
      using extend_loop_map [OF assms(1) False _ h(3) x] h(2) by auto
    have "8 \<le> mem \<longrightarrow> e = 0 \<and> mem \<le> m + 8" using E(5) h(3) by auto
    moreover have "e = 0 \<longrightarrow> index < 16 ^ height r" using E(4) h(4) by simp
    ultimately show ?thesis
      using h(1) x E(1-3) False by (auto simp: radix_tree_extend_def simp del: extend_loop.simps)
  qed
qed

lemma radix_tree_insert_map:
  assumes "radix_ok root" "index < 4294967296" "item \<noteq> 0" "\<not> radix_tree_is_indirect_ptr item"
  shows "\<exists>err r m. radix_tree_insert index item root mem = Some (err, r, m) \<and> radix_ok r \<and>
    err \<in> {0, - EEXIST, - ENOMEM} \<and> (16 \<le> mem \<longrightarrow> err \<noteq> - ENOMEM) \<and>
    (err = 0 \<longrightarrow> radix_map root index = None) \<and> (err = - EEXIST \<longrightarrow> radix_map root index \<noteq> None) \<and>
    radix_map r = (if err = 0 then (radix_map root)(index \<mapsto> item) else radix_map root)"
proof -
  define ext where "ext = (if index < 16 ^ height root then Some (0, root, mem) else radix_tree_extend index root mem)"
  obtain e r m where x: "ext = Some (e, r, m)" "radix_ok r" "radix_map r = radix_map root"
    "e \<in> {0, - ENOMEM}" "e = 0 \<longrightarrow> index < 16 ^ height r" "8 \<le> mem \<longrightarrow> e = 0 \<and> mem \<le> m + 8"
    using radix_tree_extend_map [OF assms(1,2), of mem] assms(1) by (cases "index < 16 ^ height root") (auto simp: ext_def)
  have hr: "height root \<le> 8" using assms(1) by (simp add: radix_ok_def)
  have ins: "radix_tree_insert index item root mem = (if e \<noteq> 0 then Some (e, r, m)
      else Option.bind (insert_at (height r) index item (rnode r) m) (\<lambda>(err, s, _, mem). Some (err, r\<lparr>rnode := s\<rparr>, mem)))"
    using maxindex_upto [OF hr] assms(4) x(1) index_above [of "height root" index]
    by (simp add: radix_tree_insert_def ext_def split: if_splits)
  show ?thesis
  proof (cases "e = 0")
    case False
    then show ?thesis using ins x by auto
  next
    case True
    have s: "slot_ok (height r) (rnode r)" "height r \<le> 8" using x(2) by (simp_all add: radix_ok_def)
    obtain err s' added k where I: "insert_at (height r) index item (rnode r) m = Some (err, s', added, k)"
      "inserted (height r) index item (rnode r) err s'" "height r \<le> m \<longrightarrow> err \<noteq> - ENOMEM"
      using insert_at_inserted [OF s(1) assms(3,4), of index m] by blast
    let ?r = "r\<lparr>rnode := s'\<rparr>"
    have i: "index < 16 ^ height r" "index mod 16 ^ height r = index" using x(5) True by simp_all
    have J: "slot_ok (height r) s'" "err \<in> {0, - EEXIST, - ENOMEM}"
      "err = - EEXIST \<longleftrightarrow> item_at (height r) (rnode r) index \<noteq> None"
      "\<forall>j. item_at (height r) s' j =
        (if err = 0 \<and> j mod 16 ^ height r = index mod 16 ^ height r then Some item else item_at (height r) (rnode r) j)"
      using I(2) unfolding inserted_def by blast+
    have "radix_map ?r j = (if err = 0 \<and> j = index then Some item else radix_map r j)" for j
      using spec [OF J(4), of j] i by (cases "j < 16 ^ height r") (auto simp: radix_map_def)
    then have "radix_map ?r = (if err = 0 then (radix_map root)(index \<mapsto> item) else radix_map root)"
      using x(3) by (auto simp: fun_eq_iff)
    moreover have "radix_map root index = item_at (height r) (rnode r) index"
      using i(1) fun_cong [OF x(3), of index] by (simp add: radix_map_def)
    moreover have "16 \<le> mem \<longrightarrow> err \<noteq> - ENOMEM" using I(3) x(6) s(2) by auto
    moreover have "radix_ok ?r" using J(1) s(2) by (simp add: radix_ok_def)
    ultimately show ?thesis using ins True I(1) J(2,3) by (intro exI [of _ err] exI [of _ ?r] exI [of _ k]) auto
  qed
qed

lemma radix_tree_delete_map:
  assumes "radix_ok root"
  shows "\<exists>r. radix_tree_delete index root = Some (slot_item (radix_map root index), r) \<and> radix_ok r \<and>
    radix_map r = (radix_map root)(index := None)"
proof -
  let ?h = "height root"
  have s: "slot_ok ?h (rnode root)" "?h \<le> 8" using assms by (simp_all add: radix_ok_def)
  note m = maxindex_upto [OF s(2)]
  show ?thesis
  proof (cases "index < 16 ^ ?h")
    case False
    then show ?thesis using m index_above [of ?h index] assms
      by (intro exI [of _ root]) (auto simp: radix_tree_delete_def radix_map_def slot_item_def)
  next
    case i: True
    show ?thesis
    proof (cases "?h = 0")
      case True
      then have "slot_item (radix_map root index) = rnode root" "radix_map (root\<lparr>rnode := RNull\<rparr>) = (radix_map root)(index := None)"
        using i s(1) by (auto simp: radix_map_def slot_item_def fun_eq_iff split: rslot.splits)
      then show ?thesis using True i m by (simp add: radix_tree_delete_def radix_ok_def)
    next
      case False
      obtain item n lost where D: "delete_at ?h index (rnode root) = Some (item, n, lost)" "deleted ?h index (rnode root) item n"
        using delete_at_deleted [OF s(1)] by blast
      have n: "slot_ok ?h n" "item = slot_item (radix_map root index)"
        "\<forall>j. item_at ?h n j = (if j mod 16 ^ ?h = index mod 16 ^ ?h then None else item_at ?h (rnode root) j)"
        using D(2) i by (simp_all add: deleted_def radix_map_def)
      have M: "(if j < 16 ^ ?h then item_at ?h n j else None) = ((radix_map root)(index := None)) j" for j
        using spec [OF n(3), of j] i by (cases "j < 16 ^ ?h") (auto simp: radix_map_def)
      have del: "radix_tree_delete index root = (if item = RNull then Some (RNull, root)
         else if n = RNull then Some (item, \<lparr>height = 0, rnode = RNull\<rparr>)
         else if lost then map_option (\<lambda>root. (item, root)) (radix_tree_shrink ?h n)
         else Some (item, root\<lparr>rnode := n\<rparr>))"
        using m i False D(1) index_above [of ?h index] by (simp add: radix_tree_delete_def)
      consider "item = RNull" | "item \<noteq> RNull" "n = RNull" | "item \<noteq> RNull" "n \<noteq> RNull" "lost"
        | "item \<noteq> RNull" "n \<noteq> RNull" "\<not> lost" by blast
      then show ?thesis
      proof cases
        case 1
        then have "radix_map root index = None" using n(2) by simp
        then have "(radix_map root)(index := None) = radix_map root" by auto
        then show ?thesis using 1 del n(2) assms by (simp add: slot_item_def)
      next
        case 2
        have "radix_map \<lparr>height = 0, rnode = RNull\<rparr> j = ((radix_map root)(index := None)) j" for j
          unfolding M [symmetric] using 2(2) by (simp add: radix_map_def)
        then show ?thesis using 2 del n(2) by (auto simp: radix_ok_def)
      next
        case 3
        obtain r where "radix_tree_shrink ?h n = Some r" "radix_ok r"
          "\<forall>j. radix_map r j = (if j < 16 ^ ?h then item_at ?h n j else None)"
          using shrink_map [OF n(1) 3(2) s(2)] by blast
        then show ?thesis using 3 del n(2) M by (auto simp: fun_eq_iff)
      next
        case 4
        have "radix_map (root\<lparr>rnode := n\<rparr>) j = ((radix_map root)(index := None)) j" for j
          unfolding M [symmetric] by (simp add: radix_map_def)
        then show ?thesis using 4 del n(1,2) s(2) by (auto simp: radix_ok_def)
      qed
    qed
  qed
qed

text \<open>
  The interface: \<open>abs\<close> is the map that a structure with invariant \<open>ok\<close> stands for. An insertion needs
  memory; it never overwrites.
\<close>

locale index_map =
  fixes ok :: "'m \<Rightarrow> bool" and abs :: "'m \<Rightarrow> nat \<Rightarrow> u32 option"
    and lookup :: "nat \<Rightarrow> 'm \<Rightarrow> rslot option"
    and insert :: "nat \<Rightarrow> u32 \<Rightarrow> 'm \<Rightarrow> nat \<Rightarrow> (int \<times> 'm \<times> nat) option"
    and delete :: "nat \<Rightarrow> 'm \<Rightarrow> (rslot \<times> 'm) option"
  assumes lookup_abs: "ok m \<Longrightarrow> lookup index m = Some (slot_item (abs m index))"
    and insert_abs: "ok m \<Longrightarrow> index < 4294967296 \<Longrightarrow> item \<noteq> 0 \<Longrightarrow> \<not> radix_tree_is_indirect_ptr item \<Longrightarrow>
      \<exists>err m' k. insert index item m mem = Some (err, m', k) \<and> ok m' \<and>
        err \<in> {0, - EEXIST, - ENOMEM} \<and> (16 \<le> mem \<longrightarrow> err \<noteq> - ENOMEM) \<and>
        (err = 0 \<longrightarrow> abs m index = None) \<and> (err = - EEXIST \<longrightarrow> abs m index \<noteq> None) \<and>
        abs m' = (if err = 0 then (abs m)(index \<mapsto> item) else abs m)"
    and delete_abs: "ok m \<Longrightarrow> \<exists>m'. delete index m = Some (slot_item (abs m index), m') \<and> ok m' \<and>
      abs m' = (abs m)(index := None)"
begin

lemma insert_fresh:
  assumes "ok m" "index < 4294967296" "item \<noteq> 0" "\<not> radix_tree_is_indirect_ptr item" "16 \<le> mem" "abs m index = None"
  shows "\<exists>m' k. insert index item m mem = Some (0, m', k) \<and> ok m' \<and> abs m' = (abs m)(index \<mapsto> item)"
  using insert_abs [OF assms(1-4), of mem] assms(5,6) by force

lemma insert_found:
  assumes "ok m" "index < 4294967296" "item \<noteq> 0" "\<not> radix_tree_is_indirect_ptr item" "16 \<le> mem" "abs m index = None"
    and "insert index item m mem = Some (e, m', k)"
  shows "lookup index m' = Some (RItem item)" "j \<noteq> index \<Longrightarrow> lookup j m' = lookup j m"
proof -
  have m': "ok m'" "abs m' = (abs m)(index \<mapsto> item)" using insert_fresh [OF assms(1-6)] assms(7) by auto
  show "lookup index m' = Some (RItem item)" using lookup_abs [OF m'(1), of index] m'(2) by (simp add: slot_item_def)
  show "lookup j m' = lookup j m" if "j \<noteq> index"
    using lookup_abs [OF m'(1), of j] lookup_abs [OF assms(1), of j] m'(2) that by simp
qed

text \<open>Taking out what has just been put in gives it back and restores every entry.\<close>

lemma insert_delete:
  assumes "ok m" "index < 4294967296" "item \<noteq> 0" "\<not> radix_tree_is_indirect_ptr item" "16 \<le> mem" "abs m index = None"
    and "insert index item m mem = Some (e, m', k)"
  shows "\<exists>m''. delete index m' = Some (RItem item, m'') \<and> ok m'' \<and> abs m'' = abs m"
proof -
  have m': "ok m'" "abs m' = (abs m)(index \<mapsto> item)" using insert_fresh [OF assms(1-6)] assms(7) by auto
  obtain m'' where "delete index m' = Some (slot_item (abs m' index), m'')" "ok m''" "abs m'' = (abs m')(index := None)"
    using delete_abs [OF m'(1)] by blast
  then show ?thesis using m'(2) assms(6) by (auto simp: slot_item_def fun_eq_iff)
qed

end

interpretation radix: index_map radix_ok radix_map radix_tree_lookup radix_tree_insert radix_tree_delete
  by unfold_locales (fact radix_tree_lookup_map radix_tree_insert_map radix_tree_delete_map)+

section \<open>Properties\<close>

text \<open>
  C10. The radix tree refines a map from 32-bit indices to pointers and keeps its invariant: lookup
  gives the entry, insertion adds an entry that was not there (with sixteen free nodes it never runs
  out of memory) and changes nothing when it fails, deletion returns the entry and removes exactly
  it, however the tree grows and shrinks.
\<close>

theorem radix_tree_refines_map:
  assumes "radix_ok root" "index < 4294967296" "item \<noteq> 0" "\<not> radix_tree_is_indirect_ptr item"
  shows "radix_tree_lookup index root = Some (slot_item (radix_map root index)) \<and>
    (\<exists>err r k. radix_tree_insert index item root mem = Some (err, r, k) \<and> radix_ok r \<and>
       (16 \<le> mem \<longrightarrow> err = (if radix_map root index = None then 0 else - EEXIST)) \<and>
       radix_map r = (if err = 0 then (radix_map root)(index \<mapsto> item) else radix_map root)) \<and>
    (\<exists>r. radix_tree_delete index root = Some (slot_item (radix_map root index), r) \<and> radix_ok r \<and>
       radix_map r = (radix_map root)(index := None))"
proof -
  obtain err r k where I: "radix_tree_insert index item root mem = Some (err, r, k)" "radix_ok r"
    "err \<in> {0, - EEXIST, - ENOMEM}" "16 \<le> mem \<longrightarrow> err \<noteq> - ENOMEM"
    "err = 0 \<longrightarrow> radix_map root index = None" "err = - EEXIST \<longrightarrow> radix_map root index \<noteq> None"
    "radix_map r = (if err = 0 then (radix_map root)(index \<mapsto> item) else radix_map root)"
    using radix.insert_abs [OF assms, of mem] by blast
  have "16 \<le> mem \<longrightarrow> err = (if radix_map root index = None then 0 else - EEXIST)" using I(3-6) by auto
  then show ?thesis using I(1,2,7) radix.lookup_abs [OF assms(1), of index] radix.delete_abs [OF assms(1), of index] by blast
qed

theorem radix_tree_refines_map_witness:
  "\<exists>r k. radix_tree_insert 300 64 INIT_RADIX_TREE 16 = Some (0, r, k) \<and> radix_map r 300 = Some 64"
proof -
  have "radix_ok INIT_RADIX_TREE" "radix_map INIT_RADIX_TREE 300 = None"
    by (simp_all add: INIT_RADIX_TREE_def radix_ok_def radix_map_def)
  moreover have "\<not> radix_tree_is_indirect_ptr 64" by (simp add: radix_tree_is_indirect_ptr_def)
  ultimately show ?thesis using radix_tree_refines_map [of INIT_RADIX_TREE 300 64 16] by auto
qed

end
