(* ===== verification/Buffer_Io.thy ===== *)
theory Buffer_Io
  imports Blkdev
begin

text \<open>
  The buffered I/O of \<open>dev/buffer_io.c\<close>: one block-sized buffer over a disk, written back when another
  block is needed, on a flush, or never when a buffer is destroyed. Reads go to the disk and take the
  part that the buffer covers from it; writes of whole blocks go past the buffer. The mutexes are
  free when they are taken. Sizes and offsets are 32-bit values. None is an access outside a
  buffer or to freed memory, a division by zero, or a loop that does not end.
\<close>

section \<open>Definitions\<close>

abbreviation (input) WRITE_BLOCK_SIZE :: nat where "WRITE_BLOCK_SIZE \<equiv> 256"
abbreviation (input) NO_OFFSET :: nat where "NO_OFFSET \<equiv> 4294967295"

text \<open>\<open>bdd\<close> is the handle of the disk.\<close>

record buffered_io =
  bdd :: nat
  boff :: nat
  bsize :: nat
  bmask :: nat
  bdirty :: bool
  allocated :: bool
  wrlimit :: bool
  panic :: bool
  bbuf :: "u8 list"

text \<open>
  The unrolled loop of \<open>is_wrblock_dirty\<close>: \<open>k\<close> words in this round, sixteen in every later one; the
  words are those from \<open>p\<close> on.
\<close>

function wrblock_loop :: "nat \<Rightarrow> u32 \<Rightarrow> nat \<Rightarrow> u32 list \<Rightarrow> bool option" where
  "wrblock_loop n val k p =
     (if length p < k then None
      else
        let val = fold (\<lambda>w v. v AND w) (take k p) val
        in if val \<noteq> 0xFFFFFFFF then Some True
           else
             let n = w32 (n + 4294967295)
             in if n = 0 then Some False else wrblock_loop n val 16 (drop k p))"
  by pat_completeness auto

termination
  by (relation "measure (\<lambda>(n, val, k, p). length p + (if k = 0 then 1 else 0))") auto

fun le_words :: "u8 list \<Rightarrow> u32 list" where
  "le_words (a # b # c # d # bs) = of_nat (le_nat [a, b, c, d]) # le_words bs"
| "le_words bs = []"

definition is_wrblock_dirty :: "u8 list \<Rightarrow> nat \<Rightarrow> nat \<Rightarrow> bool option" where
  "is_wrblock_dirty buf offset sz =
     (let p = le_words (drop offset buf);
          cnt = sz div 4;
          n = (cnt + 15) div 16
      in wrblock_loop n 0xFFFFFFFF (if cnt mod 16 = 0 then 16 else cnt mod 16) p)"

text \<open>Regions with both ends included.\<close>

definition region_intersect :: "nat \<times> nat \<Rightarrow> nat \<times> nat \<Rightarrow> bool \<times> nat \<times> nat" where
  "region_intersect a b =
     (let beg = max (fst a) (fst b); en = min (snd a) (snd b) in (beg \<le> en, beg, en))"

definition write_eraseable_block :: "'d disk_device \<Rightarrow> u8 list \<Rightarrow> nat \<Rightarrow> nat \<Rightarrow> 'd \<Rightarrow> int \<times> 'd" where
  "write_eraseable_block dd buf blksize offset d =
     (let (err, d) = disk_device_erase dd offset blksize d
      in if err < 0 then (err, d)
         else let (err, d) = disk_device_write dd (take blksize buf) offset d
              in if err < 0 then (err, d) else (0, d))"

text \<open>The loop over the write blocks of the buffer: \<open>k\<close> are left.\<close>

fun wrlimit_loop :: "'d disk_device \<Rightarrow> buffered_io \<Rightarrow> nat \<Rightarrow> nat \<Rightarrow> 'd \<Rightarrow> (int \<times> 'd) option" where
  "wrlimit_loop dd bio 0 ofs d = Some (0, d)"
| "wrlimit_loop dd bio (Suc k) ofs d =
     Option.bind (is_wrblock_dirty (bbuf bio) ofs WRITE_BLOCK_SIZE) (\<lambda>wd.
       if wd then
         let (err, d) = disk_device_write dd (buf_read (bbuf bio) ofs WRITE_BLOCK_SIZE) (w32 (boff bio + ofs)) d
         in if err < 0 then Some (err, d) else wrlimit_loop dd bio k (ofs + WRITE_BLOCK_SIZE) d
       else wrlimit_loop dd bio k (ofs + WRITE_BLOCK_SIZE) d)"

definition buffered_flush_locked :: "'d disk_device \<Rightarrow> buffered_io \<times> 'd \<Rightarrow> (int \<times> buffered_io \<times> 'd) option" where
  "buffered_flush_locked dd s =
     (let (bio, d) = s
      in if \<not> bdirty bio then Some (0, s)
         else Option.bind
           (if wrlimit bio then
              let (err, d) = disk_device_erase dd (boff bio) (bsize bio) d
              in if err < 0 then Some (err, d) else wrlimit_loop dd bio (bsize bio div WRITE_BLOCK_SIZE) 0 d
            else Some (write_eraseable_block dd (bbuf bio) (bsize bio) (boff bio) d))
           (\<lambda>(err, d). if err < 0 then Some (err, bio, d) else Some (0, bio\<lparr>bdirty := False\<rparr>, d)))"

definition buffered_read :: "'d disk_device \<Rightarrow> nat \<Rightarrow> nat \<Rightarrow> buffered_io \<times> 'd \<Rightarrow> (int \<times> u8 list) option" where
  "buffered_read dd sz offset s =
     (let (bio, d) = s; (err, buf) = disk_device_read dd sz offset d
      in if err < 0 then Some (err, buf)
         else if bdirty bio then
           let (meet, beg, en) = region_intersect (offset, w32 (offset + sz + 4294967295))
                 (boff bio, w32 (boff bio + bsize bio + 4294967295))
           in if \<not> meet then Some (int sz, buf)
              else if beg - offset + (en - beg + 1) > sz \<or> beg - boff bio + (en - beg + 1) > length (bbuf bio) then None
              else Some (int sz, buf_write buf (beg - offset) (buf_read (bbuf bio) (beg - boff bio) (en - beg + 1)))
         else Some (int sz, buf))"

text \<open>The write loop; \<open>offset & ~mask\<close> is the offset without its low bits.\<close>

partial_function (option) buffered_write_loop ::
  "'d disk_device \<Rightarrow> int \<Rightarrow> u8 list \<Rightarrow> nat \<Rightarrow> buffered_io \<times> 'd \<Rightarrow> (int \<times> buffered_io \<times> 'd) option" where
  "buffered_write_loop dd bytes buf offset s =
     (if buf = [] then Some (bytes, s)
      else
        let bio = fst s; d = snd s; blkin_ofs = offset AND bmask bio
        in if blkin_ofs = 0 \<and> length buf \<ge> bsize bio then
             let (ret, d) = write_eraseable_block dd buf (bsize bio) offset d
             in if ret < 0 then Some (ret, bio, d)
                else buffered_write_loop dd bytes (drop (bsize bio) buf) (w32 (offset + bsize bio)) (bio, d)
           else
             let aligned_ofs = offset - blkin_ofs
             in Option.bind
               (if boff bio \<noteq> aligned_ofs then
                  Option.bind (buffered_flush_locked dd (bio, d)) (\<lambda>(ret, bio, d).
                    if ret \<noteq> 0 then Some (ret, bio, d)
                    else
                      let (ret, bs) = disk_device_read dd (bsize bio) aligned_ofs d;
                          bio = bio\<lparr>bbuf := buf_write (bbuf bio) 0 bs\<rparr>
                      in if ret < 0 then Some (ret, bio, d) else Some (0, bio\<lparr>boff := aligned_ofs\<rparr>, d))
                else Some (0, bio, d))
               (\<lambda>(ret, bio, d).
                 if ret \<noteq> 0 then Some (ret, bio, d)
                 else
                   let remain = bsize bio - blkin_ofs; cplen = min (length buf) remain;
                       bio = bio\<lparr>bbuf := buf_write (bbuf bio) blkin_ofs (take cplen buf), bdirty := True\<rparr>
                   in buffered_write_loop dd bytes (drop cplen buf) (w32 (offset + cplen)) (bio, d)))"

definition buffered_write ::
  "'d disk_device \<Rightarrow> u8 list \<Rightarrow> nat \<Rightarrow> buffered_io \<times> 'd \<Rightarrow> (int \<times> buffered_io \<times> 'd) option" where
  "buffered_write dd buf offset s = buffered_write_loop dd (int (length buf)) buf offset s"

definition buffered_ioflush_locked ::
  "'d disk_device \<Rightarrow> bool \<Rightarrow> buffered_io \<times> 'd \<Rightarrow> (int \<times> buffered_io \<times> 'd) option" where
  "buffered_ioflush_locked dd invalid s =
     (if bdirty (fst s)
      then Option.bind (buffered_flush_locked dd s) (\<lambda>(err, bio, d).
             Some (err, if err = 0 \<and> invalid then bio\<lparr>boff := NO_OFFSET\<rparr> else bio, d))
      else Some (0, s))"

definition buffered_ioflush ::
  "'d disk_device \<Rightarrow> bool \<Rightarrow> buffered_io \<times> 'd \<Rightarrow> (int \<times> buffered_io \<times> 'd) option" where
  "buffered_ioflush dd invalid s = (if bdirty (fst s) then buffered_ioflush_locked dd invalid s else Some (0, s))"

text \<open>The buffers created so far, newest first, what they are, and the disks with their states.\<close>

record 'd bio_world =
  buffered_created :: "nat list"
  bio_tab :: "nat \<Rightarrow> buffered_io"
  dd_tab :: "nat \<Rightarrow> 'd disk_device"
  dstate :: "nat \<Rightarrow> 'd"

fun flush_list :: "bool \<Rightarrow> nat list \<Rightarrow> 'd bio_world \<Rightarrow> (int \<times> 'd bio_world) option" where
  "flush_list invalid [] w = Some (0, w)"
| "flush_list invalid (b # bs) w =
     (let k = bdd (bio_tab w b)
      in Option.bind (buffered_ioflush_locked (dd_tab w k) invalid (bio_tab w b, dstate w k)) (\<lambda>(err, bio, d).
           let w = w\<lparr>bio_tab := (bio_tab w)(b := bio), dstate := (dstate w)(k := d)\<rparr>
           in if err \<noteq> 0 then Some (err, w) else flush_list invalid bs w))"

definition buffered_ioflush_all :: "bool \<Rightarrow> 'd bio_world \<Rightarrow> (int \<times> 'd bio_world) option" where
  "buffered_ioflush_all invalid w = flush_list invalid (buffered_created w) w"

definition buffered_iopanic :: "'d bio_world \<Rightarrow> 'd bio_world" where
  "buffered_iopanic w = w\<lparr>bio_tab := (\<lambda>b. if b \<in> set (buffered_created w) then (bio_tab w b)\<lparr>panic := True\<rparr> else bio_tab w b)\<rparr>"

text \<open>
  The handle 0 is NULL; \<open>blkbuf\<close> is the memory of the buffer. None is a division by a block size
  of 0, or a buffer that is on the list already, whose \<open>next\<close> would close a cycle.
\<close>

definition buffered_ioinit ::
  "nat \<Rightarrow> nat \<Rightarrow> u8 list \<Rightarrow> nat \<Rightarrow> bool \<Rightarrow> 'd bio_world \<Rightarrow> (int \<times> 'd bio_world) option" where
  "buffered_ioinit dd b blkbuf blksize limit w =
     (if dd = 0 \<or> b = 0 then Some (- EINVAL, w)
      else if blksize AND w32 (blksize + 4294967295) \<noteq> 0 then Some (- EINVAL, w)
      else if blk_size (dd_tab w dd) = 0 then None
      else
        let erase_blksz = blk_size (dd_tab w dd); newsize = (blksize div erase_blksz) * erase_blksz
        in if newsize = 0 then Some (- EINVAL, w)
           else if b \<in> set (buffered_created w) then None
           else Some (0, w\<lparr>bio_tab := (bio_tab w)(b := (bio_tab w b)\<lparr>bdd := dd, bdirty := False,
               panic := False, wrlimit := limit, boff := NO_OFFSET, bsize := newsize,
               bmask := w32 (newsize + 4294967295), bbuf := blkbuf\<rparr>),
             buffered_created := b # buffered_created w\<rparr>))"

text \<open>
  \<open>b\<close> is what \<open>general_calloc\<close> returns, \<open>pbio\<close> whether the result pointer is there; the second
  component is what is stored through it.
\<close>

definition buffered_iocreate ::
  "nat \<Rightarrow> nat \<Rightarrow> bool \<Rightarrow> bool \<Rightarrow> nat \<Rightarrow> 'd bio_world \<Rightarrow> (int \<times> nat option \<times> 'd bio_world) option" where
  "buffered_iocreate dd blksize limit pbio b w =
     (if blksize AND w32 (blksize + 4294967295) \<noteq> 0 then Some (- EINVAL, None, w)
      else if dd = 0 \<or> \<not> pbio then Some (- EINVAL, None, w)
      else if b = 0 then Some (- ENOMEM, None, w)
      else
        let zeroed = \<lparr>bdd = 0, boff = 0, bsize = 0, bmask = 0, bdirty = False, allocated = True,
                      wrlimit = False, panic = False, bbuf = []\<rparr>
        in Option.bind (buffered_ioinit dd b (replicate blksize 0) blksize limit
                          (w\<lparr>bio_tab := (bio_tab w)(b := zeroed)\<rparr>))
             (\<lambda>(err, w). Some (err, if err \<noteq> 0 then None else Some b, w)))"

text \<open>
  An allocated buffer is freed before the mutex inside it is unlocked, an access to freed memory:
  None. A dirty block is not written back.
\<close>

definition buffered_iodestroy :: "nat \<Rightarrow> 'd bio_world \<Rightarrow> (int \<times> 'd bio_world) option" where
  "buffered_iodestroy b w =
     (if b = 0 then Some (- EINVAL, w)
      else if allocated (bio_tab w b) then None
      else Some (0, w\<lparr>buffered_created := remove1 b (buffered_created w)\<rparr>))"

section \<open>Lemmas\<close>

lemma and_all_ones: "a AND b = 0xFFFFFFFF \<longleftrightarrow> a = 0xFFFFFFFF \<and> b = 0xFFFFFFFF" for a b :: u32
proof -
  have m: "(0xFFFFFFFF :: u32) = -1" by simp
  show ?thesis unfolding m by (auto simp: bit_eq_iff bit_simps)
qed

lemma fold_and_ones:
  "fold (\<lambda>w v. v AND w) ws val = 0xFFFFFFFF \<longleftrightarrow> val = 0xFFFFFFFF \<and> (\<forall>w\<in>set ws. w = 0xFFFFFFFF)"
  for val :: u32
proof (induction ws arbitrary: val)
  case (Cons w ws)
  show ?case by (simp only: fold_simps Cons.IH and_all_ones) auto
qed simp

declare wrblock_loop.simps [simp del]

lemma wrblock_loop_words:
  assumes "0 < n" "n < 4294967296" "16 * n \<le> length p"
  shows "wrblock_loop n 0xFFFFFFFF 16 p = Some (\<exists>w\<in>set (take (16 * n) p). w \<noteq> 0xFFFFFFFF)"
  using assms
proof (induction n arbitrary: p)
  case (Suc n)
  let ?val = "fold (\<lambda>w v. v AND w) (take 16 p) (0xFFFFFFFF :: u32)"
  have wn: "w32 (Suc n + 4294967295) = n" using Suc.prems(2) by simp
  have split: "take (16 * Suc n) p = take 16 p @ take (16 * n) (drop 16 p)"
    by (metis mult_Suc_right take_add)
  have len: "\<not> length p < 16" using Suc.prems(3) by simp
  have val: "?val = 0xFFFFFFFF \<longleftrightarrow> (\<forall>w\<in>set (take 16 p). w = 0xFFFFFFFF)"
    by (simp only: fold_and_ones) simp
  show ?case
  proof (cases "?val = 0xFFFFFFFF")
    case False
    then show ?thesis using len val
      by (subst wrblock_loop.simps) (simp only: Let_def split set_append, auto)
  next
    case True
    have rest: "n \<noteq> 0 \<Longrightarrow> wrblock_loop n 0xFFFFFFFF 16 (drop 16 p) =
        Some (\<exists>w\<in>set (take (16 * n) (drop 16 p)). w \<noteq> 0xFFFFFFFF)"
      using Suc.IH [of "drop 16 p"] Suc.prems by simp
    have "wrblock_loop (Suc n) 0xFFFFFFFF 16 p =
        (if n = 0 then Some False else wrblock_loop n 0xFFFFFFFF 16 (drop 16 p))"
      by (subst wrblock_loop.simps) (simp only: Let_def wn True len if_False simp_thms)
    then show ?thesis using True val rest by (simp only: split set_append) auto
  qed
qed simp

lemma byte_step_ones: "a < 256 \<Longrightarrow> a + 256 * x = 255 + 256 * y \<longleftrightarrow> a = 255 \<and> x = y" for a x y :: nat
proof
  assume a: "a < 256" and eq: "a + 256 * x = 255 + 256 * y"
  have "(a + 256 * x) mod 256 = (255 + 256 * y) mod 256" by (simp only: eq)
  then have "a = 255" using a by simp
  then show "a = 255 \<and> x = y" using eq by simp
qed simp

lemma byte_step_less: "a < 256 \<Longrightarrow> x < y \<Longrightarrow> a + 256 * x < 256 * y" for a x y :: nat
  by linarith

lemma le_word_ones:
  "(of_nat (le_nat [a, b, c, d]) :: u32) = 0xFFFFFFFF \<longleftrightarrow> a = 0xFF \<and> b = 0xFF \<and> c = 0xFF \<and> d = 0xFF"
  for a b c d :: u8
proof -
  let ?n = "le_nat [a, b, c, d]"
  have bd: "unat a < 256" "unat b < 256" "unat c < 256" "unat d < 256"
    using unsigned_less [of a] unsigned_less [of b] unsigned_less [of c] unsigned_less [of d] by simp_all
  have n: "?n = unat a + 256 * (unat b + 256 * (unat c + 256 * unat d))" by simp
  have lt: "?n < 256 * (256 * (256 * 256))"
    unfolding n by (intro byte_step_less bd)
  have "(of_nat ?n :: u32) = 0xFFFFFFFF \<longleftrightarrow> unat (of_nat ?n :: u32) = unat (0xFFFFFFFF :: u32)"
    by (simp only: word_unat_eq_iff)
  also have "\<dots> \<longleftrightarrow> ?n = 255 + 256 * (255 + 256 * (255 + 256 * 255))" using lt by (simp add: unat_of_nat take_bit_eq_mod del: le_nat.simps)
  also have "\<dots> \<longleftrightarrow> unat a = 255 \<and> unat b = 255 \<and> unat c = 255 \<and> unat d = 255"
    unfolding n by (simp only: byte_step_ones [OF bd(1)] byte_step_ones [OF bd(2)] byte_step_ones [OF bd(3)])
  also have "\<dots> \<longleftrightarrow> a = 0xFF \<and> b = 0xFF \<and> c = 0xFF \<and> d = 0xFF"
    by (simp add: word_unat_eq_iff)
  finally show ?thesis .
qed

lemma le_words_length: "length (le_words bs) = length bs div 4"
  by (induction bs rule: le_words.induct) auto

lemma le_words_ones:
  "4 * n \<le> length bs \<Longrightarrow>
   (\<exists>w\<in>set (take n (le_words bs)). w \<noteq> 0xFFFFFFFF) \<longleftrightarrow> (\<exists>b\<in>set (take (4 * n) bs). b \<noteq> 0xFF)"
proof (induction n arbitrary: bs)
  case (Suc n)
  have "4 \<le> length bs" using Suc.prems by simp
  then obtain a b c d r where bs: "bs = a # b # c # d # r"
    by (auto simp: numeral_eq_Suc Suc_le_length_iff)
  have "4 * n \<le> length r" using Suc.prems bs by simp
  note IH = Suc.IH [OF this]
  have t: "take (4 * Suc n) bs = a # b # c # d # take (4 * n) r" unfolding bs by (simp add: numeral_eq_Suc)
  have w: "take (Suc n) (le_words bs) = of_nat (le_nat [a, b, c, d]) # take n (le_words r)" unfolding bs by simp
  show ?case unfolding t w using IH le_word_ones [of a b c d]
    by (simp only: list.set insert_iff bex_simps) blast
qed simp

lemma is_wrblock_dirty_iff:
  assumes "ofs + 256 \<le> length buf"
  shows "is_wrblock_dirty buf ofs 256 = Some (\<exists>b\<in>set (buf_read buf ofs 256). b \<noteq> 0xFF)"
proof -
  have l: "16 * 4 \<le> length (le_words (drop ofs buf))" using assms by (simp add: le_words_length)
  have "is_wrblock_dirty buf ofs 256 = wrblock_loop 4 0xFFFFFFFF 16 (le_words (drop ofs buf))"
    by (simp add: is_wrblock_dirty_def)
  also have "\<dots> = Some (\<exists>w\<in>set (take 64 (le_words (drop ofs buf))). w \<noteq> 0xFFFFFFFF)"
    using wrblock_loop_words [OF _ _ l] by simp
  also have "\<dots> = Some (\<exists>b\<in>set (take 256 (drop ofs buf)). b \<noteq> 0xFF)"
    using le_words_ones [of 64 "drop ofs buf"] assms by simp
  finally show ?thesis by (simp add: buf_read_def)
qed

text \<open>
  \<open>bio_rep\<close>: the bytes \<open>v\<close> are those of the disk with the buffered block over them; a clean buffer
  agrees with the disk.
\<close>

definition bio_ok :: "'d disk_device \<Rightarrow> buffered_io \<Rightarrow> bool" where
  "bio_ok dd bio \<longleftrightarrow> (\<exists>k. bsize bio = 2 ^ k) \<and> blk_size dd dvd bsize bio \<and> bsize bio dvd dlen dd \<and>
     bmask bio = bsize bio - 1 \<and> length (bbuf bio) = bsize bio \<and> (wrlimit bio \<longrightarrow> 256 dvd bsize bio) \<and>
     (boff bio = NO_OFFSET \<or> bsize bio dvd boff bio \<and> boff bio + bsize bio \<le> dlen dd)"

definition bio_rep :: "'d disk_device \<Rightarrow> ('d \<Rightarrow> mem) \<Rightarrow> buffered_io \<times> 'd \<Rightarrow> mem \<Rightarrow> bool" where
  "bio_rep dd contents s v \<longleftrightarrow> bio_ok dd (fst s) \<and>
     (if boff (fst s) = NO_OFFSET then \<not> bdirty (fst s) \<and> v = contents (snd s)
      else v = mem_write (contents (snd s)) (boff (fst s)) (bbuf (fst s)) \<and>
        (\<not> bdirty (fst s) \<longrightarrow> v = contents (snd s)))"

lemma bio_and_mask:
  assumes "bio_ok dd bio"
  shows "x AND bmask bio = x mod bsize bio" "0 < bsize bio"
proof -
  obtain k where k: "bsize bio = 2 ^ k" using assms by (auto simp: bio_ok_def)
  show "0 < bsize bio" using k by simp
  have "bmask bio = mask k" using assms k by (simp add: bio_ok_def mask_eq_exp_minus_1)
  then show "x AND bmask bio = x mod bsize bio"
    using k by (simp add: take_bit_eq_mask [symmetric] take_bit_eq_mod)
qed

lemma mem_write_over:
  "length xs = length ys \<Longrightarrow> mem_write (mem_write m off xs) off ys = mem_write m off ys"
  by (rule ext) (simp add: mem_write_def)

lemma mem_write_swap:
  "off + length xs \<le> off' \<or> off' + length ys \<le> off \<Longrightarrow>
   mem_write (mem_write m off xs) off' ys = mem_write (mem_write m off' ys) off xs"
  by (rule ext) (auto simp: mem_write_def)

lemma aligned_disjoint:
  fixes a b n :: nat
  assumes "n dvd a" "n dvd b" "a \<noteq> b"
  shows "a + n \<le> b \<or> b + n \<le> a"
proof -
  obtain i j where ij: "a = n * i" "b = n * j" using assms(1,2) by (auto elim!: dvdE)
  have "i < j \<or> j < i" using assms(3) ij by auto
  then have "n * Suc i \<le> n * j \<or> n * Suc j \<le> n * i" using mult_le_mono2 Suc_leI by blast
  then show ?thesis using ij by (simp add: add.commute)
qed

lemma bytes_all_ones: "(\<forall>b\<in>set bs. b = (0xFF :: u8)) \<Longrightarrow> bs = replicate (length bs) 0xFF"
  by (simp add: replicate_length_same)

text \<open>The bytes of a read with those of the buffer copied over the part they share.\<close>

lemma mem_read_overlay:
  fixes off n p :: nat and buf :: "u8 list"
  defines "beg \<equiv> max off p" and "en \<equiv> min (off + n - 1) (p + length buf - 1)"
  assumes "0 < n" "0 < length buf" "beg \<le> en"
  shows "buf_write (mem_read m off n) (beg - off) (buf_read buf (beg - p) (en - beg + 1)) =
    mem_read (mem_write m p buf) off n" (is "?l = ?r")
    and "beg - off + (en - beg + 1) \<le> n" "beg - p + (en - beg + 1) \<le> length buf"
proof -
  have b: "off \<le> beg" "p \<le> beg" "en < off + n" "en < p + length buf"
    using assms(3,4) unfolding beg_def en_def by linarith+
  have up: "beg \<le> x \<longleftrightarrow> off \<le> x \<and> p \<le> x" for x by (simp add: beg_def)
  have dn: "x \<le> en \<longleftrightarrow> x < off + n \<and> x < p + length buf" for x
    using assms(3,4) unfolding en_def min.bounded_iff by (intro iffI conjI) linarith+
  show fit: "beg - off + (en - beg + 1) \<le> n" and src: "beg - p + (en - beg + 1) \<le> length buf"
    using b assms(5) by linarith+
  let ?c = "buf_read buf (beg - p) (en - beg + 1)"
  have lc: "length ?c = en - beg + 1" by (rule length_buf_read [OF src])
  have dst: "beg - off + length ?c \<le> length (mem_read m off n)" using fit lc by simp
  show "?l = ?r"
  proof (rule nth_equalityI)
    show "length ?l = length ?r" using length_buf_write [OF dst] by simp
  next
    fix i assume "i < length ?l"
    then have i: "i < n" using length_buf_write [OF dst] by simp
    show "?l ! i = ?r ! i"
    proof (cases "beg \<le> off + i \<and> off + i \<le> en")
      case True
      have k: "beg - off \<le> i" "i < beg - off + length ?c" "i - (beg - off) < en - beg + 1"
        using True b lc by linarith+
      have idx: "beg - p + (i - (beg - off)) = off + i - p" using True b by linarith
      have "?l ! i = ?c ! (i - (beg - off))" using k(1,2) i dst by (simp add: nth_buf_write)
      also have "\<dots> = buf ! (off + i - p)" using nth_buf_read [OF src k(3)] idx by simp
      also have "\<dots> = ?r ! i" using True up [of "off + i"] dn [of "off + i"] i by (simp add: nth_mem_read mem_write_def)
      finally show ?thesis .
    next
      case False
      then have k: "\<not> (beg - off \<le> i \<and> i < beg - off + length ?c)" using b lc assms(5) by linarith
      have "?l ! i = mem_read m off n ! i" using k i dst by (auto simp: nth_buf_write)
      also have "\<dots> = ?r ! i"
        using False up [of "off + i"] dn [of "off + i"] i by (auto simp: nth_mem_read mem_write_def)
      finally show ?thesis .
    qed
  qed
qed

context flash_disk
begin

lemma disk_erase:
  assumes "off + n \<le> dlen dd" "blk_size dd dvd off" "blk_size dd dvd n" "0 < n"
  obtains d' where "disk_device_erase dd off n d = (0, d')"
    "contents d' = mem_write (contents d) off (replicate n 0xFF)"
proof -
  have w: "w32 (off + n) = off + n" using assms(1) len_int by simp
  obtain d' where d': "drv_erase dd off n d = (0, d')" "contents d' = mem_write (contents d) off (replicate n 0xFF)"
    using er [OF assms(1-3), of d] by auto
  have "disk_device_erase dd off n d = (0, d')"
    using d'(1) w assms by (simp add: disk_device_erase_def blk_and dvd_imp_mod_0)
  then show ?thesis using that d'(2) by blast
qed

lemma disk_write:
  assumes "off + length xs \<le> dlen dd" "\<forall>a. off \<le> a \<longrightarrow> a < off + length xs \<longrightarrow> contents d a = 0xFF"
  obtains d' where "disk_device_write dd xs off d = (int (length xs), d')"
    "contents d' = mem_write (contents d) off xs"
proof (cases "xs = []")
  case True
  then show ?thesis using that [of d] by (simp add: disk_device_write_def)
next
  case False
  have w: "w32 (off + length xs) = off + length xs" using assms(1) len_int by simp
  obtain d' where d': "drv_write dd xs off d = (int (length xs), d')" "contents d' = mem_write (contents d) off xs"
    using wr [OF assms] by blast
  have "disk_device_write dd xs off d = (int (length xs), d')"
    using d'(1) w assms(1) False by (simp add: disk_device_write_def)
  then show ?thesis using that d'(2) by blast
qed

lemma write_eraseable:
  assumes "off + n \<le> dlen dd" "blk_size dd dvd off" "blk_size dd dvd n" "0 < n" "n \<le> length buf"
  obtains d' where "write_eraseable_block dd buf n off d = (0, d')"
    "contents d' = mem_write (contents d) off (take n buf)"
proof -
  obtain d1 where d1: "disk_device_erase dd off n d = (0, d1)"
      "contents d1 = mem_write (contents d) off (replicate n 0xFF)"
    by (rule disk_erase [OF assms(1-4)])
  have l: "length (take n buf) = n" using assms(5) by simp
  have ones: "\<forall>a. off \<le> a \<longrightarrow> a < off + length (take n buf) \<longrightarrow> contents d1 a = 0xFF"
    unfolding l d1(2) by (simp add: mem_write_def)
  have bd: "off + length (take n buf) \<le> dlen dd" using assms(1) l by simp
  obtain d2 where d2: "disk_device_write dd (take n buf) off d1 = (int (length (take n buf)), d2)"
      "contents d2 = mem_write (contents d1) off (take n buf)"
    by (rule disk_write [OF bd ones])
  have "contents d2 = mem_write (contents d) off (take n buf)"
    unfolding d2(2) d1(2) by (rule mem_write_over) (simp add: assms(5))
  moreover have "write_eraseable_block dd buf n off d = (0, d2)"
    using d1(1) d2(1) by (simp add: write_eraseable_block_def)
  ultimately show ?thesis using that by blast
qed

lemma wrlimit_loop_writes:
  assumes "length (bbuf bio) = bsize bio" "boff bio + bsize bio \<le> dlen dd"
  shows "ofs + 256 * k = bsize bio \<Longrightarrow>
    contents d = mem_write m (boff bio) (take ofs (bbuf bio) @ replicate (bsize bio - ofs) 0xFF) \<Longrightarrow>
    \<exists>d'. wrlimit_loop dd bio k ofs d = Some (0, d') \<and> contents d' = mem_write m (boff bio) (bbuf bio)"
proof (induction k arbitrary: ofs d)
  case 0
  then show ?case using assms(1) by simp
next
  case (Suc k)
  let ?c = "buf_read (bbuf bio) ofs 256"
  have le: "ofs + 256 \<le> length (bbuf bio)" using Suc.prems(1) assms(1) by simp
  have lc: "length ?c = 256" using le by simp
  have nxt: "take (ofs + 256) (bbuf bio) = take ofs (bbuf bio) @ ?c" by (simp add: buf_read_def take_add)
  have n0: "length (take ofs (bbuf bio)) = ofs" using le by simp
  have rest: "bsize bio - ofs = 256 + (bsize bio - (ofs + 256))" using Suc.prems(1) by simp
  have cd: "contents d = mem_write m (boff bio)
      (take ofs (bbuf bio) @ replicate 256 0xFF @ replicate (bsize bio - (ofs + 256)) 0xFF)"
    using Suc.prems(2) unfolding rest by (simp only: replicate_add)
  have w: "w32 (boff bio + ofs) = boff bio + ofs" using assms(2) Suc.prems(1) len_int by simp
  have eq: "(ofs + 256) + 256 * k = bsize bio" using Suc.prems(1) by simp
  note IH = Suc.IH [OF eq]
  show ?case
  proof (cases "\<exists>b\<in>set ?c. b \<noteq> 0xFF")
    case False
    then have "\<forall>b\<in>set ?c. b = 0xFF" by blast
    from bytes_all_ones [OF this] have "?c = replicate 256 0xFF" unfolding lc .
    then have "contents d = mem_write m (boff bio)
        (take (ofs + 256) (bbuf bio) @ replicate (bsize bio - (ofs + 256)) 0xFF)"
      unfolding nxt using cd by simp
    from IH [OF this] show ?thesis using False is_wrblock_dirty_iff [OF le] by simp
  next
    case True
    have ones: "\<forall>a. boff bio + ofs \<le> a \<longrightarrow> a < boff bio + ofs + length ?c \<longrightarrow> contents d a = 0xFF"
    proof (intro allI impI)
      fix a assume a: "boff bio + ofs \<le> a" "a < boff bio + ofs + length ?c"
      then have "\<not> a - boff bio < ofs" "a - boff bio - ofs < bsize bio - ofs" "boff bio \<le> a" "a < boff bio + bsize bio"
        using lc Suc.prems(1) by simp_all
      then show "contents d a = 0xFF"
        unfolding Suc.prems(2) using n0 Suc.prems(1) by (simp add: mem_write_def nth_append)
    qed
    have bd: "boff bio + ofs + length ?c \<le> dlen dd" using assms(2) Suc.prems(1) lc by simp
    obtain d' where d': "disk_device_write dd ?c (boff bio + ofs) d = (int (length ?c), d')"
        "contents d' = mem_write (contents d) (boff bio + ofs) ?c"
      by (rule disk_write [OF bd ones])
    have "contents d' = mem_write m (boff bio)
        (take (ofs + 256) (bbuf bio) @ replicate (bsize bio - (ofs + 256)) 0xFF)"
    proof -
      let ?m = "mem_write m (boff bio) (take ofs (bbuf bio))" and ?a = "boff bio + ofs"
        and ?r = "replicate (bsize bio - (ofs + 256)) (0xFF :: u8)" and ?e = "replicate 256 (0xFF :: u8)"
      have "contents d' = mem_write (mem_write (mem_write ?m ?a ?e) (?a + 256) ?r) ?a ?c"
        unfolding d'(2) cd mem_write_append n0 length_replicate ..
      also have "\<dots> = mem_write (mem_write (mem_write ?m ?a ?e) ?a ?c) (?a + 256) ?r"
        by (rule mem_write_swap) (simp only: lc, simp)
      also have "\<dots> = mem_write (mem_write ?m ?a ?c) (?a + 256) ?r"
        using mem_write_over [of ?e ?c ?m ?a] lc by (simp only: length_replicate)
      finally show ?thesis unfolding nxt by (simp only: append_assoc mem_write_append n0 lc)
    qed
    from IH [OF this] show ?thesis
      using True is_wrblock_dirty_iff [OF le] d'(1) w lc by simp
  qed
qed

lemma flush_rep:
  assumes "bio_rep dd contents (bio, d) v"
  shows "\<exists>d'. buffered_flush_locked dd (bio, d) = Some (0, bio\<lparr>bdirty := False\<rparr>, d') \<and>
    bio_rep dd contents (bio\<lparr>bdirty := False\<rparr>, d') v \<and> contents d' = v"
proof (cases "bdirty bio")
  case False
  then have eq: "bio\<lparr>bdirty := False\<rparr> = bio" by simp
  show ?thesis unfolding eq using assms False
    by (auto simp: buffered_flush_locked_def bio_rep_def split: if_splits)
next
  case True
  let ?w = "mem_write (contents d) (boff bio) (bbuf bio)"
  have ok: "bio_ok dd bio" and v: "v = ?w" and no: "boff bio \<noteq> NO_OFFSET"
    using assms True by (auto simp: bio_rep_def split: if_splits)
  have len: "length (bbuf bio) = bsize bio" and fit: "boff bio + bsize bio \<le> dlen dd"
    and al: "bsize bio dvd boff bio" and bd: "blk_size dd dvd bsize bio"
    using ok no by (auto simp: bio_ok_def)
  have pos: "0 < bsize bio" by (rule bio_and_mask(2) [OF ok])
  have bo: "blk_size dd dvd boff bio" using bd al by (rule dvd_trans)
  have "\<exists>d'. buffered_flush_locked dd (bio, d) = Some (0, bio\<lparr>bdirty := False\<rparr>, d') \<and> contents d' = ?w"
  proof (cases "wrlimit bio")
    case False
    obtain d' where d': "write_eraseable_block dd (bbuf bio) (bsize bio) (boff bio) d = (0, d')"
        "contents d' = mem_write (contents d) (boff bio) (take (bsize bio) (bbuf bio))"
      by (rule write_eraseable [OF fit bo bd pos eq_refl [OF len [symmetric]]])
    then show ?thesis using True False len by (simp add: buffered_flush_locked_def)
  next
    case wl: True
    obtain d1 where d1: "disk_device_erase dd (boff bio) (bsize bio) d = (0, d1)"
        "contents d1 = mem_write (contents d) (boff bio) (replicate (bsize bio) 0xFF)"
      by (rule disk_erase [OF fit bo bd pos])
    have k: "0 + 256 * (bsize bio div 256) = bsize bio" using ok wl by (simp add: bio_ok_def)
    obtain d' where "wrlimit_loop dd bio (bsize bio div 256) 0 d1 = Some (0, d')" "contents d' = ?w"
      using wrlimit_loop_writes [OF len fit k] d1(2) by auto
    then show ?thesis using True wl d1(1) by (simp add: buffered_flush_locked_def)
  qed
  then obtain d' where d': "buffered_flush_locked dd (bio, d) = Some (0, bio\<lparr>bdirty := False\<rparr>, d')"
      "contents d' = ?w" by blast
  have "mem_write ?w (boff bio) (bbuf bio) = ?w" by (rule mem_write_over) simp
  then have "bio_rep dd contents (bio\<lparr>bdirty := False\<rparr>, d') v"
    using ok no v d'(2) by (simp add: bio_rep_def bio_ok_def)
  then show ?thesis using d' v by blast
qed

lemma buffered_read_rep:
  assumes "bio_rep dd contents (bio, d) v" "off + n \<le> dlen dd" "0 < n"
  shows "buffered_read dd n off (bio, d) = Some (int n, mem_read v off n)"
proof -
  have r: "disk_device_read dd n off d = (int n, mem_read (contents d) off n)" by (rule disk_read [OF assms(2)])
  show ?thesis
  proof (cases "bdirty bio")
    case False
    then have "v = contents d" using assms(1) by (auto simp: bio_rep_def split: if_splits)
    then show ?thesis using r False by (simp add: buffered_read_def)
  next
    case True
    have ok: "bio_ok dd bio" and v: "v = mem_write (contents d) (boff bio) (bbuf bio)"
      and no: "boff bio \<noteq> NO_OFFSET"
      using assms(1) True by (auto simp: bio_rep_def split: if_splits)
    have len: "length (bbuf bio) = bsize bio" and fit: "boff bio + bsize bio \<le> dlen dd"
      using ok no by (auto simp: bio_ok_def)
    have pos: "0 < bsize bio" by (rule bio_and_mask(2) [OF ok])
    have e1: "w32 (off + n + 4294967295) = off + n - 1"
      using assms(2,3) len_int by (simp add: mod_if)
    have e2: "w32 (boff bio + bsize bio + 4294967295) = boff bio + bsize bio - 1"
      using fit pos len_int by (simp add: mod_if)
    let ?beg = "max off (boff bio)" and ?en = "min (off + n - 1) (boff bio + length (bbuf bio) - 1)"
    have ri: "region_intersect (off, w32 (off + n + 4294967295)) (boff bio, w32 (boff bio + bsize bio + 4294967295)) =
        (?beg \<le> ?en, ?beg, ?en)"
      unfolding e1 e2 by (simp add: region_intersect_def len)
    show ?thesis
    proof (cases "?beg \<le> ?en")
      case False
      then have "off + n \<le> boff bio \<or> boff bio + bsize bio \<le> off"
        using assms(3) pos len by linarith
      then have "mem_read v off n = mem_read (contents d) off n"
        unfolding v by (intro mem_read_write_disjoint) (auto simp: len)
      then show ?thesis using r True ri False by (simp only: buffered_read_def Let_def prod.case) simp
    next
      case meet: True
      have lp: "0 < length (bbuf bio)" using pos len by simp
      note ov = mem_read_overlay [OF assms(3) lp meet]
      have "\<not> (?beg - off + (?en - ?beg + 1) > n \<or> ?beg - boff bio + (?en - ?beg + 1) > length (bbuf bio))"
        using ov(2,3) by linarith
      then show ?thesis using ov(1) r True ri meet v
        by (simp only: buffered_read_def Let_def prod.case if_True if_False simp_thms) simp
    qed
  qed
qed

lemma whole_block_rep:
  assumes "bio_rep dd contents (bio, d) v" "bsize bio dvd off" "off + bsize bio \<le> dlen dd"
    and "boff bio \<noteq> off" "bsize bio \<le> length buf"
  obtains d' where "write_eraseable_block dd buf (bsize bio) off d = (0, d')"
    "bio_rep dd contents (bio, d') (mem_write v off (take (bsize bio) buf))"
proof -
  have ok: "bio_ok dd bio" using assms(1) by (simp add: bio_rep_def)
  have bd: "blk_size dd dvd bsize bio" using ok by (simp add: bio_ok_def)
  have pos: "0 < bsize bio" by (rule bio_and_mask(2) [OF ok])
  obtain d' where d': "write_eraseable_block dd buf (bsize bio) off d = (0, d')"
      "contents d' = mem_write (contents d) off (take (bsize bio) buf)"
    by (rule write_eraseable [OF assms(3) dvd_trans [OF bd assms(2)] bd pos assms(5)])
  have "bio_rep dd contents (bio, d') (mem_write v off (take (bsize bio) buf))"
  proof (cases "boff bio = NO_OFFSET")
    case True
    then show ?thesis using assms(1) d'(2) by (simp add: bio_rep_def)
  next
    case False
    then have "bsize bio dvd boff bio" "length (bbuf bio) = bsize bio" using ok by (auto simp: bio_ok_def)
    then have "boff bio + length (bbuf bio) \<le> off \<or> off + length (take (bsize bio) buf) \<le> boff bio"
      using aligned_disjoint [OF _ assms(2) assms(4)] assms(5) by simp
    from mem_write_swap [OF this, of "contents d"] show ?thesis
      using assms(1) d'(2) False by (auto simp: bio_rep_def)
  qed
  then show ?thesis using that d'(1) by blast
qed

text \<open>The buffer moved to the block at \<open>off\<close>, the old one written back.\<close>

lemma fill_rep:
  assumes "bio_rep dd contents (bio, d) v" "bsize bio dvd off" "off + bsize bio \<le> dlen dd"
  defines "bio' \<equiv> bio\<lparr>bdirty := False, bbuf := mem_read v off (bsize bio), boff := off\<rparr>"
  obtains d' where "buffered_flush_locked dd (bio, d) = Some (0, bio\<lparr>bdirty := False\<rparr>, d')"
    "disk_device_read dd (bsize bio) off d' = (int (bsize bio), mem_read v off (bsize bio))"
    "bio_rep dd contents (bio', d') v"
proof -
  obtain d' where d': "buffered_flush_locked dd (bio, d) = Some (0, bio\<lparr>bdirty := False\<rparr>, d')" "contents d' = v"
    using flush_rep [OF assms(1)] by blast
  have rd: "disk_device_read dd (bsize bio) off d' = (int (bsize bio), mem_read v off (bsize bio))"
    using disk_read [OF assms(3), of d'] d'(2) by simp
  have "bio_ok dd bio" using assms(1) by (simp add: bio_rep_def)
  then have "bio_ok dd bio'" using assms(2,3) by (simp add: bio_ok_def bio'_def)
  moreover have "off \<noteq> NO_OFFSET" using assms(3) len_int by simp
  ultimately have "bio_rep dd contents (bio', d') v"
    using d'(2) by (simp add: bio_rep_def bio'_def mem_write_read_id)
  then show ?thesis using that d'(1) rd by blast
qed

lemma copy_rep:
  assumes "bio_rep dd contents (bio, d) v" "boff bio \<noteq> NO_OFFSET" "ofs + length xs \<le> bsize bio"
  shows "bio_rep dd contents (bio\<lparr>bbuf := buf_write (bbuf bio) ofs xs, bdirty := True\<rparr>, d)
    (mem_write v (boff bio + ofs) xs)"
proof -
  let ?b = "buf_write (bbuf bio) ofs xs"
  have ok: "bio_ok dd bio" and v: "v = mem_write (contents d) (boff bio) (bbuf bio)"
    using assms(1,2) by (auto simp: bio_rep_def)
  have len: "length (bbuf bio) = bsize bio" using ok by (simp add: bio_ok_def)
  have rb: "mem_read v (boff bio) (bsize bio) = bbuf bio" unfolding v by (rule mem_read_write_same) (simp add: len)
  have lb: "length ?b = bsize bio" using assms(3) len by simp
  have "mem_write (contents d) (boff bio) ?b = mem_write v (boff bio) ?b"
    unfolding v by (rule mem_write_over [symmetric]) (simp only: lb len)
  also have "\<dots> = mem_write v (boff bio + ofs) xs" by (rule mem_write_buf_write [OF rb assms(3)])
  finally have eq: "mem_write (contents d) (boff bio) ?b = mem_write v (boff bio + ofs) xs" .
  have "bio_ok dd (bio\<lparr>bbuf := ?b, bdirty := True\<rparr>)" using ok lb by (simp add: bio_ok_def)
  then show ?thesis using eq assms(2) by (simp add: bio_rep_def)
qed

lemma loop_whole:
  assumes "bio_rep dd contents (bio, d) v" "buf \<noteq> []" "off + length buf \<le> dlen dd" "off mod bsize bio = 0"
    and "bsize bio \<le> length buf" "boff bio \<noteq> off"
  obtains d' where "bio_rep dd contents (bio, d') (mem_write v off (take (bsize bio) buf))"
    "buffered_write_loop dd bytes buf off (bio, d) =
      buffered_write_loop dd bytes (drop (bsize bio) buf) (off + bsize bio) (bio, d')"
proof -
  have ok: "bio_ok dd bio" using assms(1) by (simp add: bio_rep_def)
  have al: "bsize bio dvd off" using assms(4) by auto
  have fit: "off + bsize bio \<le> dlen dd" using assms(3,5) by simp
  obtain d' where d': "write_eraseable_block dd buf (bsize bio) off d = (0, d')"
      "bio_rep dd contents (bio, d') (mem_write v off (take (bsize bio) buf))"
    by (rule whole_block_rep [OF assms(1) al fit assms(6,5)])
  have w: "w32 (off + bsize bio) = off + bsize bio" using fit len_int by simp
  have "buffered_write_loop dd bytes buf off (bio, d) =
      buffered_write_loop dd bytes (drop (bsize bio) buf) (off + bsize bio) (bio, d')"
    using assms(2,4,5) d'(1) w bio_and_mask(1) [OF ok, of off]
    by (subst buffered_write_loop.simps) (simp add: Let_def)
  then show ?thesis using that d'(2) by blast
qed

lemma loop_part:
  assumes "bio_rep dd contents (bio, d) v" "buf \<noteq> []" "off + length buf \<le> dlen dd"
    and "\<not> (off mod bsize bio = 0 \<and> bsize bio \<le> length buf)"
  defines "c \<equiv> min (length buf) (bsize bio - off mod bsize bio)"
  obtains bio' d' where "bio_rep dd contents (bio', d') (mem_write v off (take c buf))"
    "boff bio' = off - off mod bsize bio" "bsize bio' = bsize bio"
    "buffered_write_loop dd bytes buf off (bio, d) =
      buffered_write_loop dd bytes (drop c buf) (off + c) (bio', d')"
proof -
  let ?ofs = "off mod bsize bio" and ?al = "off - off mod bsize bio"
  have ok: "bio_ok dd bio" using assms(1) by (simp add: bio_rep_def)
  have pos: "0 < bsize bio" by (rule bio_and_mask(2) [OF ok])
  have al: "bsize bio dvd ?al" by (rule dvd_minus_mod)
  have ofs: "?ofs < bsize bio" "?ofs \<le> off" using pos by simp_all
  have "off < dlen dd" using assms(2,3) by (cases buf) auto
  then have lt: "?al < dlen dd" by simp
  have "bsize bio dvd dlen dd" using ok by (simp add: bio_ok_def)
  from aligned_disjoint [OF al this] have fit: "?al + bsize bio \<le> dlen dd" using lt by linarith
  have no: "?al \<noteq> NO_OFFSET" using fit len_int by simp
  have c: "?ofs + length (take c buf) \<le> bsize bio" using ofs by (simp add: c_def)
  have w: "w32 (off + c) = off + c" using assms(3) len_int by (simp add: c_def)
  obtain bio1 d1 where b1: "bio_rep dd contents (bio1, d1) v" "boff bio1 = ?al" "bsize bio1 = bsize bio"
    and l1: "buffered_write_loop dd bytes buf off (bio, d) =
      buffered_write_loop dd bytes (drop c buf) (off + c)
        (bio1\<lparr>bbuf := buf_write (bbuf bio1) ?ofs (take c buf), bdirty := True\<rparr>, d1)"
  proof (cases "boff bio = ?al")
    case True
    have "buffered_write_loop dd bytes buf off (bio, d) =
      buffered_write_loop dd bytes (drop c buf) (off + c)
        (bio\<lparr>bbuf := buf_write (bbuf bio) ?ofs (take c buf), bdirty := True\<rparr>, d)"
      using assms(2,4) True w bio_and_mask(1) [OF ok, of off]
      by (subst buffered_write_loop.simps) (auto simp: Let_def c_def)
    then show ?thesis using that [of bio d] assms(1) True by simp
  next
    case False
    let ?b = "bio\<lparr>bdirty := False, bbuf := mem_read v ?al (bsize bio), boff := ?al\<rparr>"
    obtain d' where d': "buffered_flush_locked dd (bio, d) = Some (0, bio\<lparr>bdirty := False\<rparr>, d')"
        "disk_device_read dd (bsize bio) ?al d' = (int (bsize bio), mem_read v ?al (bsize bio))"
        "bio_rep dd contents (?b, d') v"
      by (rule fill_rep [OF assms(1) al fit])
    have bw: "buf_write (bbuf bio) 0 (mem_read v ?al (bsize bio)) = mem_read v ?al (bsize bio)"
      using ok by (intro buf_write_all) (simp add: bio_ok_def)
    have "buffered_write_loop dd bytes buf off (bio, d) =
      buffered_write_loop dd bytes (drop c buf) (off + c)
        (?b\<lparr>bbuf := buf_write (bbuf ?b) ?ofs (take c buf), bdirty := True\<rparr>, d')"
      using assms(2,4) False w bio_and_mask(1) [OF ok, of off] d'(1,2) bw
      by (subst buffered_write_loop.simps) (auto simp: Let_def c_def)
    then show ?thesis using that [of ?b d'] d'(3) by simp
  qed
  have "bio_rep dd contents (bio1\<lparr>bbuf := buf_write (bbuf bio1) ?ofs (take c buf), bdirty := True\<rparr>, d1)
      (mem_write v (boff bio1 + ?ofs) (take c buf))"
    by (rule copy_rep [OF b1(1)]) (use b1 no c in simp_all)
  moreover have "boff bio1 + ?ofs = off" using b1(2) ofs by simp
  ultimately show ?thesis using that l1 b1(2,3) by fastforce
qed

lemma write_loop_bytes:
  assumes "bio_rep dd contents (bio, d) v" "off + length buf \<le> dlen dd"
    and "\<forall>a. bsize bio dvd a \<longrightarrow> off \<le> a \<longrightarrow> a + bsize bio \<le> off + length buf \<longrightarrow> boff bio \<noteq> a"
  shows "\<exists>s'. buffered_write_loop dd bytes buf off (bio, d) = Some (bytes, s') \<and>
    bio_rep dd contents s' (mem_write v off buf)"
  using assms
proof (induction "length buf" arbitrary: buf off bio d v rule: less_induct)
  case less
  show ?case
  proof (cases "buf = []")
    case True
    then show ?thesis using less.prems(1) by (subst buffered_write_loop.simps) auto
  next
    case ne: False
    have pos: "0 < bsize bio" using bio_and_mask(2) less.prems(1) unfolding bio_rep_def fst_conv by blast
    show ?thesis
    proof (cases "off mod bsize bio = 0 \<and> bsize bio \<le> length buf")
      case True
      let ?n = "bsize bio"
      have dv: "?n dvd off" and le: "off + ?n \<le> off + length buf" using True by auto
      have "boff bio \<noteq> off" using less.prems(3) dv le order_refl [of off] by blast
      then obtain d' where d': "bio_rep dd contents (bio, d') (mem_write v off (take ?n buf))"
          "buffered_write_loop dd bytes buf off (bio, d) =
            buffered_write_loop dd bytes (drop ?n buf) (off + ?n) (bio, d')"
        by (rule loop_whole [OF less.prems(1) ne less.prems(2) conjunct1 [OF True] conjunct2 [OF True]])
      have app: "mem_write (mem_write v off (take ?n buf)) (off + ?n) (drop ?n buf) = mem_write v off buf"
        using mem_write_append [of v off "take ?n buf" "drop ?n buf"] True by simp
      have "\<exists>s'. buffered_write_loop dd bytes (drop ?n buf) (off + ?n) (bio, d') = Some (bytes, s') \<and>
          bio_rep dd contents s' (mem_write (mem_write v off (take ?n buf)) (off + ?n) (drop ?n buf))"
      proof (rule less.hyps [OF _ d'(1)])
        show "length (drop ?n buf) < length buf" "off + ?n + length (drop ?n buf) \<le> dlen dd"
          using pos True ne less.prems(2) by simp_all
        have "off + ?n + length (drop ?n buf) = off + length buf" using True by simp
        then show "\<forall>a. ?n dvd a \<longrightarrow> off + ?n \<le> a \<longrightarrow> a + ?n \<le> off + ?n + length (drop ?n buf) \<longrightarrow> boff bio \<noteq> a"
          using less.prems(3) by (metis add_leD1)
      qed
      then show ?thesis unfolding app d'(2) .
    next
      case False
      let ?ofs = "off mod bsize bio"
      let ?n = "min (length buf) (bsize bio - ?ofs)"
      obtain bio' d' where d': "bio_rep dd contents (bio', d') (mem_write v off (take ?n buf))"
          "boff bio' = off - ?ofs" "bsize bio' = bsize bio"
          "buffered_write_loop dd bytes buf off (bio, d) =
            buffered_write_loop dd bytes (drop ?n buf) (off + ?n) (bio', d')"
        by (rule loop_part [OF less.prems(1) ne less.prems(2) False])
      have n: "0 < ?n" "?n \<le> length buf" using ne pos by simp_all
      have app: "mem_write (mem_write v off (take ?n buf)) (off + ?n) (drop ?n buf) = mem_write v off buf"
        using mem_write_append [of v off "take ?n buf" "drop ?n buf"] by simp
      have "\<exists>s'. buffered_write_loop dd bytes (drop ?n buf) (off + ?n) (bio', d') = Some (bytes, s') \<and>
          bio_rep dd contents s' (mem_write (mem_write v off (take ?n buf)) (off + ?n) (drop ?n buf))"
      proof (rule less.hyps [OF _ d'(1)])
        show "length (drop ?n buf) < length buf" "off + ?n + length (drop ?n buf) \<le> dlen dd"
          using n less.prems(2) by simp_all
        show "\<forall>a. bsize bio' dvd a \<longrightarrow> off + ?n \<le> a \<longrightarrow> a + bsize bio' \<le> off + ?n + length (drop ?n buf) \<longrightarrow> boff bio' \<noteq> a"
        proof (intro allI impI)
          fix a assume "off + ?n \<le> a"
          moreover have "boff bio' \<le> off" unfolding d'(2) by simp
          ultimately show "boff bio' \<noteq> a" using n(1) by linarith
        qed
      qed
      then show ?thesis unfolding app d'(4) .
    qed
  qed
qed

lemma ioflush_rep:
  assumes "bio_rep dd contents (bio, d) v"
  shows "\<exists>bio' d'. buffered_ioflush dd invalid (bio, d) = Some (0, bio', d') \<and>
    \<not> bdirty bio' \<and> contents d' = v \<and> bio_rep dd contents (bio', d') v"
proof (cases "bdirty bio")
  case False
  then show ?thesis using assms by (auto simp: buffered_ioflush_def bio_rep_def split: if_splits)
next
  case True
  obtain d' where d': "buffered_flush_locked dd (bio, d) = Some (0, bio\<lparr>bdirty := False\<rparr>, d')"
      "bio_rep dd contents (bio\<lparr>bdirty := False\<rparr>, d') v" "contents d' = v"
    using flush_rep [OF assms] by blast
  show ?thesis
  proof (cases invalid)
    case False
    then show ?thesis using True d' by (simp add: buffered_ioflush_def buffered_ioflush_locked_def)
  next
    case inv: True
    have "bio_rep dd contents (bio\<lparr>bdirty := False, boff := NO_OFFSET\<rparr>, d') v"
      using d'(2,3) by (simp add: bio_rep_def bio_ok_def)
    then show ?thesis using True inv d' by (simp add: buffered_ioflush_def buffered_ioflush_locked_def)
  qed
qed

lemma ioinit_rep:
  assumes "blksize = 2 ^ k" "blk_size dd \<le> blksize" "blksize dvd dlen dd" "limit \<longrightarrow> 256 dvd blksize"
    and "length blkbuf = blksize" "dd_tab w h = dd" "h \<noteq> 0" "b \<noteq> 0" "b \<notin> set (buffered_created w)"
  shows "\<exists>w'. buffered_ioinit h b blkbuf blksize limit w = Some (0, w') \<and>
    buffered_created w' = b # buffered_created w \<and> bio_rep dd contents (bio_tab w' b, d) (contents d)"
proof -
  obtain j where j: "blk_size dd = 2 ^ j" using blk_pow by blast
  have dv: "blk_size dd dvd blksize" using assms(1,2) j by (simp add: le_imp_power_dvd)
  have lt: "blksize < 4294967296" using dvd_imp_le [OF assms(3) len_pos] len_int by simp
  have pos: "0 < blksize" using assms(1) by simp
  have an: "blksize AND w32 (blksize + 4294967295) = 0" using and_blk_mask [OF assms(1) lt] by simp
  have ms: "w32 (blksize + 4294967295) = blksize - 1" using pos lt by (simp add: mod_if)
  have ns: "blksize div blk_size dd * blk_size dd = blksize" using dv by simp
  have ex: "\<exists>k. blksize = 2 ^ k" using assms(1) by blast
  have dp: "0 < blksize div blk_size dd" using assms(2) blk_bounds(1) by (simp add: div_greater_zero_iff)
  show ?thesis using assms(3-) an ms ns dv pos dp ex blk_bounds(1)
    by (simp add: buffered_ioinit_def Let_def bio_rep_def bio_ok_def)
qed

end

section \<open>Properties\<close>

text \<open>
  C8. Over every driver that meets the flash contract, buffered I/O is a byte store as long as no block
  that the write covers wholly is the one in the buffer: the write returns its length and changes
  exactly its bytes, every later read that is not empty returns them, and a flush puts them on the disk.
\<close>

theorem buffered_io_is_byte_store:
  assumes "flash_disk dd contents" "bio_rep dd contents (bio, d) v" "off + length xs \<le> dlen dd"
    and "\<forall>a. bsize bio dvd a \<longrightarrow> off \<le> a \<longrightarrow> a + bsize bio \<le> off + length xs \<longrightarrow> boff bio \<noteq> a"
  shows "\<exists>s. buffered_write dd xs off (bio, d) = Some (int (length xs), s) \<and>
    bio_rep dd contents s (mem_write v off xs) \<and>
    (\<forall>p n. 0 < n \<and> p + n \<le> dlen dd \<longrightarrow>
       buffered_read dd n p s = Some (int n, mem_read (mem_write v off xs) p n)) \<and>
    (\<exists>bio' d'. buffered_ioflush dd invalid s = Some (0, bio', d') \<and> \<not> bdirty bio' \<and>
       contents d' = mem_write v off xs)"
proof -
  obtain bio1 d1 where s: "buffered_write dd xs off (bio, d) = Some (int (length xs), bio1, d1)"
      "bio_rep dd contents (bio1, d1) (mem_write v off xs)"
    using flash_disk.write_loop_bytes [OF assms] unfolding buffered_write_def by fast
  show ?thesis
    using s flash_disk.buffered_read_rep [OF assms(1) s(2)] flash_disk.ioflush_rep [OF assms(1) s(2)]
    by blast
qed

text \<open>A buffer of one page over an erased virtual flash.\<close>

definition example_bio :: buffered_io where
  "example_bio = \<lparr>bdd = 1, boff = NO_OFFSET, bsize = 256, bmask = 255, bdirty = False, allocated = False,
     wrlimit = True, panic = False, bbuf = replicate 256 0\<rparr>"

lemma example_bio_rep: "bio_rep vdisk (\<lambda>m. m) (example_bio, \<lambda>_. 0xFF) (\<lambda>_. 0xFF)"
proof -
  have "\<exists>k. (256 :: nat) = 2 ^ k" by (rule exI [of _ 8]) simp
  then show ?thesis by (simp add: bio_rep_def bio_ok_def example_bio_def vdisk_def)
qed

theorem buffered_io_is_byte_store_witness:
  "\<exists>s. buffered_write vdisk [1, 2, 3] 255 (example_bio, \<lambda>_. 0xFF) = Some (3, s) \<and>
     buffered_read vdisk 3 255 s = Some (3, [1, 2, 3])"
proof -
  have r: "255 + length [1, 2, 3 :: u8] \<le> dlen vdisk" by (simp add: vdisk_def)
  have h: "\<forall>a. bsize example_bio dvd a \<longrightarrow> 255 \<le> a \<longrightarrow> a + bsize example_bio \<le> 255 + length [1, 2, 3 :: u8] \<longrightarrow>
      boff example_bio \<noteq> a" by (simp add: example_bio_def)
  from buffered_io_is_byte_store [OF vflash.flash_disk_axioms example_bio_rep r h] obtain s where
    s: "buffered_write vdisk [1, 2, 3] 255 (example_bio, \<lambda>_. 0xFF) = Some (int (length [1, 2, 3 :: u8]), s)"
    "\<forall>p n. 0 < n \<and> p + n \<le> dlen vdisk \<longrightarrow>
       buffered_read vdisk n p s = Some (int n, mem_read (mem_write (\<lambda>_. 0xFF) 255 [1, 2, 3]) p n)"
    by blast
  have "buffered_read vdisk (length [1, 2, 3 :: u8]) 255 s =
      Some (int (length [1, 2, 3 :: u8]), mem_read (mem_write (\<lambda>_. 0xFF) 255 [1, 2, 3]) 255 (length [1, 2, 3 :: u8]))"
    using s(2) r by simp
  then show ?thesis using s(1) by (simp add: mem_read_write_same numeral_3_eq_3)
qed

text \<open>
  C35. A write of exactly the block in a dirty buffer is lost: it reports its length and reaches the
  disk, but reads still return the old bytes of the buffer, and the next flush puts these back over
  the new ones.
\<close>

theorem buffered_whole_block_lost:
  assumes "flash_disk dd contents" "bio_rep dd contents (bio, d) v" "bdirty bio" "length xs = bsize bio"
  shows "\<exists>s. buffered_write dd xs (boff bio) (bio, d) = Some (int (length xs), s) \<and>
    contents (snd s) = mem_write (contents d) (boff bio) xs \<and>
    buffered_read dd (bsize bio) (boff bio) s = Some (int (bsize bio), bbuf bio) \<and>
    (\<exists>bio' d'. buffered_ioflush dd invalid s = Some (0, bio', d') \<and> contents d' = v)"
proof -
  have ok: "bio_ok dd bio" and no: "boff bio \<noteq> NO_OFFSET"
    and v: "v = mem_write (contents d) (boff bio) (bbuf bio)"
    using assms(2,3) by (auto simp: bio_rep_def split: if_splits)
  have len: "length (bbuf bio) = bsize bio" and fit: "boff bio + bsize bio \<le> dlen dd"
    and al: "bsize bio dvd boff bio" and bd: "blk_size dd dvd bsize bio"
    using ok no by (auto simp: bio_ok_def)
  have pos: "0 < bsize bio" by (rule bio_and_mask(2) [OF ok])
  obtain d' where d': "write_eraseable_block dd xs (bsize bio) (boff bio) d = (0, d')"
      "contents d' = mem_write (contents d) (boff bio) (take (bsize bio) xs)"
    by (rule flash_disk.write_eraseable [OF assms(1) fit dvd_trans [OF bd al] bd pos eq_refl [OF assms(4) [symmetric]]])
  have c: "contents d' = mem_write (contents d) (boff bio) xs" using d'(2) assms(4) by simp
  have wr: "buffered_write dd xs (boff bio) (bio, d) = Some (int (length xs), bio, d')"
    unfolding buffered_write_def using assms(4) d'(1) pos al bio_and_mask(1) [OF ok, of "boff bio"]
    by (subst buffered_write_loop.simps, subst buffered_write_loop.simps) (auto simp: Let_def)
  have rep: "bio_rep dd contents (bio, d') v"
    using ok no assms(3,4) len v by (simp add: bio_rep_def c mem_write_over)
  have "mem_read v (boff bio) (bsize bio) = bbuf bio" unfolding v by (rule mem_read_write_same) (simp add: len)
  then have "buffered_read dd (bsize bio) (boff bio) (bio, d') = Some (int (bsize bio), bbuf bio)"
    using flash_disk.buffered_read_rep [OF assms(1) rep fit pos] by simp
  then show ?thesis using wr c flash_disk.ioflush_rep [OF assms(1) rep, of invalid] by auto
qed

text \<open>The same buffer, holding zeros to be written to the first page.\<close>

lemma example_dirty_rep:
  "bio_rep vdisk (\<lambda>m. m) (example_bio\<lparr>boff := 0, bdirty := True\<rparr>, \<lambda>_. 0xFF)
     (mem_write (\<lambda>_. 0xFF) 0 (replicate 256 0))"
  using example_bio_rep by (simp add: bio_rep_def bio_ok_def example_bio_def vdisk_def)

theorem buffered_whole_block_lost_witness:
  "\<exists>s. buffered_write vdisk (replicate 256 7) 0 (example_bio\<lparr>boff := 0, bdirty := True\<rparr>, \<lambda>_. 0xFF) = Some (256, s) \<and>
     buffered_read vdisk 256 0 s = Some (256, replicate 256 0)"
proof -
  let ?b = "example_bio\<lparr>boff := 0, bdirty := True\<rparr>"
  have h: "bdirty ?b" "length (replicate 256 (7 :: u8)) = bsize ?b" by (simp_all add: example_bio_def)
  have f: "boff ?b = 0" "bsize ?b = 256" "bbuf ?b = replicate 256 0" by (simp_all add: example_bio_def)
  from buffered_whole_block_lost [OF vflash.flash_disk_axioms example_dirty_rep h] obtain s where
    "buffered_write vdisk (replicate 256 7) (boff ?b) (?b, \<lambda>_. 0xFF) = Some (int (length (replicate 256 (7 :: u8))), s)"
    "buffered_read vdisk (bsize ?b) (boff ?b) s = Some (int (bsize ?b), bbuf ?b)" by blast
  then show ?thesis unfolding f length_replicate by auto
qed

end
