(* ===== verification/Fnmatch.thy ===== *)
theory Fnmatch
  imports Prelude
begin

text \<open>
  The glob matching of \<open>lib/fnmatch.c\<close>. A C string is the list of its characters, none of them NUL, so
  that the empty list is a string of which only EOS is left; \<open>char\<close> is unsigned, as on the target, and
  the locale is the C locale. None is a read behind the end of a string. The reference matcher works on
  the tokens of a pattern.
\<close>

section \<open>Definitions\<close>

abbreviation (input) FNM_NOMATCH :: int where "FNM_NOMATCH \<equiv> 1"
abbreviation (input) FNM_NORES :: int where "FNM_NORES \<equiv> 3"

record fnm_flags =
  FNM_NOESCAPE :: bool
  FNM_PATHNAME :: bool
  FNM_PERIOD :: bool
  FNM_CASEFOLD :: bool
  FNM_LEADING_DIR :: bool

definition foldcase :: "char \<Rightarrow> fnm_flags \<Rightarrow> char" where
  "foldcase ch flags =
     (if FNM_CASEFOLD flags \<and> 65 \<le> (of_char ch :: nat) \<and> (of_char ch :: nat) \<le> 90
      then char_of ((of_char ch :: nat) + 32) else ch)"

text \<open>What \<open>rangematch\<close> returns: NULL, the pointer -1, or the pattern behind the bracket.\<close>

datatype range_result = RangeNull | RangeSlash | RangeRest string

text \<open>A character of the bracket, behind its backslash if it has one; None is EOS.\<close>

definition escaped :: "fnm_flags \<Rightarrow> char \<Rightarrow> string \<Rightarrow> (char \<times> string) option" where
  "escaped flags c pattern =
     (if c = CHR 0x5C \<and> \<not> FNM_NOESCAPE flags
      then (case pattern of [] \<Rightarrow> None | q # pattern \<Rightarrow> Some (foldcase q flags, pattern))
      else Some (c, pattern))"

text \<open>An element of the bracket with the range it stands for; a single character is a range of one.\<close>

definition range_item :: "fnm_flags \<Rightarrow> char \<Rightarrow> string \<Rightarrow> (nat \<times> nat \<times> string) option" where
  "range_item flags c pattern =
     Option.bind (escaped flags c pattern) (\<lambda>(c, pattern).
       if 2 \<le> length pattern \<and> pattern ! 0 = CHR ''-'' \<and> foldcase (pattern ! 1) flags \<noteq> CHR '']''
       then Option.bind (escaped flags (foldcase (pattern ! 1) flags) (drop 2 pattern)) (\<lambda>(c2, pattern).
              Some (of_char c, of_char c2, pattern))
       else Some (of_char c, of_char c, pattern))"

lemma escaped_shorter: "escaped flags c p = Some (d, r) \<Longrightarrow> length r \<le> length p"
  by (auto simp: escaped_def split: if_splits list.splits)

lemma range_item_shorter:
  assumes "range_item flags c p = Some (lo, hi, r)"
  shows "length r \<le> length p"
proof -
  obtain d q where q: "escaped flags c p = Some (d, q)"
    using assms by (auto simp: range_item_def split: Option.bind_splits)
  have "length r \<le> length q"
    using assms q
    by (auto simp: range_item_def split: if_splits Option.bind_splits dest!: escaped_shorter)
  then show ?thesis using escaped_shorter [OF q] by linarith
qed

text \<open>The loop over the bracket: \<open>ok\<close> and \<open>need\<close> as in the code.\<close>

function range_loop :: "nat \<Rightarrow> fnm_flags \<Rightarrow> bool \<Rightarrow> bool \<Rightarrow> bool \<Rightarrow> string \<Rightarrow> range_result" where
  "range_loop test flags negate need ok [] = RangeNull"
| "range_loop test flags negate need ok (p # pattern) =
     (let c = foldcase p flags
      in if c = CHR '']'' \<and> \<not> need then (if ok = negate then RangeNull else RangeRest pattern)
         else if c = CHR ''/'' then RangeSlash
         else
           case range_item flags c pattern of
             None \<Rightarrow> RangeNull
           | Some (lo, hi, pattern) \<Rightarrow>
               range_loop test flags negate False (ok \<or> lo \<le> test \<and> test \<le> hi) pattern)"
  by pat_completeness auto

termination
  by (relation "measure (\<lambda>(test, flags, negate, need, ok, pattern). length pattern)")
    (auto simp: le_imp_less_Suc dest: range_item_shorter)

definition rangematch :: "string \<Rightarrow> nat \<Rightarrow> fnm_flags \<Rightarrow> range_result" where
  "rangematch pattern test flags =
     (let negate = (pattern \<noteq> [] \<and> (hd pattern = CHR ''!'' \<or> hd pattern = CHR 0x5E));
          pattern = (if negate then tl pattern else pattern)
      in range_loop test flags negate True False pattern)"

text \<open>What is left behind a bracket is shorter than the pattern, so that the matching ends.\<close>

lemma range_loop_shorter:
  "range_loop test flags negate need ok pattern = RangeRest r \<Longrightarrow> length r < length pattern"
  by (induction test flags negate need ok pattern rule: range_loop.induct)
    (fastforce simp: Let_def split: if_splits option.splits dest!: range_item_shorter)+

lemma rangematch_shorter: "rangematch pattern test flags = RangeRest r \<Longrightarrow> length r \<le> length pattern"
  using range_loop_shorter by (fastforce simp: rangematch_def Let_def split: if_splits)

text \<open>
  A period that a wildcard must not match: \<open>prev\<close> is the character before the string, None at its start.
\<close>

definition leading_period :: "fnm_flags \<Rightarrow> char option \<Rightarrow> string \<Rightarrow> bool" where
  "leading_period flags prev str \<longleftrightarrow>
     str \<noteq> [] \<and> hd str = CHR ''.'' \<and> FNM_PERIOD flags \<and>
     (prev = None \<or> FNM_PATHNAME flags \<and> prev = Some (CHR ''/''))"

text \<open>
  \<open>fnmatchx\<close> behind its test of \<open>recursion\<close>, which is what is left of it afterwards, as \<open>match_loop\<close>, and
  the loop of its general case of a star as \<open>star_loop\<close>, whose recursive call makes that test.
\<close>

function match_loop :: "nat \<Rightarrow> fnm_flags \<Rightarrow> string \<Rightarrow> char option \<Rightarrow> string \<Rightarrow> int option"
  and star_loop :: "nat \<Rightarrow> fnm_flags \<Rightarrow> string \<Rightarrow> string \<Rightarrow> int option" where
  "match_loop recursion flags pattern prev str =
     (case pattern of
        [] \<Rightarrow>
          if FNM_LEADING_DIR flags \<and> str \<noteq> [] \<and> hd str = CHR ''/'' then Some 0
          else Some (if str = [] then 0 else FNM_NOMATCH)
      | p # pattern \<Rightarrow>
          let c = foldcase p flags
          in if c = CHR ''?'' then
               (case str of
                  [] \<Rightarrow> Some FNM_NOMATCH
                | x # str' \<Rightarrow>
                    if x = CHR ''/'' \<and> FNM_PATHNAME flags then Some FNM_NOMATCH
                    else if leading_period flags prev str then Some FNM_NOMATCH
                    else match_loop recursion flags pattern (Some x) str')
             else if c = CHR ''*'' then
               let pattern = dropWhile (\<lambda>q. foldcase q flags = CHR ''*'') pattern
               in if leading_period flags prev str then Some FNM_NOMATCH
                  else if pattern = [] then
                    (if FNM_PATHNAME flags
                     then Some (if FNM_LEADING_DIR flags \<or> CHR ''/'' \<notin> set str then 0 else FNM_NOMATCH)
                     else Some 0)
                  else if foldcase (hd pattern) flags = CHR ''/'' \<and> FNM_PATHNAME flags then
                    (if CHR ''/'' \<notin> set str then Some FNM_NOMATCH
                     else
                       let before = takeWhile (\<lambda>x. x \<noteq> CHR ''/'') str
                       in match_loop recursion flags pattern
                            (if before = [] then prev else Some (last before)) (drop (length before) str))
                  else star_loop recursion flags pattern str
             else if c = CHR ''['' then
               (case str of
                  [] \<Rightarrow> Some FNM_NOMATCH
                | x # str' \<Rightarrow>
                    if x = CHR ''/'' \<and> FNM_PATHNAME flags then Some FNM_NOMATCH
                    else
                      case rangematch pattern (of_char (foldcase x flags)) flags of
                        RangeNull \<Rightarrow> Some FNM_NOMATCH
                      | RangeSlash \<Rightarrow>
                          if x \<noteq> CHR ''['' then Some FNM_NOMATCH
                          else match_loop recursion flags pattern (Some x) str'
                      | RangeRest r \<Rightarrow> match_loop recursion flags r (Some x) str')
             else if c = CHR 0x5C \<and> \<not> FNM_NOESCAPE flags then
               (case pattern of
                  [] \<Rightarrow> if str = [] then None else Some FNM_NOMATCH
                | q # pattern \<Rightarrow>
                    (case str of
                       [] \<Rightarrow> Some FNM_NOMATCH
                     | x # str' \<Rightarrow>
                         if foldcase q flags \<noteq> foldcase x flags then Some FNM_NOMATCH
                         else match_loop recursion flags pattern (Some x) str'))
             else
               (case str of
                  [] \<Rightarrow> Some FNM_NOMATCH
                | x # str' \<Rightarrow>
                    if c \<noteq> foldcase x flags then Some FNM_NOMATCH
                    else match_loop recursion flags pattern (Some x) str'))"
| "star_loop recursion flags pattern str =
     (case str of
        [] \<Rightarrow> Some FNM_NOMATCH
      | x # str' \<Rightarrow>
          Option.bind
            (if recursion = 0 then Some FNM_NORES
             else match_loop (recursion - 1) (flags\<lparr>FNM_PERIOD := False\<rparr>) pattern None str)
            (\<lambda>e. if e \<noteq> FNM_NOMATCH then Some e
                 else if foldcase x flags = CHR ''/'' \<and> FNM_PATHNAME flags then Some FNM_NOMATCH
                 else star_loop recursion flags pattern str'))"
  by pat_completeness auto

termination
  by (relation "inv_image (less_than <*lex*> less_than <*lex*> less_than)
       (case_sum (\<lambda>(r, f, p, v, s). (r, length p, length s)) (\<lambda>(r, f, p, s). (r, length p, length s)))")
    (auto simp: le_imp_less_Suc length_dropWhile_le dest: rangematch_shorter)

definition fnmatchx :: "string option \<Rightarrow> string option \<Rightarrow> fnm_flags \<Rightarrow> nat \<Rightarrow> int option" where
  "fnmatchx pattern str flags recursion =
     (case (pattern, str) of
        (Some p, Some s) \<Rightarrow> if recursion = 0 then Some FNM_NORES else match_loop (recursion - 1) flags p None s
      | _ \<Rightarrow> Some FNM_NOMATCH)"

definition fnmatch :: "string option \<Rightarrow> string option \<Rightarrow> fnm_flags \<Rightarrow> int option" where
  "fnmatch pattern str flags = fnmatchx pattern str flags 64"

text \<open>
  The reference: the tokens of a pattern, and what they match. \<open>pn\<close>: a wildcard does not match a slash.
  A bracket that is not closed matches nothing; one with a slash inside is a literal bracket. A pattern
  that ends in a single backslash has no tokens.
\<close>

datatype token = TAny | TStar | TSet bool "(nat \<times> nat) list" | TFail | TLit char

datatype bracket = BNull | BSlash | BRest "(nat \<times> nat) list" string

function bracket_items :: "fnm_flags \<Rightarrow> bool \<Rightarrow> string \<Rightarrow> bracket" where
  "bracket_items flags need [] = BNull"
| "bracket_items flags need (p # pattern) =
     (let c = foldcase p flags
      in if c = CHR '']'' \<and> \<not> need then BRest [] pattern
         else if c = CHR ''/'' then BSlash
         else
           case range_item flags c pattern of
             None \<Rightarrow> BNull
           | Some (lo, hi, pattern) \<Rightarrow>
               (case bracket_items flags False pattern of BRest rs r \<Rightarrow> BRest ((lo, hi) # rs) r | b \<Rightarrow> b))"
  by pat_completeness auto

termination
  by (relation "measure (\<lambda>(flags, need, pattern). length pattern)")
    (auto simp: le_imp_less_Suc dest: range_item_shorter)

definition negated :: "string \<Rightarrow> bool" where
  "negated pattern \<longleftrightarrow> pattern \<noteq> [] \<and> (hd pattern = CHR ''!'' \<or> hd pattern = CHR 0x5E)"

definition bracket_of :: "fnm_flags \<Rightarrow> string \<Rightarrow> bracket" where
  "bracket_of flags pattern = bracket_items flags True (if negated pattern then tl pattern else pattern)"

lemma bracket_items_shorter: "bracket_items flags need p = BRest rs r \<Longrightarrow> length r < length p"
proof (induction flags need p arbitrary: rs rule: bracket_items.induct)
  case (2 flags need p pattern)
  then show ?case
    by (fastforce simp: Let_def split: if_splits option.splits bracket.splits dest: range_item_shorter)
qed simp

lemma bracket_of_shorter: "bracket_of flags p = BRest rs r \<Longrightarrow> length r \<le> length p"
  using bracket_items_shorter by (fastforce simp: bracket_of_def split: if_splits)

function tokens :: "fnm_flags \<Rightarrow> string \<Rightarrow> token list option" where
  "tokens flags [] = Some []"
| "tokens flags (p # pattern) =
     (let c = foldcase p flags
      in if c = CHR ''?'' then map_option (Cons TAny) (tokens flags pattern)
         else if c = CHR ''*'' then
           map_option (Cons TStar) (tokens flags (dropWhile (\<lambda>q. foldcase q flags = CHR ''*'') pattern))
         else if c = CHR ''['' then
           (case bracket_of flags pattern of
              BNull \<Rightarrow> Some [TFail]
            | BSlash \<Rightarrow> map_option (Cons (TLit c)) (tokens flags pattern)
            | BRest rs r \<Rightarrow> map_option (Cons (TSet (negated pattern) rs)) (tokens flags r))
         else if c = CHR 0x5C \<and> \<not> FNM_NOESCAPE flags then
           (case pattern of
              [] \<Rightarrow> None
            | q # pattern \<Rightarrow> map_option (Cons (TLit (foldcase q flags))) (tokens flags pattern))
         else map_option (Cons (TLit c)) (tokens flags pattern))"
  by pat_completeness auto

termination
  by (relation "measure (\<lambda>(flags, pattern). length pattern)")
    (auto simp: le_imp_less_Suc length_dropWhile_le dest: bracket_of_shorter)

definition in_ranges :: "nat \<Rightarrow> (nat \<times> nat) list \<Rightarrow> bool" where
  "in_ranges x rs \<longleftrightarrow> list_ex (\<lambda>(lo, hi). lo \<le> x \<and> x \<le> hi) rs"

function matches :: "fnm_flags \<Rightarrow> token list \<Rightarrow> string \<Rightarrow> bool" where
  "matches flags [] s = (s = [])"
| "matches flags (TAny # ts) s =
     (case s of [] \<Rightarrow> False | x # s \<Rightarrow> \<not> (FNM_PATHNAME flags \<and> x = CHR ''/'') \<and> matches flags ts s)"
| "matches flags (TStar # ts) s =
     (matches flags ts s \<or>
      (case s of [] \<Rightarrow> False | x # s \<Rightarrow> \<not> (FNM_PATHNAME flags \<and> x = CHR ''/'') \<and> matches flags (TStar # ts) s))"
| "matches flags (TSet neg rs # ts) s =
     (case s of [] \<Rightarrow> False
      | x # s \<Rightarrow> \<not> (FNM_PATHNAME flags \<and> x = CHR ''/'') \<and>
          in_ranges (of_char (foldcase x flags)) rs \<noteq> neg \<and> matches flags ts s)"
| "matches flags (TFail # ts) s = False"
| "matches flags (TLit c # ts) s = (case s of [] \<Rightarrow> False | x # s \<Rightarrow> foldcase x flags = c \<and> matches flags ts s)"
  by pat_completeness auto

termination
  by (relation "measure (\<lambda>(flags, ts, s). length ts + length s)") auto

definition stars :: "token list \<Rightarrow> nat" where
  "stars ts = length (filter (\<lambda>t. t = TStar) ts)"

section \<open>Lemmas\<close>

lemma foldcase_special:
  "of_char c < (65 :: nat) \<or> of_char c = (91 :: nat) \<Longrightarrow> foldcase x flags = c \<longleftrightarrow> x = c"
proof -
  assume c: "of_char c < (65 :: nat) \<or> of_char c = (91 :: nat)"
  have "foldcase x flags = c \<longleftrightarrow> of_char (foldcase x flags) = (of_char c :: nat)" by simp
  also have "\<dots> \<longleftrightarrow> of_char x = (of_char c :: nat)"
    using c by (auto simp: foldcase_def)
  finally show ?thesis by simp
qed

lemma foldcase_slash [simp]: "foldcase x flags = CHR ''/'' \<longleftrightarrow> x = CHR ''/''"
  by (rule foldcase_special) simp

lemma foldcase_bracket [simp]: "foldcase x flags = CHR ''['' \<longleftrightarrow> x = CHR ''[''"
  by (rule foldcase_special) simp

lemma foldcase_slash_id [simp]: "foldcase (CHR ''/'') flags = CHR ''/''"
  by simp

lemma range_loop_items:
  "range_loop test flags negate need ok p =
     (case bracket_items flags need p of
        BNull \<Rightarrow> RangeNull
      | BSlash \<Rightarrow> RangeSlash
      | BRest rs r \<Rightarrow> if (ok \<or> in_ranges test rs) = negate then RangeNull else RangeRest r)"
proof (induction test flags negate need ok p rule: range_loop.induct)
  case (2 test flags negate need ok p pattern)
  then show ?case
    by (auto simp: Let_def in_ranges_def split: option.splits bracket.splits)
qed simp

lemma rangematch_bracket:
  "rangematch p test flags =
     (case bracket_of flags p of
        BNull \<Rightarrow> RangeNull
      | BSlash \<Rightarrow> RangeSlash
      | BRest rs r \<Rightarrow> if in_ranges test rs = negated p then RangeNull else RangeRest r)"
  unfolding rangematch_def bracket_of_def Let_def negated_def [symmetric] range_loop_items
  by (simp split: bracket.splits)

lemma star_slash:
  assumes "FNM_PATHNAME flags"
  shows "matches flags (TStar # TLit (CHR ''/'') # ts) s \<longleftrightarrow>
    CHR ''/'' \<in> set s \<and> matches flags (TLit (CHR ''/'') # ts) (dropWhile (\<lambda>x. x \<noteq> CHR ''/'') s)"
  using assms by (induction s) auto

lemma star_end: "matches flags [TStar] s \<longleftrightarrow> \<not> (FNM_PATHNAME flags \<and> CHR ''/'' \<in> set s)"
  by (induction s) auto

declare match_loop.simps [simp del] star_loop.simps [simp del]

lemma star_loop_tokens:
  assumes "\<And>s. match_loop (r - 1) flags p None s = Some (if matches flags ts s then 0 else FNM_NOMATCH)"
    and "0 < r" "\<not> FNM_PERIOD flags" "\<not> matches flags ts []"
  shows "star_loop r flags p s = Some (if matches flags (TStar # ts) s then 0 else FNM_NOMATCH)"
proof (induction s)
  case Nil
  then show ?case using assms(4) by (subst star_loop.simps) simp
next
  case (Cons x s)
  have "flags\<lparr>FNM_PERIOD := False\<rparr> = flags" using assms(3) by (cases flags) simp
  then show ?case using Cons assms(1,2) by (subst star_loop.simps) auto
qed

lemma tokens_not_empty:
  assumes "tokens flags (p # pattern) = Some ts" "foldcase p flags \<noteq> CHR ''*''"
  shows "\<not> matches flags ts []"
  using assms by (auto simp: Let_def split: if_splits bracket.splits list.splits)

lemma no_leading_period: "\<not> FNM_PERIOD flags \<Longrightarrow> \<not> leading_period flags prev s"
  by (simp add: leading_period_def)

lemma drop_before_slash:
  "drop (length (takeWhile (\<lambda>x. x \<noteq> CHR ''/'') s)) s = dropWhile (\<lambda>x. x \<noteq> CHR ''/'') s"
  by (simp add: dropWhile_eq_drop)

lemma match_loop_star_step:
  assumes "\<not> FNM_PERIOD flags" "\<not> FNM_LEADING_DIR flags" "foldcase p flags = CHR ''*''"
    and "q = dropWhile (\<lambda>q. foldcase q flags = CHR ''*'') pattern"
  shows "match_loop r flags (p # pattern) prev s =
    (if q = [] then Some (if FNM_PATHNAME flags \<and> CHR ''/'' \<in> set s then FNM_NOMATCH else 0)
     else if hd q = CHR ''/'' \<and> FNM_PATHNAME flags then
       (if CHR ''/'' \<notin> set s then Some FNM_NOMATCH
        else match_loop r flags q
          (if takeWhile (\<lambda>x. x \<noteq> CHR ''/'') s = [] then prev else Some (last (takeWhile (\<lambda>x. x \<noteq> CHR ''/'') s)))
          (dropWhile (\<lambda>x. x \<noteq> CHR ''/'') s))
     else star_loop r flags q s)"
  using assms(1-3)
  by (subst match_loop.simps)
    (simp add: Let_def assms(4) [symmetric] no_leading_period drop_before_slash del: takeWhile_eq_Nil_iff dropWhile_eq_Nil_conv)

lemma match_loop_star:
  assumes IH: "\<And>q r prev s us. length q < length (p # pattern) \<Longrightarrow> tokens flags q = Some us \<Longrightarrow> stars us \<le> r \<Longrightarrow>
      match_loop r flags q prev s = Some (if matches flags us s then 0 else FNM_NOMATCH)"
    and "\<not> FNM_PERIOD flags" "\<not> FNM_LEADING_DIR flags" "foldcase p flags = CHR ''*''"
    and "tokens flags (p # pattern) = Some ts" "stars ts \<le> r"
  shows "match_loop r flags (p # pattern) prev s = Some (if matches flags ts s then 0 else FNM_NOMATCH)"
proof -
  define q where "q = dropWhile (\<lambda>q. foldcase q flags = CHR ''*'') pattern"
  note step = match_loop_star_step [OF assms(2-4) q_def, of r prev s]
  obtain us where us: "tokens flags q = Some us" "ts = TStar # us"
    using assms(4,5) by (auto simp: Let_def q_def)
  have st: "Suc (stars us) \<le> r" using assms(6) us(2) by (simp add: stars_def)
  have len: "length q < length (p # pattern)" by (simp add: q_def le_imp_less_Suc length_dropWhile_le)
  have ih: "match_loop k flags q v s' = Some (if matches flags us s' then 0 else FNM_NOMATCH)" if "stars us \<le> k" for k v s'
    by (rule IH [OF len us(1) that])
  consider (nil) "q = []" | (slash) "q \<noteq> []" "hd q = CHR ''/'' \<and> FNM_PATHNAME flags"
    | (star) "q \<noteq> []" "\<not> (hd q = CHR ''/'' \<and> FNM_PATHNAME flags)" by blast
  then show ?thesis
  proof cases
    case nil
    then have us0: "us = []" using us(1) by simp
    show ?thesis unfolding step us(2) us0 star_end using nil by simp
  next
    case slash
    then obtain q' where "q = CHR ''/'' # q'" by (cases q) auto
    then obtain vs where vs: "us = TLit (CHR ''/'') # vs" using us(1) by (auto simp: Let_def)
    have "match_loop r flags q v s' = Some (if matches flags us s' then 0 else FNM_NOMATCH)" for v s'
      by (rule ih) (use st in simp)
    then show ?thesis
      unfolding step us(2) vs star_slash [OF conjunct2 [OF slash(2)]] using slash by (simp only: vs if_False simp_thms) simp
  next
    case star
    then obtain x q' where q: "q = x # q'" by (cases q) auto
    have "foldcase x flags \<noteq> CHR ''*''" using q hd_dropWhile [of "\<lambda>q. foldcase q flags = CHR ''*''" pattern] q_def
      by (metis list.sel(1) list.discI)
    then have ne: "\<not> matches flags us []" using tokens_not_empty us(1) q by blast
    have "star_loop r flags q s = Some (if matches flags (TStar # us) s then 0 else FNM_NOMATCH)"
      by (rule star_loop_tokens [OF ih _ assms(2) ne]) (use st in simp_all)
    then show ?thesis unfolding step us(2) using star by (simp only: if_False)
  qed
qed

lemma match_loop_tokens:
  assumes "\<not> FNM_PERIOD flags" "\<not> FNM_LEADING_DIR flags" "tokens flags p = Some ts" "stars ts \<le> r"
  shows "match_loop r flags p prev s = Some (if matches flags ts s then 0 else FNM_NOMATCH)"
  using assms(3,4)
proof (induction "length p" arbitrary: p ts r prev s rule: less_induct)
  case less
  show ?case
  proof (cases p)
    case Nil
    then show ?thesis using less.prems assms(2) by (subst match_loop.simps) auto
  next
    case (Cons c q)
    have st: "stars (t # us) \<le> r \<Longrightarrow> stars us \<le> r" for t us by (simp add: stars_def split: if_splits)
    have ih: "match_loop r flags q' prev' s' = Some (if matches flags us s' then 0 else FNM_NOMATCH)"
      if "length q' \<le> length q" "tokens flags q' = Some us" "ts = t # us" for q' us t prev' s'
      using less.hyps [of q' us r prev' s'] Cons st less.prems(2) that by simp
    have tk: "tokens flags (c # q) = Some ts" using less.prems(1) Cons by simp
    consider (star) "foldcase c flags = CHR ''*''" | (any) "foldcase c flags = CHR ''?''" | (br) "c = CHR ''[''"
      | (esc) "foldcase c flags = CHR 0x5C" "\<not> FNM_NOESCAPE flags"
      | (lit) "foldcase c flags \<noteq> CHR ''*''" "foldcase c flags \<noteq> CHR ''?''" "c \<noteq> CHR ''[''"
          "\<not> (foldcase c flags = CHR 0x5C \<and> \<not> FNM_NOESCAPE flags)" by blast
    then have "match_loop r flags (c # q) prev s = Some (if matches flags ts s then 0 else FNM_NOMATCH)"
    proof cases
      case star
      show ?thesis
        by (rule match_loop_star [OF _ assms(1,2) star tk less.prems(2)]) (rule less.hyps, simp_all add: Cons)
    next
      case any
      then obtain us where us: "tokens flags q = Some us" "ts = TAny # us" using tk by (auto simp: Let_def)
      show ?thesis
        by (subst match_loop.simps, cases s)
          (simp_all add: Let_def any us(2) no_leading_period [OF assms(1)] ih [OF order_refl us])
    next
      case br
      then have c: "foldcase c flags = CHR ''[''" by simp
      show ?thesis
      proof (cases "bracket_of flags q")
        case BNull
        then have ts: "ts = [TFail]" using tk c by (simp add: Let_def)
        show ?thesis
          by (subst match_loop.simps, cases s) (simp_all add: Let_def c ts rangematch_bracket BNull)
      next
        case BSlash
        then obtain us where us: "tokens flags q = Some us" "ts = TLit (CHR ''['') # us" using tk c by (auto simp: Let_def)
        show ?thesis
          by (subst match_loop.simps, cases s)
            (simp_all add: Let_def c us(2) rangematch_bracket BSlash ih [OF order_refl us])
      next
        case (BRest rs w)
        then obtain us where us: "tokens flags w = Some us" "ts = TSet (negated q) rs # us" using tk c by (auto simp: Let_def)
        show ?thesis
          by (subst match_loop.simps, cases s)
            (simp_all add: Let_def c us(2) rangematch_bracket BRest ih [OF bracket_of_shorter [OF BRest] us])
      qed
    next
      case esc
      then obtain x w us where q: "q = x # w" and us: "tokens flags w = Some us" "ts = TLit (foldcase x flags) # us"
        using tk by (auto simp: Let_def split: list.splits)
      have le: "length w \<le> length q" using q by simp
      show ?thesis
        by (subst match_loop.simps, cases s) (simp_all add: Let_def esc q us(2) ih [OF le us])
    next
      case lit
      then obtain us where us: "tokens flags q = Some us" "ts = TLit (foldcase c flags) # us" using tk by (auto simp: Let_def)
      show ?thesis
        using lit by (subst match_loop.simps, cases s) (auto simp: Let_def us(2) ih [OF order_refl us])
    qed
    then show ?thesis unfolding Cons .
  qed
qed

text \<open>A pattern that ends in a backslash makes the code read behind the end of a string it has used up.\<close>

lemma fnmatch_trailing_backslash:
  "\<not> FNM_NOESCAPE flags \<Longrightarrow> fnmatch (Some [CHR ''a'', CHR 0x5C]) (Some ''a'') flags = None"
  by (simp add: fnmatch_def fnmatchx_def match_loop.simps [of _ _ "_ # _"] foldcase_def)

section \<open>Properties\<close>

text \<open>
  C16. Without \<open>FNM_PERIOD\<close> and \<open>FNM_LEADING_DIR\<close>, \<open>fnmatch\<close> returns 0 exactly when the tokens of the pattern
  match the string, and \<open>FNM_NOMATCH\<close> otherwise, with and without case folding, escapes and \<open>FNM_PATHNAME\<close>;
  it stays inside both strings and within its recursion limit for up to 63 stars.
\<close>

theorem fnmatch_matches_tokens:
  assumes "\<not> FNM_PERIOD flags" "\<not> FNM_LEADING_DIR flags" "tokens flags p = Some ts" "stars ts \<le> 63"
  shows "fnmatch (Some p) (Some s) flags = Some (if matches flags ts s then 0 else FNM_NOMATCH)"
  using match_loop_tokens [OF assms] by (simp add: fnmatch_def fnmatchx_def)

definition example_flags :: fnm_flags where
  "example_flags = \<lparr>FNM_NOESCAPE = False, FNM_PATHNAME = False, FNM_PERIOD = False, FNM_CASEFOLD = True,
     FNM_LEADING_DIR = False\<rparr>"

theorem fnmatch_matches_tokens_witness:
  "fnmatch (Some ''0x*.bin'') (Some ''0xA.BIN'') example_flags = Some 0"
proof -
  let ?ts = "[TLit (CHR ''0''), TLit (CHR ''x''), TStar, TLit (CHR ''.''), TLit (CHR ''b''), TLit (CHR ''i''), TLit (CHR ''n'')]"
  have f: "\<not> FNM_PERIOD example_flags" "\<not> FNM_LEADING_DIR example_flags" by (simp_all add: example_flags_def)
  have t: "tokens example_flags ''0x*.bin'' = Some ?ts" by code_simp
  have m: "matches example_flags ?ts ''0xA.BIN''" by code_simp
  have "stars ?ts \<le> 63" by (simp add: stars_def)
  from fnmatch_matches_tokens [OF f t this, of "''0xA.BIN''"] m show ?thesis by simp
qed

end
