(* ===== verification/Itoa.thy ===== *)
theory Itoa
  imports Prelude
begin

text \<open>
  The number printing of \<open>lib/libitoa.c\<close>. A buffer is the list of the characters stored so far; the result is the
  string in front of the NUL. None is the overflow of \<open>abs\<close>.
\<close>

section \<open>Definitions\<close>

abbreviation (input) INT_MIN :: int where "INT_MIN \<equiv> - 2147483648"
abbreviation (input) INT_MAX :: int where "INT_MAX \<equiv> 2147483647"

definition digits :: string where "digits = ''0123456789abcdefghijklmnopqrstuvwxyz''"

text \<open>The loop that stores the digits, the lowest one first; the base is at least 2.\<close>

function digit_loop :: "nat \<Rightarrow> nat \<Rightarrow> string \<Rightarrow> string" where
  "digit_loop base intval buf =
     (let digit = intval mod base; intval' = intval div base; buf = buf @ [digits ! digit]
      in if intval' > 0 \<and> 2 \<le> base then digit_loop base intval' buf else buf)"
  by pat_completeness auto

termination
  by (relation "measure (\<lambda>(base, intval, buf). intval)")
    (auto simp: div_greater_zero_iff intro!: div_less_dividend)

text \<open>The loop that reverses the string in place.\<close>

function swap_loop :: "nat \<Rightarrow> nat \<Rightarrow> string \<Rightarrow> string" where
  "swap_loop pos len str =
     (if pos < len div 2 then
        let swap = str ! (len - pos - 1); str = str[len - pos - 1 := str ! pos]; str = str[pos := swap]
        in swap_loop (pos + 1) len str
      else str)"
  by pat_completeness auto

termination
  by (relation "measure (\<lambda>(pos, len, str). len - pos)") auto

definition itoa :: "int \<Rightarrow> int \<Rightarrow> string option" where
  "itoa val base =
     (if val = INT_MIN then None
      else if 2 \<le> base \<and> base \<le> 36 then
        let buf = digit_loop (nat base) (nat \<bar>val\<bar>) [];
            buf = (if val < 0 then buf @ ''-'' else buf)
        in Some (swap_loop 0 (length buf) buf)
      else Some [])"

text \<open>The reference: the number a string of digits stands for, with an optional sign.\<close>

fun digit_value :: "char \<Rightarrow> nat" where
  "digit_value c = length (takeWhile (\<lambda>d. d \<noteq> c) digits)"

definition digits_value :: "nat \<Rightarrow> string \<Rightarrow> nat" where
  "digits_value base s = foldl (\<lambda>n c. n * base + digit_value c) 0 s"

definition int_value :: "nat \<Rightarrow> string \<Rightarrow> int" where
  "int_value base s =
     (case s of CHR ''-'' # t \<Rightarrow> - int (digits_value base t) | _ \<Rightarrow> int (digits_value base s))"

section \<open>Lemmas\<close>

declare digit_loop.simps [simp del] swap_loop.simps [simp del]

lemma swap_loop_nth:
  assumes "length str = len"
  shows "length (swap_loop pos len str) = len \<and>
    (\<forall>i<len. swap_loop pos len str ! i = (if pos \<le> i \<and> i < len - pos then str ! (len - 1 - i) else str ! i))"
  using assms
proof (induction pos len str rule: swap_loop.induct)
  case (1 pos len str)
  show ?case
  proof (cases "pos < len div 2")
    case True
    let ?s = "str[len - pos - 1 := str ! pos, pos := str ! (len - pos - 1)]"
    have eq: "swap_loop pos len str = swap_loop (pos + 1) len ?s"
      using True by (subst swap_loop.simps) (simp add: Let_def)
    have IH: "length (swap_loop (pos + 1) len ?s) = len"
      "i < len \<Longrightarrow> swap_loop (pos + 1) len ?s ! i =
        (if pos + 1 \<le> i \<and> i < len - (pos + 1) then ?s ! (len - 1 - i) else ?s ! i)" for i
      using "1.IH" [OF True refl refl refl] "1.prems" by (simp_all add: Let_def)
    have "swap_loop pos len str ! i = (if pos \<le> i \<and> i < len - pos then str ! (len - 1 - i) else str ! i)"
      if "i < len" for i
    proof -
      have p: "pos < len" "len - pos - 1 < len" "pos \<noteq> len - pos - 1" using True by linarith+
      consider "i < pos" | "i = pos" | "pos < i" "i < len - pos - 1" | "i = len - pos - 1" | "len - pos - 1 < i"
        by linarith
      then show ?thesis unfolding eq IH(2) [OF that]
        using that p True "1.prems" by cases (auto simp: nth_list_update)
    qed
    then show ?thesis using IH(1) eq by simp
  next
    case False
    then have "len - 1 - i = i" if "pos \<le> i" "i < len - pos" for i using that by linarith
    then show ?thesis using False "1.prems" by (subst (1 2) swap_loop.simps) simp
  qed
qed

lemma swap_loop_rev: "swap_loop 0 (length s) s = rev s"
  using swap_loop_nth [OF refl, of 0 s] by (intro nth_equalityI) (auto simp: rev_nth)

lemma digit_facts:
  assumes "d < 36"
  shows "digit_value (digits ! d) = d" "digits ! d \<noteq> CHR ''-''" "digits ! d = CHR ''0'' \<longleftrightarrow> d = 0"
proof -
  have "list_all (\<lambda>d. digit_value (digits ! d) = d \<and> digits ! d \<noteq> CHR ''-'' \<and>
      (digits ! d = CHR ''0'' \<longleftrightarrow> d = 0)) [0..<36]" by code_simp
  then show "digit_value (digits ! d) = d" "digits ! d \<noteq> CHR ''-''" "digits ! d = CHR ''0'' \<longleftrightarrow> d = 0"
    using assms by (simp_all add: list_all_iff)
qed

lemma digits_value_snoc: "digits_value base (s @ [c]) = digits_value base s * base + digit_value c"
  by (simp add: digits_value_def)

lemma digit_loop_value:
  assumes "2 \<le> base" "base \<le> 36"
  shows "\<exists>ds. digit_loop base n buf = buf @ ds \<and> ds \<noteq> [] \<and> digits_value base (rev ds) = n \<and>
    CHR ''-'' \<notin> set ds \<and> (0 < n \<longrightarrow> last ds \<noteq> CHR ''0'') \<and> (\<forall>k. n < base ^ Suc k \<longrightarrow> length ds \<le> Suc k)"
proof (induction n arbitrary: buf rule: less_induct)
  case (less n)
  let ?c = "digits ! (n mod base)"
  have d: "n mod base < 36" using assms mod_less_divisor [of base n] by linarith
  note c = digit_facts [OF d]
  have n: "n = n div base * base + n mod base" by simp
  show ?case
  proof (cases "n div base = 0")
    case True
    then have "digit_loop base n buf = buf @ [?c]" by (subst digit_loop.simps) (simp add: Let_def)
    moreover have "n mod base = n" using n True by simp
    ultimately show ?thesis using c by (intro exI [of _ "[?c]"]) (auto simp: digits_value_def simp del: digit_value.simps)
  next
    case False
    then have "n div base < n" using assms(1) by (intro div_less_dividend) (auto intro: Nat.gr0I)
    from less.IH [OF this, of "buf @ [?c]"] obtain ds where
      ds: "digit_loop base (n div base) (buf @ [?c]) = (buf @ [?c]) @ ds" "ds \<noteq> []"
        "digits_value base (rev ds) = n div base" "CHR ''-'' \<notin> set ds"
        "0 < n div base \<longrightarrow> last ds \<noteq> CHR ''0''" "\<forall>k. n div base < base ^ Suc k \<longrightarrow> length ds \<le> Suc k" by (elim exE conjE) (rule that)
    have "digit_loop base n buf = buf @ (?c # ds)"
      using False assms(1) ds(1) by (subst digit_loop.simps) (simp add: Let_def)
    moreover have "digits_value base (rev (?c # ds)) = n"
      using ds(3) c(1) n by (simp add: digits_value_snoc del: digit_value.simps)
    moreover have "length (?c # ds) \<le> Suc k" if "n < base ^ Suc k" for k
    proof (cases k)
      case 0
      then show ?thesis using that False by simp
    next
      case (Suc j)
      have "n div base < base ^ Suc j" using that Suc by (intro less_mult_imp_div_less) (simp add: mult.commute)
      then show ?thesis using ds(6) Suc by simp
    qed
    ultimately show ?thesis using ds(2,4,5) False c(2) by (intro exI [of _ "?c # ds"]) auto
  qed
qed

section \<open>Properties\<close>



end
