(* ===== verification/Ptfs.thy ===== *)
theory Ptfs
  imports Blkdev Bitops
begin

text \<open>
  The partition file system of \<open>dev/ptfs.c\<close> in its default configuration: 4096 bytes in blocks of 1024, the first
  of which holds the index of four files with up to four blocks each. Data is written through the block cache and
  read directly from the disk. Sizes and offsets are 32-bit values. A file handle refers to its entry of the index.
  None is a failed assertion, an access outside an array, or a loop that does not end. The mutex is free when it is
  taken; whether memory is available is a parameter.
\<close>

section \<open>Definitions\<close>

abbreviation (input) CONFIG_PTFS_BLKSIZE :: nat where "CONFIG_PTFS_BLKSIZE \<equiv> 1024"
abbreviation (input) CONFIG_PTFS_MAXFILES :: nat where "CONFIG_PTFS_MAXFILES \<equiv> 4"
abbreviation (input) PTFS_MAX_INODES :: nat where "PTFS_MAX_INODES \<equiv> 4"
abbreviation (input) PTFS_INODE_MIN :: nat where "PTFS_INODE_MIN \<equiv> 1"
abbreviation (input) PTFS_SYNC_PERIOD :: nat where "PTFS_SYNC_PERIOD \<equiv> 3000"
abbreviation (input) MESSAGE_MAGIC :: nat where "MESSAGE_MAGIC \<equiv> 0x53465450"
abbreviation (input) PFLILE_O_FLAGS :: nat where "PFLILE_O_FLAGS \<equiv> 0x10000"
abbreviation (input) VFS_O_RDONLY :: nat where "VFS_O_RDONLY \<equiv> 0"
abbreviation (input) VFS_O_WRONLY :: nat where "VFS_O_WRONLY \<equiv> 1"
abbreviation (input) VFS_O_MASK :: nat where "VFS_O_MASK \<equiv> 3"
abbreviation (input) VFS_O_CREAT :: nat where "VFS_O_CREAT \<equiv> 0x200"

text \<open>\<open>mname\<close> has all 32 bytes of the array; \<open>mpad\<close> is the padding byte behind \<open>i_meta\<close>.\<close>

record file_metadata =
  mname :: "u8 list"
  msize :: nat
  mtime :: nat
  i_frag :: "nat list"
  i_count :: nat
  i_meta :: nat
  mpad :: nat
  chksum :: nat
  permision :: nat

record ptfs_inode =
  imagic :: nat
  hcrc :: nat
  nfiles :: nat
  i_bitmap :: "u32 list"
  f_bitmap :: "u32 list"
  meta :: "file_metadata list"

text \<open>\<open>ptimer\<close>: the period the timer is armed with.\<close>

record ptfs_context =
  inode :: ptfs_inode
  ptimer :: "nat option"
  coffset :: nat
  cdirty :: bool

record ptfs_file =
  pmeta :: nat
  rawofs :: nat
  oflags :: nat
  written :: bool

definition do_dirty :: "bool \<Rightarrow> ptfs_context \<Rightarrow> ptfs_context" where
  "do_dirty force ctx = (if force then ctx\<lparr>ptimer := Some PTFS_SYNC_PERIOD\<rparr> else ctx)"

text \<open>The start of a block and its end.\<close>

definition idx_to_offset :: "ptfs_context \<Rightarrow> nat \<Rightarrow> nat \<times> nat" where
  "idx_to_offset ctx idx =
     (let start = w32 (coffset ctx + w32 (idx * CONFIG_PTFS_BLKSIZE)) in (start, w32 (start + CONFIG_PTFS_BLKSIZE)))"

definition extofs_to_inofs :: "ptfs_context \<Rightarrow> ptfs_file \<Rightarrow> nat \<Rightarrow> (nat \<times> nat) option" where
  "extofs_to_inofs ctx filp offset =
     (let idx = offset div CONFIG_PTFS_BLKSIZE mod 256; ofs = offset mod CONFIG_PTFS_BLKSIZE;
          m = meta (inode ctx) ! pmeta filp
      in if idx \<ge> PTFS_MAX_INODES then None
         else let (start, en) = idx_to_offset ctx (w32 (i_frag m ! idx + 4294967295)) in Some (w32 (start + ofs), en))"

fun bitmap_loop :: "u32 list \<Rightarrow> int \<Rightarrow> int \<times> u32 list" where
  "bitmap_loop [] index = (0, [])"
| "bitmap_loop (w # ws) index =
     (if w \<noteq> 0xFFFFFFFF then
        let ofs = ffsl (NOT w) - 1
        in (index + ofs + 1, (w OR push_bit (nat ofs) 1) # ws)
      else let (r, ws') = bitmap_loop ws (index + 32) in (r, w # ws'))"

definition bitmap_allocate :: "u32 list \<Rightarrow> int \<times> u32 list" where
  "bitmap_allocate bitmap = bitmap_loop bitmap 0"

definition bitmap_free :: "u32 list \<Rightarrow> int \<Rightarrow> u32 list option" where
  "bitmap_free bitmap idx =
     (if \<not> idx > 0 \<or> \<not> idx \<le> int (32 * length bitmap) then None
      else let i = nat (idx - 1)
           in Some (bitmap[i div 32 := bitmap ! (i div 32) AND NOT (push_bit (i mod 32) 1)]))"

definition inode_allocate :: "ptfs_inode \<Rightarrow> int \<times> ptfs_inode" where
  "inode_allocate n = (let (r, b) = bitmap_allocate (i_bitmap n) in (r, n\<lparr>i_bitmap := b\<rparr>))"

definition inode_free :: "int \<Rightarrow> ptfs_inode \<Rightarrow> ptfs_inode option" where
  "inode_free idx n = map_option (\<lambda>b. n\<lparr>i_bitmap := b\<rparr>) (bitmap_free (i_bitmap n) idx)"

definition fnode_allocate :: "ptfs_inode \<Rightarrow> int \<times> ptfs_inode" where
  "fnode_allocate n = (let (r, b) = bitmap_allocate (f_bitmap n) in (r, n\<lparr>f_bitmap := b\<rparr>))"

definition fnode_free :: "int \<Rightarrow> ptfs_inode \<Rightarrow> ptfs_inode option" where
  "fnode_free idx n = map_option (\<lambda>b. n\<lparr>f_bitmap := b\<rparr>) (bitmap_free (f_bitmap n) idx)"

definition zero_meta :: file_metadata where
  "zero_meta = \<lparr>mname = replicate 32 0, msize = 0, mtime = 0, i_frag = replicate PTFS_MAX_INODES 0, i_count = 0,
     i_meta = 0, mpad = 0, chksum = 0, permision = 0\<rparr>"

fun clear_loop :: "nat list \<Rightarrow> ptfs_inode \<Rightarrow> ptfs_inode option" where
  "clear_loop [] n = Some n"
| "clear_loop (x # xs) n = Option.bind (inode_free (int x) n) (clear_loop xs)"

definition file_metadata_clear_locked :: "nat \<Rightarrow> ptfs_context \<Rightarrow> ptfs_context option" where
  "file_metadata_clear_locked k ctx =
     (let m = meta (inode ctx) ! k
      in if i_count m > length (i_frag m) then None
         else Option.bind (clear_loop (take (i_count m) (i_frag m)) (inode ctx)) (\<lambda>n.
           Option.bind (fnode_free (int (i_meta m)) n) (\<lambda>n.
             Some (ctx\<lparr>inode := n\<lparr>meta := (meta n)[k := zero_meta]\<rparr>, cdirty := True\<rparr>))))"

text \<open>Names are compared up to their NUL.\<close>

definition cname :: "file_metadata \<Rightarrow> string" where
  "cname m = map (\<lambda>b. char_of (unat b)) (takeWhile (\<lambda>b. b \<noteq> 0) (mname m))"

definition file_search :: "ptfs_inode \<Rightarrow> string \<Rightarrow> nat option" where
  "file_search n name = find (\<lambda>i. cname (meta n ! i) \<noteq> [] \<and> cname (meta n ! i) = name) [0..<length (meta n)]"

definition curr_avaliable_space ::
  "ptfs_context \<Rightarrow> ptfs_file \<Rightarrow> nat \<Rightarrow> (int \<times> nat \<times> nat \<times> ptfs_context) option" where
  "curr_avaliable_space ctx filp offset =
     (let k = pmeta filp; m = meta (inode ctx) ! k; idx = offset div CONFIG_PTFS_BLKSIZE mod 65536
      in if idx + 1 > i_count m then
           let (newidx, n) = inode_allocate (inode ctx)
           in if newidx mod 65536 = 0 then Some (- ENODATA, 0, 0, ctx\<lparr>inode := n\<rparr>)
              else if \<not> i_count m < PTFS_MAX_INODES then None
              else
                let m = m\<lparr>i_frag := (i_frag m)[i_count m := nat (newidx mod 65536)], i_count := i_count m + 1\<rparr>;
                    ctx = ctx\<lparr>inode := n\<lparr>meta := (meta n)[k := m]\<rparr>\<rparr>
                in map_option (\<lambda>(start, en). (0, start, en, ctx)) (extofs_to_inofs ctx filp offset)
         else map_option (\<lambda>(start, en). (0, start, en, ctx)) (extofs_to_inofs ctx filp offset))"

text \<open>\<open>mem\<close>: whether the handle can be allocated. The handle is None where the code returns NULL.\<close>

definition ptfile_ll_open ::
  "bool \<Rightarrow> string \<Rightarrow> nat \<Rightarrow> ptfs_context \<Rightarrow> (ptfs_file option \<times> int \<times> ptfs_context) option" where
  "ptfile_ll_open mem name mode ctx =
     (let opened = (\<lambda>k. \<lparr>pmeta = k, rawofs = 0, oflags = (mode AND VFS_O_MASK) OR PFLILE_O_FLAGS, written = False\<rparr>)
      in if \<not> mem then Some (None, - ENOMEM, ctx)
         else case file_search (inode ctx) name of
           Some k \<Rightarrow> Some (Some (opened k), 0, ctx)
         | None \<Rightarrow>
             if mode AND VFS_O_CREAT = 0 then Some (None, - ENOENT, ctx)
             else
               let (fidx, n) = fnode_allocate (inode ctx)
               in if fidx = 0 then Some (None, - EBUSY, ctx\<lparr>inode := n\<rparr>)
                  else if fidx > int CONFIG_PTFS_MAXFILES then
                    map_option (\<lambda>n. (None, - ENFILE, ctx\<lparr>inode := n\<rparr>)) (fnode_free fidx n)
                  else
                    let k = nat (fidx - 1); bs = map of_char (take 31 name);
                        m = zero_meta\<lparr>i_meta := nat fidx, mname := bs @ replicate (32 - length bs) 0\<rparr>
                    in Some (Some (opened k), 0, ctx\<lparr>inode := n\<lparr>meta := (meta n)[k := m]\<rparr>\<rparr>))"

text \<open>The read loop gives the return value on an error of the disk, the bytes read, and the offset.\<close>

partial_function (option) pt_read_loop ::
  "'d disk_device \<Rightarrow> ptfs_context \<Rightarrow> ptfs_file \<Rightarrow> 'd \<Rightarrow> nat \<Rightarrow> nat \<Rightarrow> nat \<Rightarrow> nat \<Rightarrow> u8 list \<Rightarrow>
   (int option \<times> u8 list \<times> nat) option" where
  "pt_read_loop dd ctx filp d sz start en offset buf =
     (if sz = 0 then Some (None, buf, offset)
      else
        let bytes = min (w32 (en + 4294967296 - start)) sz
        in if bytes > 0 then
             let (ret, bs) = disk_device_read dd bytes start d
             in if ret < 0 then Some (Some ret, buf, offset)
                else pt_read_loop dd ctx filp d (sz - bytes) (w32 (start + bytes)) en (w32 (offset + bytes)) (buf @ bs)
           else
             Option.bind (extofs_to_inofs ctx filp offset) (\<lambda>(start, en).
               pt_read_loop dd ctx filp d sz start en offset buf))"

definition ptfile_ll_read ::
  "'d disk_device \<Rightarrow> nat \<Rightarrow> ptfs_file \<Rightarrow> ptfs_context \<Rightarrow> 'd \<Rightarrow> (int \<times> u8 list \<times> ptfs_file) option" where
  "ptfile_ll_read dd sz filp ctx d =
     (if oflags filp AND VFS_O_MASK = VFS_O_WRONLY then Some (- EACCES, [], filp)
      else
        let offset = rawofs filp;
            osize = min sz (w32 (msize (meta (inode ctx) ! pmeta filp) + 4294967296 - offset))
        in Option.bind (extofs_to_inofs ctx filp offset) (\<lambda>(start, en).
          Option.bind (pt_read_loop dd ctx filp d osize start en offset []) (\<lambda>(err, buf, offset).
            case err of
              Some ret \<Rightarrow> Some (ret, buf, filp)
            | None \<Rightarrow> Some (int osize, buf, filp\<lparr>rawofs := offset\<rparr>))))"

text \<open>
  The write loop gives the return value on an error, the offset, the context and the store. Where it fails the code
  clears the entry of the file.
\<close>

partial_function (option) pt_write_loop ::
  "'d disk_device \<Rightarrow> ptfs_file \<Rightarrow> u8 list \<Rightarrow> nat \<Rightarrow> nat \<Rightarrow> nat \<Rightarrow> ptfs_context \<Rightarrow> block_device \<times> 'd \<Rightarrow>
   (int option \<times> nat \<times> ptfs_context \<times> block_device \<times> 'd) option" where
  "pt_write_loop dd filp buf start en offset ctx s =
     (if buf = [] then Some (None, offset, ctx, s)
      else
        let bytes = min (w32 (en + 4294967296 - start)) (length buf)
        in if bytes > 0 then
             Option.bind (simple_blkdev_write dd (take bytes buf) start s) (\<lambda>(ret, s).
               if ret < 0 then
                 Option.bind (file_metadata_clear_locked (pmeta filp) ctx) (\<lambda>ctx. Some (Some ret, offset, ctx, s))
               else pt_write_loop dd filp (drop bytes buf) (w32 (start + bytes)) en (w32 (offset + bytes)) ctx s)
           else
             Option.bind (curr_avaliable_space ctx filp offset) (\<lambda>(ret, start, en, ctx).
               if ret < 0 then
                 Option.bind (file_metadata_clear_locked (pmeta filp) ctx) (\<lambda>ctx. Some (Some ret, offset, ctx, s))
               else pt_write_loop dd filp buf start en offset ctx s))"

definition ptfile_ll_write ::
  "'d disk_device \<Rightarrow> u8 list \<Rightarrow> ptfs_file \<Rightarrow> ptfs_context \<Rightarrow> block_device \<times> 'd \<Rightarrow>
   (int \<times> ptfs_file \<times> ptfs_context \<times> block_device \<times> 'd) option" where
  "ptfile_ll_write dd buf filp ctx s =
     (if oflags filp AND VFS_O_MASK = VFS_O_RDONLY then Some (- EACCES, filp, ctx, s)
      else
        Option.bind (curr_avaliable_space ctx filp (rawofs filp)) (\<lambda>(ret, start, en, ctx).
          if ret < 0 then Some (ret, filp, ctx, s)
          else
            Option.bind (pt_write_loop dd filp buf start en (rawofs filp) ctx s) (\<lambda>(err, offset, ctx, s).
              case err of
                Some ret \<Rightarrow> Some (ret, filp\<lparr>rawofs := 0\<rparr>, ctx, s)
              | None \<Rightarrow>
                  let n = inode ctx; k = pmeta filp
                  in Some (int (length buf), filp\<lparr>rawofs := offset, written := True\<rparr>,
                       ctx\<lparr>inode := n\<lparr>meta := (meta n)[k := (meta n ! k)\<lparr>msize := offset\<rparr>]\<rparr>, cdirty := True\<rparr>, s))))"

text \<open>The block device of the disk is the only one. The handle is freed where the result is 0.\<close>

definition ptfile_ll_close ::
  "'d disk_device \<Rightarrow> ptfs_file option \<Rightarrow> ptfs_context option \<Rightarrow> block_device \<times> 'd \<Rightarrow>
   int \<times> ptfs_context option \<times> block_device \<times> 'd" where
  "ptfile_ll_close dd filp ctx s =
     (case (ctx, filp) of
        (Some ctx, Some filp) \<Rightarrow>
          if oflags filp AND PFLILE_O_FLAGS = 0 then (- EINVAL, Some ctx, s)
          else
            (0, Some (do_dirty (cdirty ctx) ctx),
             if written filp then snd (hd (snd (simple_blkdev_sync [(dd, s)]))) else s)
      | _ \<Rightarrow> (- EINVAL, ctx, s))"

datatype whence = VFS_SEEK_SET | VFS_SEEK_CUR | VFS_SEEK_END

definition ptfile_ll_seek :: "ptfs_context \<Rightarrow> int \<Rightarrow> whence \<Rightarrow> ptfs_file \<Rightarrow> int \<times> ptfs_file" where
  "ptfile_ll_seek ctx offset whence filp =
     (let sz = msize (meta (inode ctx) ! pmeta filp); u = (\<lambda>x. nat (x mod 4294967296));
          signed = (if sz < 2147483648 then int sz else int sz - 4294967296)
      in case whence of
           VFS_SEEK_SET \<Rightarrow> if offset > signed then (- EINVAL, filp) else (0, filp\<lparr>rawofs := u offset\<rparr>)
         | VFS_SEEK_CUR \<Rightarrow>
             if u (int (rawofs filp) + offset) > sz then (- EINVAL, filp)
             else (0, filp\<lparr>rawofs := u (int (rawofs filp) + offset)\<rparr>)
         | VFS_SEEK_END \<Rightarrow> if offset > 0 then (- EINVAL, filp) else (0, filp\<lparr>rawofs := sz\<rparr>))"

definition ptfile_ll_unlink :: "string option \<Rightarrow> ptfs_context option \<Rightarrow> (int \<times> ptfs_context option) option" where
  "ptfile_ll_unlink name ctx =
     (case (ctx, name) of
        (Some ctx, Some name) \<Rightarrow>
          (case file_search (inode ctx) name of
             Some k \<Rightarrow>
               map_option (\<lambda>ctx. (0, Some (do_dirty (cdirty ctx) ctx))) (file_metadata_clear_locked k ctx)
           | None \<Rightarrow> Some (- ENODATA, Some ctx))
      | _ \<Rightarrow> Some (- EINVAL, ctx))"

text \<open>The size, the number of blocks and the size of a block.\<close>

definition ptfile_ll_stat :: "string \<Rightarrow> ptfs_context \<Rightarrow> int \<times> (nat \<times> nat \<times> nat) option" where
  "ptfile_ll_stat name ctx =
     (case file_search (inode ctx) name of
        Some k \<Rightarrow>
          let m = meta (inode ctx) ! k in (0, Some (msize m, i_count m, CONFIG_PTFS_BLKSIZE))
      | None \<Rightarrow> (- ENOENT, None))"

text \<open>The name at the position or behind it, and the position behind that name; the position is not negative.\<close>

definition ptfile_get_fname :: "nat \<Rightarrow> ptfs_context \<Rightarrow> (string \<times> nat) option" where
  "ptfile_get_fname idx ctx =
     (case find (\<lambda>i. cname (meta (inode ctx) ! i) \<noteq> []) [idx..<length (meta (inode ctx))] of
        Some i \<Rightarrow> Some (cname (meta (inode ctx) ! i), i + 1)
      | None \<Rightarrow> None)"

text \<open>The index as it is in memory: 16 bytes, and 56 for every file.\<close>

definition meta_bytes :: "file_metadata \<Rightarrow> u8 list" where
  "meta_bytes m = mname m @ pack [4, 4, 2, 2, 2, 2, 2, 1, 1, 2, 2]
     ([msize m, mtime m] @ i_frag m @ [i_count m, i_meta m, mpad m, chksum m, permision m])"

definition meta_of_bytes :: "u8 list \<Rightarrow> file_metadata" where
  "meta_of_bytes bs =
     (let xs = unpack [4, 4, 2, 2, 2, 2, 2, 1, 1, 2, 2] (drop 32 bs)
      in \<lparr>mname = take 32 bs, msize = xs ! 0, mtime = xs ! 1, i_frag = [xs ! 2, xs ! 3, xs ! 4, xs ! 5],
         i_count = xs ! 6, i_meta = xs ! 7, mpad = xs ! 8, chksum = xs ! 9, permision = xs ! 10\<rparr>)"

definition inode_bytes :: "ptfs_inode \<Rightarrow> u8 list" where
  "inode_bytes n =
     pack [4, 2, 2, 4, 4] [imagic n, hcrc n, nfiles n, unat (i_bitmap n ! 0), unat (f_bitmap n ! 0)] @
     concat (map meta_bytes (meta n))"

definition inode_of_bytes :: "u8 list \<Rightarrow> ptfs_inode" where
  "inode_of_bytes bs =
     (let xs = unpack [4, 2, 2, 4, 4] bs
      in \<lparr>imagic = xs ! 0, hcrc = xs ! 1, nfiles = xs ! 2, i_bitmap = [of_nat (xs ! 3)], f_bitmap = [of_nat (xs ! 4)],
         meta = map (\<lambda>i. meta_of_bytes (drop (16 + 56 * i) bs)) [0, 1, 2, 3]\<rparr>)"

definition ptfile_sync_check ::
  "'d disk_device \<Rightarrow> ptfs_context \<Rightarrow> block_device \<times> 'd \<Rightarrow> (ptfs_context \<times> block_device \<times> 'd) option" where
  "ptfile_sync_check dd ctx s =
     (if cdirty ctx then
        map_option (\<lambda>(ret, s). (ctx\<lparr>cdirty := False\<rparr>, s))
          (simple_blkdev_write dd (inode_bytes (inode ctx)) (coffset ctx) s)
      else Some (ctx, s))"

definition ptfile_ll_reset :: "ptfs_context \<Rightarrow> ptfs_context" where
  "ptfile_ll_reset ctx =
     (let n = \<lparr>imagic = MESSAGE_MAGIC, hcrc = 0, nfiles = 0,
            i_bitmap = fold (\<lambda>i b. b[i div 32 := b ! (i div 32) OR push_bit (i mod 32) 1]) [0..<PTFS_INODE_MIN] [0],
            f_bitmap = [0], meta = replicate CONFIG_PTFS_MAXFILES zero_meta\<rparr>
      in do_dirty True (ctx\<lparr>inode := n, cdirty := True\<rparr>))"

definition shutdown_listen ::
  "'d disk_device \<Rightarrow> ptfs_context \<Rightarrow> block_device \<times> 'd \<Rightarrow> (int \<times> ptfs_context \<times> block_device \<times> 'd) option" where
  "shutdown_listen dd ctx s = map_option (\<lambda>(ctx, s). (0, ctx, s)) (ptfile_sync_check dd ctx s)"

text \<open>
  \<open>opened\<close> is the result of \<open>disk_device_open\<close> and \<open>addr\<close> the address of the disk; creating the timer succeeds (the
  code asserts it). The Boolean is whether the observer has been added.
\<close>

definition ptfile_ll_init ::
  "int \<Rightarrow> nat \<Rightarrow> 'd disk_device \<Rightarrow> bool \<Rightarrow> nat \<Rightarrow> ptfs_context option \<Rightarrow> block_device \<times> 'd \<Rightarrow>
   (int \<times> bool \<times> ptfs_context option \<times> block_device \<times> 'd) option" where
  "ptfile_ll_init opened addr dd name start ctx s =
     (case ctx of
        None \<Rightarrow> Some (- EINVAL, False, None, s)
      | Some ctx \<Rightarrow>
          if \<not> name then Some (- EINVAL, False, Some ctx, s)
          else if opened \<noteq> 0 then Some (opened, False, Some ctx, s)
          else
            let ctx = ctx\<lparr>coffset := (if start = 4294967295 then addr else start)\<rparr>
            in Option.bind (simple_blkdev_read dd 240 (coffset ctx) s) (\<lambda>(err, bs, s).
              if err < 0 then Some (err, False, Some ctx, s)
              else
                let ctx = ctx\<lparr>inode := inode_of_bytes bs\<rparr>
                in Some (0, True, Some (if imagic (inode ctx) \<noteq> MESSAGE_MAGIC then ptfile_ll_reset ctx else ctx), s)))"

section \<open>Lemmas\<close>

text \<open>
  The invariant of an index: the blocks of the files are set in the bitmap, none of them is the block of the index,
  and no block belongs to two places; the entry of a file with a name is set in its bitmap.
\<close>

abbreviation cnt :: "ptfs_inode \<Rightarrow> nat \<Rightarrow> nat" where "cnt n k \<equiv> i_count (meta n ! k)"
abbreviation frag :: "ptfs_inode \<Rightarrow> nat \<Rightarrow> nat \<Rightarrow> nat" where "frag n k j \<equiv> i_frag (meta n ! k) ! j"

definition meta_ok :: "file_metadata \<Rightarrow> bool" where
  "meta_ok m \<longleftrightarrow> length (mname m) = 32 \<and> length (i_frag m) = 4 \<and> i_count m \<le> 4 \<and> msize m \<le> 1024 * i_count m"

definition ptfs_ok :: "ptfs_inode \<Rightarrow> bool" where
  "ptfs_ok n \<longleftrightarrow> length (i_bitmap n) = 1 \<and> length (f_bitmap n) = 1 \<and> length (meta n) = 4 \<and> bit (i_bitmap n ! 0) 0 \<and>
     (\<forall>k<4. meta_ok (meta n ! k)) \<and>
     (\<forall>k<4. \<forall>j<cnt n k. 2 \<le> frag n k j \<and> frag n k j \<le> 32 \<and> bit (i_bitmap n ! 0) (frag n k j - 1)) \<and>
     (\<forall>k<4. \<forall>j<cnt n k. \<forall>k'<4. \<forall>j'<cnt n k'. frag n k j = frag n k' j' \<longrightarrow> k = k' \<and> j = j') \<and>
     (\<forall>k<4. cname (meta n ! k) \<noteq> [] \<longrightarrow> i_meta (meta n ! k) = k + 1 \<and> bit (f_bitmap n ! 0) k)"

text \<open>The address of a byte of a file, and the bytes of a file in the storage \<open>v\<close>.\<close>

definition file_addr :: "ptfs_context \<Rightarrow> nat \<Rightarrow> nat \<Rightarrow> nat" where
  "file_addr ctx k p = coffset ctx + (frag (inode ctx) k (p div 1024) - 1) * 1024 + p mod 1024"

definition file_bytes :: "ptfs_context \<Rightarrow> mem \<Rightarrow> nat \<Rightarrow> u8 list" where
  "file_bytes ctx v k = map (\<lambda>p. v (file_addr ctx k p)) [0..<msize (meta (inode ctx) ! k)]"

lemma ptfs_okD:
  assumes "ptfs_ok n" "k < 4"
  shows "length (mname (meta n ! k)) = 32" "length (i_frag (meta n ! k)) = 4" "cnt n k \<le> 4"
    "msize (meta n ! k) \<le> 1024 * cnt n k"
    "j < cnt n k \<Longrightarrow> 2 \<le> frag n k j" "j < cnt n k \<Longrightarrow> frag n k j \<le> 32"
    "j < cnt n k \<Longrightarrow> bit (i_bitmap n ! 0) (frag n k j - 1)"
    "j < cnt n k \<Longrightarrow> k' < 4 \<Longrightarrow> j' < cnt n k' \<Longrightarrow> frag n k j = frag n k' j' \<Longrightarrow> k = k' \<and> j = j'"
    "cname (meta n ! k) \<noteq> [] \<Longrightarrow> i_meta (meta n ! k) = k + 1"
    "cname (meta n ! k) \<noteq> [] \<Longrightarrow> bit (f_bitmap n ! 0) k"
  using assms unfolding ptfs_ok_def meta_ok_def by blast+

lemma ptfs_ok_lengths:
  assumes "ptfs_ok n"
  shows "length (i_bitmap n) = 1" "length (f_bitmap n) = 1" "length (meta n) = 4" "bit (i_bitmap n ! 0) 0"
  using assms unfolding ptfs_ok_def by blast+

lemma ptfs_okI:
  assumes "i_bitmap n = [w]" "length (f_bitmap n) = 1" "length (meta n) = 4" "bit w 0"
    and "\<And>k. k < 4 \<Longrightarrow> meta_ok (meta n ! k)"
    and "\<And>k j. k < 4 \<Longrightarrow> j < cnt n k \<Longrightarrow> 2 \<le> frag n k j \<and> frag n k j \<le> 32 \<and> bit w (frag n k j - 1)"
    and "\<And>k j k' j'. k < 4 \<Longrightarrow> j < cnt n k \<Longrightarrow> k' < 4 \<Longrightarrow> j' < cnt n k' \<Longrightarrow> frag n k j = frag n k' j' \<Longrightarrow>
      k = k' \<and> j = j'"
    and "\<And>k. k < 4 \<Longrightarrow> cname (meta n ! k) \<noteq> [] \<Longrightarrow> i_meta (meta n ! k) = k + 1 \<and> bit (f_bitmap n ! 0) k"
  shows "ptfs_ok n"
proof -
  have "i_bitmap n ! 0 = w" "length (i_bitmap n) = 1" using assms(1) by simp_all
  then show ?thesis unfolding ptfs_ok_def using assms(2-) by (simp only:) blast
qed

lemma not_all_ones: "w \<noteq> 0xFFFFFFFF \<Longrightarrow> NOT w \<noteq> 0" for w :: u32
proof
  assume "w \<noteq> 0xFFFFFFFF" "NOT w = 0"
  then have "w = NOT 0" by (metis bit.double_compl)
  then show False using \<open>w \<noteq> 0xFFFFFFFF\<close> by simp
qed

lemma bitmap_allocate_word:
  assumes "bitmap_allocate [w] = (r, b)"
  shows "r = 0 \<and> b = [w] \<or>
    (\<exists>i<32. \<not> bit w i \<and> r = int i + 1 \<and> (\<exists>w'. b = [w'] \<and> (\<forall>x<32. bit w' x \<longleftrightarrow> bit w x \<or> x = i)))"
proof (cases "w = 0xFFFFFFFF")
  case True
  then show ?thesis using assms by (simp add: bitmap_allocate_def)
next
  case False
  obtain i where "i < 32" "ffsl_index (NOT w) = int i" "bit (NOT w) i" "\<forall>j<i. \<not> bit (NOT w) j"
    by (rule ffsl_index_first [OF not_all_ones [OF False]])
  then have i: "ffsl (NOT w) = int i + 1" "i < 32" "bit (NOT w) i" by (simp_all add: ffsl_index_def)
  have "r = int i + 1" "b = [w OR push_bit i 1]" using assms False i(1) by (simp_all add: bitmap_allocate_def)
  moreover have "\<not> bit w i" using i(2,3) by (simp add: bit_simps)
  moreover have "\<forall>x<32. bit (w OR push_bit i 1) x \<longleftrightarrow> bit w x \<or> x = i" by (auto simp: bit_simps)
  ultimately show ?thesis using i(2) by blast
qed

lemma bitmap_free_word:
  assumes "1 \<le> x" "x \<le> 32"
  shows "\<exists>w'. bitmap_free [w] (int x) = Some [w'] \<and> (\<forall>y<32. bit w' y \<longleftrightarrow> bit w y \<and> y \<noteq> x - 1)"
proof -
  have "x - 1 < 32" "nat (int x - 1) = x - 1" using assms by auto
  then show ?thesis using assms
    by (auto simp: bitmap_free_def Let_def bit_simps)
qed

text \<open>Where the blocks are: the disk has room for all that the bitmap can name.\<close>

definition layout :: "'d disk_device \<Rightarrow> ptfs_context \<Rightarrow> bool" where
  "layout dd ctx \<longleftrightarrow> coffset ctx + 32 * 1024 \<le> dlen dd \<and> dlen dd < 2147483648"

lemma file_addr_bounds:
  assumes "ptfs_ok (inode ctx)" "layout dd ctx" "k < 4" "p div 1024 < cnt (inode ctx) k"
  shows "coffset ctx + 1024 \<le> file_addr ctx k p"
    "file_addr ctx k p - p mod 1024 + 1024 \<le> dlen dd" "p mod 1024 \<le> file_addr ctx k p"
proof -
  let ?f = "frag (inode ctx) k (p div 1024)"
  have f: "2 \<le> ?f" "?f \<le> 32" using ptfs_okD(5,6) [OF assms(1,3)] assms(4) by blast+
  have "1 * 1024 \<le> (?f - 1) * 1024" "(?f - 1) * 1024 \<le> 31 * 1024" using f by (intro mult_le_mono1; simp)+
  then show "coffset ctx + 1024 \<le> file_addr ctx k p" "file_addr ctx k p - p mod 1024 + 1024 \<le> dlen dd"
    "p mod 1024 \<le> file_addr ctx k p"
    using assms(2) unfolding file_addr_def layout_def by linarith+
qed

lemma file_addr_inj:
  assumes "ptfs_ok (inode ctx)" "k < 4" "p div 1024 < cnt (inode ctx) k" "k' < 4" "p' div 1024 < cnt (inode ctx) k'"
    and "file_addr ctx k p = file_addr ctx k' p'"
  shows "k = k' \<and> p = p'"
proof -
  let ?f = "frag (inode ctx) k (p div 1024)" and ?g = "frag (inode ctx) k' (p' div 1024)"
  have f: "2 \<le> ?f" "2 \<le> ?g" using ptfs_okD(5) [OF assms(1)] assms(2-5) by blast+
  have eq: "(?f - 1) * 1024 + p mod 1024 = (?g - 1) * 1024 + p' mod 1024"
    using assms(6) by (simp add: file_addr_def)
  then have "((?f - 1) * 1024 + p mod 1024) div 1024 = ((?g - 1) * 1024 + p' mod 1024) div 1024"
    "((?f - 1) * 1024 + p mod 1024) mod 1024 = ((?g - 1) * 1024 + p' mod 1024) mod 1024" by simp_all
  then have "?f - 1 = ?g - 1" and m: "p mod 1024 = p' mod 1024" by simp_all
  then have "?f = ?g" using f by linarith
  then have kj: "k = k' \<and> p div 1024 = p' div 1024" using ptfs_okD(8) [OF assms(1,2,3,4,5)] by blast
  then show ?thesis using m by (metis div_mod_decomp)
qed

lemma extofs_addr:
  assumes "ptfs_ok (inode ctx)" "layout dd ctx" "pmeta f < 4" "p div 1024 < cnt (inode ctx) (pmeta f)"
  shows "extofs_to_inofs ctx f p =
    Some (file_addr ctx (pmeta f) p, file_addr ctx (pmeta f) p - p mod 1024 + 1024)"
proof -
  let ?k = "pmeta f" and ?j = "p div 1024"
  let ?f = "frag (inode ctx) ?k ?j"
  have j: "?j < 4" using ptfs_okD(3) [OF assms(1,3)] assms(4) by linarith
  have f: "2 \<le> ?f" "?f \<le> 32" using ptfs_okD(5,6) [OF assms(1,3)] assms(4) by blast+
  have le: "(?f - 1) * 1024 \<le> 31 * 1024" using f by (intro mult_le_mono1) simp
  have w1: "w32 (?f + 4294967295) = ?f - 1" using f by (simp add: mod_if)
  have w2: "w32 ((?f - 1) * 1024) = (?f - 1) * 1024" using le by simp
  have c: "coffset ctx + 32 * 1024 < 2147483648" using assms(2) by (simp add: layout_def)
  have m: "p mod 1024 < 1024" by simp
  have w3: "w32 (coffset ctx + (?f - 1) * 1024) = coffset ctx + (?f - 1) * 1024"
    "w32 (coffset ctx + (?f - 1) * 1024 + 1024) = coffset ctx + (?f - 1) * 1024 + 1024"
    "w32 (coffset ctx + (?f - 1) * 1024 + p mod 1024) = coffset ctx + (?f - 1) * 1024 + p mod 1024"
    using le c m by (intro mod_less; linarith)+
  have j8: "?j mod 256 = ?j" using j by simp
  show ?thesis using j
    unfolding extofs_to_inofs_def idx_to_offset_def Let_def file_addr_def j8 w1 w2 w3 by (simp add: w3 del: One_nat_def)
qed

text \<open>
  What an allocation keeps: \<open>grown k ctx ctx'\<close> says that the files are the same but for blocks added to file \<open>k\<close>.
\<close>

definition grown :: "nat \<Rightarrow> ptfs_context \<Rightarrow> ptfs_context \<Rightarrow> bool" where
  "grown k ctx ctx' \<longleftrightarrow> coffset ctx' = coffset ctx \<and>
     (\<forall>i. i \<noteq> k \<longrightarrow> meta (inode ctx') ! i = meta (inode ctx) ! i) \<and>
     cnt (inode ctx) k \<le> cnt (inode ctx') k \<and>
     (\<forall>j<cnt (inode ctx) k. frag (inode ctx') k j = frag (inode ctx) k j) \<and>
     mname (meta (inode ctx') ! k) = mname (meta (inode ctx) ! k) \<and>
     msize (meta (inode ctx') ! k) = msize (meta (inode ctx) ! k)"

lemma grown_refl: "grown k ctx ctx"
  by (simp add: grown_def)

lemma grown_trans:
  assumes "grown k a b" "grown k b c"
  shows "grown k a c"
proof -
  have "frag (inode c) k j = frag (inode a) k j" if "j < cnt (inode a) k" for j
    using assms that unfolding grown_def by (simp add: order_less_le_trans)
  then show ?thesis using assms unfolding grown_def by simp
qed

lemma grown_addr:
  "grown k ctx ctx' \<Longrightarrow> i \<noteq> k \<or> p div 1024 < cnt (inode ctx) k \<Longrightarrow> file_addr ctx' i p = file_addr ctx i p"
  unfolding grown_def file_addr_def by (cases "i = k") simp_all

lemma grown_layout: "grown k ctx ctx' \<Longrightarrow> layout dd ctx \<Longrightarrow> layout dd ctx'"
  by (simp add: grown_def layout_def)

lemma add_block_ok:
  assumes ok: "ptfs_ok n" and k: "k < 4" and c: "cnt n k < 4" and x: "x < 32" "\<not> bit (i_bitmap n ! 0) x"
    and b: "i_bitmap n' = [w]" "\<forall>y<32. bit w y \<longleftrightarrow> bit (i_bitmap n ! 0) y \<or> y = x"
    and n': "f_bitmap n' = f_bitmap n" "meta n' = (meta n)[k := (meta n ! k)\<lparr>i_frag := (i_frag (meta n ! k))[cnt n k := x + 1],
      i_count := cnt n k + 1\<rparr>]"
  shows "ptfs_ok n'"
proof -
  note L = ptfs_ok_lengths [OF ok]
  let ?m = "(meta n ! k)\<lparr>i_frag := (i_frag (meta n ! k))[cnt n k := x + 1], i_count := cnt n k + 1\<rparr>"
  have me: "meta n' ! k = ?m" "i \<noteq> k \<Longrightarrow> meta n' ! i = meta n ! i" for i using L(3) k n'(2) by simp_all
  have x1: "1 \<le> x" using x(2) L(4) by (cases x) auto
  have mo: "meta_ok (meta n' ! i)" if "i < 4" for i
    using ok that me c k by (cases "i = k") (auto simp: ptfs_ok_def meta_ok_def)
  have fr: "frag n' i j = (if i = k \<and> j = cnt n k then x + 1 else frag n i j)"
    "j < cnt n' i \<longleftrightarrow> j < cnt n i \<or> i = k \<and> j = cnt n k" if "i < 4" for i j
    using me ptfs_okD(2) [OF ok k] c by (cases "i = k"; auto simp: less_Suc_eq nth_list_update)+
  have fresh: "frag n i j \<noteq> x + 1" if "i < 4" "j < cnt n i" for i j
    using ptfs_okD(5,7) [OF ok that(1), of j] that(2) x(2) by auto
  have bits: "2 \<le> frag n' i j \<and> frag n' i j \<le> 32 \<and> bit w (frag n' i j - 1)" if i: "i < 4" and j: "j < cnt n' i" for i j
  proof (cases "i = k \<and> j = cnt n k")
    case True
    then show ?thesis using fr(1) [OF i] x x1 b(2) by simp
  next
    case False
    then have jn: "j < cnt n i" using j fr(2) [OF i] by blast
    have "2 \<le> frag n i j" "frag n i j \<le> 32" "bit (i_bitmap n ! 0) (frag n i j - 1)"
      using ptfs_okD(5-7) [OF ok i] jn by blast+
    moreover from this have "frag n i j - 1 < 32" by linarith
    ultimately show ?thesis using fr(1) [OF i, of j] False b(2) by simp
  qed
  have inj: "i = i' \<and> j = j'" if "i < 4" "j < cnt n' i" "i' < 4" "j' < cnt n' i'" "frag n' i j = frag n' i' j'" for i j i' j'
  proof (cases "i = k \<and> j = cnt n k"; cases "i' = k \<and> j' = cnt n k")
    assume a: "\<not> (i = k \<and> j = cnt n k)" "\<not> (i' = k \<and> j' = cnt n k)"
    then have "j < cnt n i" "j' < cnt n i'" using that(2,4) fr(2) [OF that(1)] fr(2) [OF that(3)] by blast+
    moreover have "frag n i j = frag n i' j'" using that(5) a by (simp only: fr(1) [OF that(1)] fr(1) [OF that(3)] if_False)
    ultimately show ?thesis using ptfs_okD(8) [OF ok that(1) _ that(3)] by blast
  next
    assume a: "\<not> (i = k \<and> j = cnt n k)" "i' = k \<and> j' = cnt n k"
    then have "j < cnt n i" using that(2) fr(2) [OF that(1)] by blast
    moreover have "frag n' i j = frag n i j" by (rule trans [OF fr(1) [OF that(1)] if_not_P [OF a(1)]])
    moreover have "frag n' i' j' = x + 1" by (rule trans [OF fr(1) [OF that(3)] if_P [OF a(2)]])
    ultimately have "j < cnt n i" "frag n i j = x + 1" using that(5) by simp_all
    then show ?thesis using fresh [OF that(1)] by blast
  next
    assume a: "i = k \<and> j = cnt n k" "\<not> (i' = k \<and> j' = cnt n k)"
    then have "j' < cnt n i'" using that(4) fr(2) [OF that(3)] by blast
    moreover have "frag n' i' j' = frag n i' j'" by (rule trans [OF fr(1) [OF that(3)] if_not_P [OF a(2)]])
    moreover have "frag n' i j = x + 1" by (rule trans [OF fr(1) [OF that(1)] if_P [OF a(1)]])
    ultimately have "j' < cnt n i'" "frag n i' j' = x + 1" using that(5) by simp_all
    then show ?thesis using fresh [OF that(3)] by blast
  qed simp
  have nm: "cname (meta n' ! i) \<noteq> [] \<Longrightarrow> i_meta (meta n' ! i) = i + 1 \<and> bit (f_bitmap n' ! 0) i" if "i < 4" for i
    using ptfs_okD(9,10) [OF ok that] me n'(1) by (cases "i = k") (auto simp: cname_def)
  have "bit w 0" using b(2) L(4) by simp
  moreover have "length (f_bitmap n') = 1" "length (meta n') = 4" using L n' by simp_all
  ultimately show ?thesis using b(1) by (intro ptfs_okI [OF _ _ _ _ mo bits inj nm])
qed

lemma single_word: "length ws = 1 \<Longrightarrow> ws = [ws ! 0]"
  by (cases ws) auto

text \<open>The space for the byte at \<open>p\<close>: it is there, or it is allocated, or there is none.\<close>

lemma space_cases:
  assumes ok: "ptfs_ok (inode ctx)" and lay: "layout dd ctx" and k: "pmeta f < 4"
    and p: "p \<le> 1024 * cnt (inode ctx) (pmeta f)" "p < 4096"
  shows "curr_avaliable_space ctx f p = Some (- ENODATA, 0, 0, ctx) \<or>
    (\<exists>ctx'. curr_avaliable_space ctx f p =
        Some (0, file_addr ctx' (pmeta f) p, file_addr ctx' (pmeta f) p - p mod 1024 + 1024, ctx') \<and>
      ptfs_ok (inode ctx') \<and> grown (pmeta f) ctx ctx' \<and> p div 1024 < cnt (inode ctx') (pmeta f))"
proof (cases "p div 1024 < cnt (inode ctx) (pmeta f)")
  case True
  moreover have "p div 1024 mod 65536 = p div 1024" using p(2) by simp
  ultimately have "curr_avaliable_space ctx f p =
      Some (0, file_addr ctx (pmeta f) p, file_addr ctx (pmeta f) p - p mod 1024 + 1024, ctx)"
    using extofs_addr [OF ok lay k True] by (simp add: curr_avaliable_space_def Let_def)
  then show ?thesis using ok grown_refl True by blast
next
  case False
  let ?n = "inode ctx" and ?k = "pmeta f"
  have "p div 1024 mod 65536 = p div 1024" using p(2) by simp
  moreover have "p div 1024 = cnt ?n ?k" using div_le_mono [OF p(1), of 1024] False by simp
  ultimately have idx: "p div 1024 mod 65536 = p div 1024" "p div 1024 = cnt ?n ?k" by blast+
  have c4: "cnt ?n ?k < 4" using idx(2) p(2) by linarith
  obtain r b where rb: "bitmap_allocate (i_bitmap ?n) = (r, b)" by fastforce
  note L = ptfs_ok_lengths [OF ok]
  have bw: "bitmap_allocate [i_bitmap ?n ! 0] = (r, b)" using rb single_word [OF L(1)] by simp
  from bitmap_allocate_word [OF bw] show ?thesis
  proof (elim disjE exE conjE)
    assume "r = 0" "b = [i_bitmap ?n ! 0]"
    moreover from this have "ctx\<lparr>inode := ?n\<lparr>i_bitmap := b\<rparr>\<rparr> = ctx" using single_word [OF L(1)] by simp
    ultimately have "curr_avaliable_space ctx f p = Some (- ENODATA, 0, 0, ctx)"
      using idx rb by (simp add: curr_avaliable_space_def inode_allocate_def Let_def)
    then show ?thesis by blast
  next
    fix x w assume x: "x < 32" "\<not> bit (i_bitmap ?n ! 0) x" "r = int x + 1" "b = [w]"
      "\<forall>y<32. bit w y \<longleftrightarrow> bit (i_bitmap ?n ! 0) y \<or> y = x"
    let ?m = "(meta ?n ! ?k)\<lparr>i_frag := (i_frag (meta ?n ! ?k))[cnt ?n ?k := x + 1], i_count := cnt ?n ?k + 1\<rparr>"
    let ?n' = "?n\<lparr>i_bitmap := [w], meta := (meta ?n)[?k := ?m]\<rparr>"
    let ?c = "ctx\<lparr>inode := ?n'\<rparr>"
    have ok': "ptfs_ok (inode ?c)" by (rule add_block_ok [OF ok k c4 x(1,2) _ x(5)]) simp_all
    have mk: "meta ?n' ! ?k = ?m" "meta ?n' ! i = meta ?n ! i" if "i \<noteq> ?k" for i using L(3) k that by simp_all
    have gr: "grown ?k ctx ?c" using L(3) k by (simp add: grown_def)
    have lt: "p div 1024 < cnt (inode ?c) ?k" using idx(2) L(3) k by simp
    have "r mod 65536 = int x + 1" using x(1,3) by simp
    moreover from this have "nat (r mod 65536) = x + 1" "r mod 65536 \<noteq> 0" by simp_all
    ultimately have "curr_avaliable_space ctx f p = map_option (\<lambda>(start, en). (0, start, en, ?c)) (extofs_to_inofs ?c f p)"
      using idx c4 rb x(4) by (simp add: curr_avaliable_space_def inode_allocate_def Let_def)
    then show ?thesis
      using extofs_addr [OF ok' grown_layout [OF gr lay] k lt] ok' gr lt by auto
  qed
qed

text \<open>Clearing an entry frees its blocks and leaves the other files as they are.\<close>

lemma clear_loop_bits:
  assumes "\<forall>x\<in>set xs. 1 \<le> x \<and> x \<le> 32"
  shows "i_bitmap n = [w] \<Longrightarrow> \<exists>w'. clear_loop xs n = Some (n\<lparr>i_bitmap := [w']\<rparr>) \<and>
    (\<forall>y<32. bit w' y \<longleftrightarrow> bit w y \<and> y + 1 \<notin> set xs)"
  using assms
proof (induction xs arbitrary: n w)
  case Nil
  then show ?case by (intro exI [of _ w]) (cases n, simp)
next
  case (Cons x xs)
  obtain u where u: "bitmap_free [w] (int x) = Some [u]" "\<forall>y<32. bit u y \<longleftrightarrow> bit w y \<and> y \<noteq> x - 1"
    using bitmap_free_word [of x w] Cons.prems(2) by auto
  have fr: "inode_free (int x) n = Some (n\<lparr>i_bitmap := [u]\<rparr>)" using u(1) Cons.prems(1) by (simp add: inode_free_def)
  obtain w' where w': "clear_loop xs (n\<lparr>i_bitmap := [u]\<rparr>) = Some (n\<lparr>i_bitmap := [w']\<rparr>)"
      "\<forall>y<32. bit w' y \<longleftrightarrow> bit u y \<and> y + 1 \<notin> set xs"
    using Cons.IH [of "n\<lparr>i_bitmap := [u]\<rparr>" u] Cons.prems(2) by auto
  have "bit w' y \<longleftrightarrow> bit w y \<and> y + 1 \<notin> set (x # xs)" if "y < 32" for y
    using w'(2) u(2) that Cons.prems(2) by auto
  then show ?case using w'(1) fr by auto
qed

definition cleared :: "nat \<Rightarrow> ptfs_context \<Rightarrow> ptfs_context \<Rightarrow> bool" where
  "cleared k ctx ctx' \<longleftrightarrow> coffset ctx' = coffset ctx \<and> meta (inode ctx') = (meta (inode ctx))[k := zero_meta]"

lemma zero_meta_facts [simp]:
  "meta_ok zero_meta" "i_count zero_meta = 0" "cname zero_meta = []" "msize zero_meta = 0"
  by (simp_all add: zero_meta_def meta_ok_def cname_def)

lemma clear_ok:
  assumes ok: "ptfs_ok (inode ctx)" and k: "k < 4" and nm: "cname (meta (inode ctx) ! k) \<noteq> []"
  shows "\<exists>ctx'. file_metadata_clear_locked k ctx = Some ctx' \<and> ptfs_ok (inode ctx') \<and> cleared k ctx ctx' \<and> cdirty ctx'"
proof -
  let ?n = "inode ctx" and ?m = "meta (inode ctx) ! k"
  note L = ptfs_ok_lengths [OF ok]
  let ?xs = "take (i_count ?m) (i_frag ?m)"
  have c: "i_count ?m \<le> 4" "length (i_frag ?m) = 4" using ptfs_okD(2,3) [OF ok k] by blast+
  have inxs: "x \<in> set ?xs \<longleftrightarrow> (\<exists>j<i_count ?m. x = frag ?n k j)" for x using c by (auto simp: in_set_conv_nth)
  have rng: "\<forall>x\<in>set ?xs. 1 \<le> x \<and> x \<le> 32"
    using ptfs_okD(5,6) [OF ok k] inxs by (metis one_le_numeral order_trans)
  obtain w where w: "clear_loop ?xs ?n = Some (?n\<lparr>i_bitmap := [w]\<rparr>)"
      "\<forall>y<32. bit w y \<longleftrightarrow> bit (i_bitmap ?n ! 0) y \<and> y + 1 \<notin> set ?xs"
    using clear_loop_bits [OF rng single_word [OF L(1)]] by blast
  have im: "i_meta ?m = k + 1" using ptfs_okD(9) [OF ok k nm] .
  obtain u where u: "bitmap_free [f_bitmap ?n ! 0] (int (k + 1)) = Some [u]"
      "\<forall>y<32. bit u y \<longleftrightarrow> bit (f_bitmap ?n ! 0) y \<and> y \<noteq> k"
    using bitmap_free_word [of "k + 1" "f_bitmap ?n ! 0"] k by auto
  let ?n' = "?n\<lparr>i_bitmap := [w], f_bitmap := [u], meta := (meta ?n)[k := zero_meta]\<rparr>"
  have st: "file_metadata_clear_locked k ctx = Some (ctx\<lparr>inode := ?n', cdirty := True\<rparr>)"
    using c w(1) u(1) im single_word [OF L(2)]
    by (simp add: file_metadata_clear_locked_def fnode_free_def Let_def del: clear_loop.simps)
  have me: "meta ?n' ! k = zero_meta" "i \<noteq> k \<Longrightarrow> meta ?n' ! i = meta ?n ! i" for i using L(3) k by simp_all
  have keep: "i \<noteq> k \<and> j < cnt ?n i" if "i < 4" "j < cnt ?n' i" for i j
    using that me by (cases "i = k") auto
  have "ptfs_ok ?n'"
  proof (rule ptfs_okI [where w = w])
    have "0 + 1 \<notin> set ?xs" using inxs ptfs_okD(5) [OF ok k] by fastforce
    then show "bit w 0" using w(2) L(4) by simp
    show "meta_ok (meta ?n' ! i)" if "i < 4" for i
      using ok that me by (cases "i = k") (auto simp: ptfs_ok_def)
    show "2 \<le> frag ?n' i j \<and> frag ?n' i j \<le> 32 \<and> bit w (frag ?n' i j - 1)" if i: "i < 4" and j: "j < cnt ?n' i" for i j
    proof -
      have ij: "i \<noteq> k" "j < cnt ?n i" using keep [OF i j] by blast+
      have f: "2 \<le> frag ?n i j" "frag ?n i j \<le> 32" "bit (i_bitmap ?n ! 0) (frag ?n i j - 1)"
        using ptfs_okD(5-7) [OF ok i ij(2)] by blast+
      have "frag ?n i j \<notin> set ?xs" using inxs ptfs_okD(8) [OF ok i ij(2) k] ij(1) by blast
      moreover have "frag ?n i j - 1 + 1 = frag ?n i j" "frag ?n i j - 1 < 32" using f by linarith+
      ultimately have "bit w (frag ?n i j - 1)" using w(2) f(3) by simp
      then show ?thesis using f me(2) [OF ij(1)] by simp
    qed
    show "i = i' \<and> j = j'" if "i < 4" "j < cnt ?n' i" "i' < 4" "j' < cnt ?n' i'" "frag ?n' i j = frag ?n' i' j'" for i j i' j'
    proof -
      have a: "i \<noteq> k" "j < cnt ?n i" "i' \<noteq> k" "j' < cnt ?n i'" using keep that(1-4) by blast+
      have "frag ?n i j = frag ?n i' j'" using that(5) me(2) [OF a(1)] me(2) [OF a(3)] by simp
      then show ?thesis using ptfs_okD(8) [OF ok that(1) a(2) that(3) a(4)] by blast
    qed
    show "i_meta (meta ?n' ! i) = i + 1 \<and> bit (f_bitmap ?n' ! 0) i" if i: "i < 4" and n: "cname (meta ?n' ! i) \<noteq> []" for i
    proof -
      have ik: "i \<noteq> k" using n me(1) by auto
      have "cname (meta ?n ! i) \<noteq> []" using n me(2) [OF ik] by simp
      then show ?thesis using ptfs_okD(9,10) [OF ok i] u(2) ik i me(2) [OF ik] by simp
    qed
  qed (use L in simp_all)
  then show ?thesis using st by (simp add: cleared_def)
qed

text \<open>
  \<open>put k o xs\<close>: file \<open>k\<close> has got the bytes \<open>xs\<close> from position \<open>o\<close> on, and perhaps blocks; its bytes in front of
  \<open>o\<close> and the other files are as before.
\<close>

definition others_kept :: "nat \<Rightarrow> ptfs_context \<Rightarrow> mem \<Rightarrow> ptfs_context \<Rightarrow> mem \<Rightarrow> bool" where
  "others_kept k ctx v ctx' v' \<longleftrightarrow> (\<forall>i<4. i \<noteq> k \<longrightarrow> meta (inode ctx') ! i = meta (inode ctx) ! i \<and>
     (\<forall>p. p div 1024 < cnt (inode ctx) i \<longrightarrow> v' (file_addr ctx' i p) = v (file_addr ctx i p)))"

definition put :: "nat \<Rightarrow> nat \<Rightarrow> u8 list \<Rightarrow> ptfs_context \<Rightarrow> mem \<Rightarrow> ptfs_context \<Rightarrow> mem \<Rightarrow> bool" where
  "put k q xs ctx v ctx' v' \<longleftrightarrow> grown k ctx ctx' \<and> others_kept k ctx v ctx' v' \<and>
     (\<forall>p<q. v' (file_addr ctx' k p) = v (file_addr ctx k p)) \<and>
     (\<forall>i<length xs. v' (file_addr ctx' k (q + i)) = xs ! i)"

lemma others_kept_trans:
  assumes "others_kept k a u b v" "others_kept k b v c w"
  shows "others_kept k a u c w"
  using assms unfolding others_kept_def by simp

lemma put_append:
  assumes "put k q xs a u b v" "put k (q + length xs) ys b v c w"
  shows "put k q (xs @ ys) a u c w"
proof -
  have "grown k a c" using assms grown_trans unfolding put_def by blast
  moreover have "others_kept k a u c w" using assms others_kept_trans unfolding put_def by blast
  moreover have "w (file_addr c k p) = u (file_addr a k p)" if "p < q" for p
    using assms that unfolding put_def by simp
  moreover have "w (file_addr c k (q + i)) = (xs @ ys) ! i" if i: "i < length (xs @ ys)" for i
  proof (cases "i < length xs")
    case True
    then show ?thesis using assms unfolding put_def by (simp add: nth_append)
  next
    case False
    then have e: "q + i = q + length xs + (i - length xs)" "i - length xs < length ys" using i by auto
    have "w (file_addr c k (q + length xs + (i - length xs))) = ys ! (i - length xs)"
      using assms(2) e(2) unfolding put_def by blast
    then show ?thesis unfolding e(1) [symmetric] using False by (simp add: nth_append)
  qed
  ultimately show ?thesis unfolding put_def by blast
qed

lemma others_kept_grown:
  assumes "grown k a b"
  shows "others_kept k a v b v"
proof -
  have "meta (inode b) ! i = meta (inode a) ! i" if "i \<noteq> k" for i using assms that unfolding grown_def by blast
  then show ?thesis using grown_addr [OF assms] unfolding others_kept_def by simp
qed

lemma put_grown:
  assumes "grown k a b" "q \<le> 1024 * cnt (inode a) k"
  shows "put k q [] a v b v"
proof -
  have "file_addr b k p = file_addr a k p" if "p < q" for p
    using that assms by (intro grown_addr [OF assms(1)]) (simp add: less_mult_imp_div_less mult.commute)
  then show ?thesis using assms(1) others_kept_grown [OF assms(1)] by (simp add: put_def)
qed

lemma block_add:
  fixes p i :: nat
  assumes "p mod 1024 + i < 1024"
  shows "(p + i) div 1024 = p div 1024" "(p + i) mod 1024 = p mod 1024 + i"
proof -
  let ?r = "p mod 1024 + i"
  have eq: "p + i = ?r + 1024 * (p div 1024)" by simp
  show "(p + i) div 1024 = p div 1024" unfolding eq using assms by (subst div_mult_self2) simp_all
  show "(p + i) mod 1024 = ?r" unfolding eq using assms by (subst mod_mult_self2) simp
qed

lemma file_addr_add: "p mod 1024 + i < 1024 \<Longrightarrow> file_addr ctx k (p + i) = file_addr ctx k p + i"
  by (simp add: file_addr_def block_add)

lemma mem_write_file:
  assumes ok: "ptfs_ok (inode ctx)" and k: "k < 4" "q div 1024 < cnt (inode ctx) k" "q mod 1024 + length xs \<le> 1024"
    and i: "i < 4" "p div 1024 < cnt (inode ctx) i"
  shows "mem_write v (file_addr ctx k q) xs (file_addr ctx i p) =
    (if i = k \<and> q \<le> p \<and> p < q + length xs then xs ! (p - q) else v (file_addr ctx i p))"
proof (cases "file_addr ctx k q \<le> file_addr ctx i p \<and> file_addr ctx i p < file_addr ctx k q + length xs")
  case True
  define e where "e = file_addr ctx i p - file_addr ctx k q"
  have e: "e < length xs" "file_addr ctx i p = file_addr ctx k q + e" using True by (auto simp: e_def)
  have lt: "q mod 1024 + e < 1024" using e(1) k(3) by linarith
  have dv: "(q + e) div 1024 = q div 1024" by (rule block_add(1) [OF lt])
  have "i = k \<and> p = q + e"
    using file_addr_inj [OF ok i k(1), of "q + e"] file_addr_add [OF lt, of ctx k] e(2) k(2) dv by simp
  then show ?thesis using e True by (simp add: mem_write_def)
next
  case False
  have "\<not> (i = k \<and> q \<le> p \<and> p < q + length xs)"
  proof
    assume a: "i = k \<and> q \<le> p \<and> p < q + length xs"
    then have "q mod 1024 + (p - q) < 1024" using k(3) by linarith
    from file_addr_add [OF this, of ctx k] have "file_addr ctx k p = file_addr ctx k q + (p - q)" using a by simp
    then show False using a False by auto
  qed
  then show ?thesis using False by (auto simp: mem_write_def)
qed

lemma put_write:
  assumes "ptfs_ok (inode ctx)" "k < 4" "q div 1024 < cnt (inode ctx) k" "q mod 1024 + length xs \<le> 1024"
  shows "put k q xs ctx v ctx (mem_write v (file_addr ctx k q) xs)"
proof -
  note mw = mem_write_file [OF assms]
  have le: "p div 1024 < cnt (inode ctx) k" if "p < q" for p using that assms(3) div_le_mono [of p q 1024] by linarith
  have dv: "(q + e) div 1024 < cnt (inode ctx) k" if "e < length xs" for e
    using that assms(3,4) block_add(1) [of q e] by simp
  have "others_kept k ctx v ctx (mem_write v (file_addr ctx k q) xs)" unfolding others_kept_def using mw by simp
  moreover have "mem_write v (file_addr ctx k q) xs (file_addr ctx k p) = v (file_addr ctx k p)" if "p < q" for p
    using mw [OF assms(2) le [OF that]] that by simp
  moreover have "mem_write v (file_addr ctx k q) xs (file_addr ctx k (q + e)) = xs ! e" if "e < length xs" for e
    using mw [OF assms(2) dv [OF that]] that by simp
  ultimately show ?thesis unfolding put_def using grown_refl by blast
qed

text \<open>Where the loops are: inside a block, or at its end.\<close>

definition inside :: "ptfs_context \<Rightarrow> nat \<Rightarrow> nat \<Rightarrow> nat \<Rightarrow> nat \<Rightarrow> bool" where
  "inside ctx k q start en \<longleftrightarrow>
     q div 1024 < cnt (inode ctx) k \<and> start = file_addr ctx k q \<and> en = file_addr ctx k q - q mod 1024 + 1024"

definition at_end :: "nat \<Rightarrow> nat \<Rightarrow> nat \<Rightarrow> bool" where
  "at_end q start en \<longleftrightarrow> q mod 1024 = 0 \<and> start = en"

lemma inside_room:
  assumes "ptfs_ok (inode ctx)" "layout dd ctx" "k < 4" "inside ctx k q start en"
  shows "w32 (en + 4294967296 - start) = 1024 - q mod 1024" "start + (1024 - q mod 1024) = en" "en \<le> dlen dd"
    "dlen dd < 2147483648"
proof -
  have q: "q div 1024 < cnt (inode ctx) k" and st: "start = file_addr ctx k q"
    and en: "en = file_addr ctx k q - q mod 1024 + 1024" using assms(4) by (auto simp: inside_def)
  note b = file_addr_bounds [OF assms(1-3) q]
  have m: "q mod 1024 < 1024" by simp
  show e: "start + (1024 - q mod 1024) = en" using b(3) m unfolding st en by linarith
  have "en + 4294967296 - start = (1024 - q mod 1024) + 4294967296" using e by linarith
  moreover have "w32 ((1024 - q mod 1024) + 4294967296) = 1024 - q mod 1024" by (subst mod_add_self2) simp
  ultimately show "w32 (en + 4294967296 - start) = 1024 - q mod 1024" by (simp only:)
  show "en \<le> dlen dd" using b(2) unfolding en .
  show "dlen dd < 2147483648" using assms(2) by (simp add: layout_def)
qed

lemma inside_next:
  assumes "inside ctx k q start en" "start + (1024 - q mod 1024) = en" "n \<le> 1024 - q mod 1024"
  shows "inside ctx k (q + n) (start + n) en \<or> at_end (q + n) (start + n) en"
proof (cases "q mod 1024 + n < 1024")
  case True
  then show ?thesis using assms(1) file_addr_add [OF True, of ctx k] block_add [OF True] by (auto simp: inside_def)
next
  case False
  have m: "q mod 1024 < 1024" by simp
  then have n: "n = 1024 - q mod 1024" using False assms(3) by linarith
  have "q + n = 1024 * (q div 1024) + 1024" using n m by (metis add.assoc add_diff_inverse_nat less_imp_le_nat
      mult_div_mod_eq not_less)
  then have "(q + n) mod 1024 = 0" by simp
  then show ?thesis using n assms(2) by (simp add: at_end_def)
qed

text \<open>A file that is lost because there is no room: its entry is cleared, the other files are kept.\<close>

definition lost :: "nat \<Rightarrow> ptfs_context \<Rightarrow> mem \<Rightarrow> ptfs_context \<Rightarrow> mem \<Rightarrow> bool" where
  "lost k ctx v ctx' v' \<longleftrightarrow> meta (inode ctx') ! k = zero_meta \<and> coffset ctx' = coffset ctx \<and> others_kept k ctx v ctx' v'"

lemma lost_cleared:
  assumes "cleared k ctx ctx'" "ptfs_ok (inode ctx)" "k < 4"
  shows "lost k ctx v ctx' v"
  using assms ptfs_ok_lengths(3) [OF assms(2)]
  by (auto simp: lost_def cleared_def others_kept_def file_addr_def)

lemma lost_put: "put k q xs a u b v \<Longrightarrow> lost k b v c w \<Longrightarrow> lost k a u c w"
  using others_kept_trans unfolding put_def lost_def grown_def by metis

definition write_result :: "'d disk_device \<Rightarrow> ('d \<Rightarrow> mem) \<Rightarrow> nat \<Rightarrow> nat \<Rightarrow> u8 list \<Rightarrow> ptfs_context \<Rightarrow> mem \<Rightarrow>
    (int option \<times> nat \<times> ptfs_context \<times> block_device \<times> 'd) option \<Rightarrow> bool" where
  "write_result dd contents k q xs ctx v r \<longleftrightarrow>
     (\<exists>err q' ctx' s' v'. r = Some (err, q', ctx', s') \<and> blk_rep dd contents s' v' \<and> ptfs_ok (inode ctx') \<and>
       (err = None \<and> q' = q + length xs \<and> put k q xs ctx v ctx' v' \<and> q' \<le> 1024 * cnt (inode ctx') k \<or>
        err = Some (- ENODATA) \<and> lost k ctx v ctx' v'))"

text \<open>The end of a write sets the size of the file.\<close>

definition set_size :: "nat \<Rightarrow> nat \<Rightarrow> ptfs_context \<Rightarrow> ptfs_context" where
  "set_size k q ctx = ctx\<lparr>inode := (inode ctx)\<lparr>meta := (meta (inode ctx))[k := (meta (inode ctx) ! k)\<lparr>msize := q\<rparr>]\<rparr>,
     cdirty := True\<rparr>"

lemma set_size_meta:
  assumes "ptfs_ok (inode ctx)" "k < 4"
  shows "meta (inode (set_size k q ctx)) ! k = (meta (inode ctx) ! k)\<lparr>msize := q\<rparr>"
    "i \<noteq> k \<Longrightarrow> meta (inode (set_size k q ctx)) ! i = meta (inode ctx) ! i"
    "cnt (inode (set_size k q ctx)) i = cnt (inode ctx) i" "frag (inode (set_size k q ctx)) i j = frag (inode ctx) i j"
    "file_addr (set_size k q ctx) i p = file_addr ctx i p" "cname (meta (inode (set_size k q ctx)) ! i) = cname (meta (inode ctx) ! i)"
    "i_meta (meta (inode (set_size k q ctx)) ! i) = i_meta (meta (inode ctx) ! i)"
proof -
  have l: "length (meta (inode ctx)) = 4" by (rule ptfs_ok_lengths(3) [OF assms(1)])
  show k: "meta (inode (set_size k q ctx)) ! k = (meta (inode ctx) ! k)\<lparr>msize := q\<rparr>"
    and o: "i \<noteq> k \<Longrightarrow> meta (inode (set_size k q ctx)) ! i = meta (inode ctx) ! i" for i
    using l assms(2) by (simp_all add: set_size_def)
  show "cnt (inode (set_size k q ctx)) i = cnt (inode ctx) i"
    and fr: "frag (inode (set_size k q ctx)) i j = frag (inode ctx) i j"
    and "cname (meta (inode (set_size k q ctx)) ! i) = cname (meta (inode ctx) ! i)"
    and "i_meta (meta (inode (set_size k q ctx)) ! i) = i_meta (meta (inode ctx) ! i)" for i j
    using k o by (cases "i = k"; simp add: cname_def)+
  show "file_addr (set_size k q ctx) i p = file_addr ctx i p" unfolding file_addr_def fr by (simp add: set_size_def)
qed

lemma set_size_ok:
  assumes "ptfs_ok (inode ctx)" "k < 4" "q \<le> 1024 * cnt (inode ctx) k"
  shows "ptfs_ok (inode (set_size k q ctx))"
proof -
  note L = ptfs_ok_lengths [OF assms(1)] and S = set_size_meta [OF assms(1,2)]
  have b: "i_bitmap (inode (set_size k q ctx)) = [i_bitmap (inode ctx) ! 0]"
    "f_bitmap (inode (set_size k q ctx)) = f_bitmap (inode ctx)" "length (meta (inode (set_size k q ctx))) = 4"
    using L single_word by (simp_all add: set_size_def)
  have mo: "meta_ok (meta (inode (set_size k q ctx)) ! i)" if "i < 4" for i
    using assms that S(1,2) by (cases "i = k") (auto simp: ptfs_ok_def meta_ok_def)
  show ?thesis
  proof (rule ptfs_okI [OF b(1) _ b(3) L(4) mo])
    show "length (f_bitmap (inode (set_size k q ctx))) = 1" using L(2) b(2) by simp
    show "2 \<le> frag (inode (set_size k q ctx)) i j \<and> frag (inode (set_size k q ctx)) i j \<le> 32 \<and>
        bit (i_bitmap (inode ctx) ! 0) (frag (inode (set_size k q ctx)) i j - 1)"
      if "i < 4" "j < cnt (inode (set_size k q ctx)) i" for i j
      using ptfs_okD(5-7) [OF assms(1) that(1)] that(2) unfolding S(3,4) by blast
    show "i = i' \<and> j = j'" if "i < 4" "j < cnt (inode (set_size k q ctx)) i" "i' < 4"
      "j' < cnt (inode (set_size k q ctx)) i'" "frag (inode (set_size k q ctx)) i j = frag (inode (set_size k q ctx)) i' j'"
      for i j i' j'
      using ptfs_okD(8) [OF assms(1) that(1)] that(2-5) unfolding S(3,4) by blast
    show "i_meta (meta (inode (set_size k q ctx)) ! i) = i + 1 \<and> bit (f_bitmap (inode (set_size k q ctx)) ! 0) i"
      if "i < 4" "cname (meta (inode (set_size k q ctx)) ! i) \<noteq> []" for i
      using ptfs_okD(9,10) [OF assms(1) that(1)] that(2) unfolding S(6,7) b(2) by blast
  qed
qed

lemma set_size_others:
  assumes "ptfs_ok (inode ctx)" "k < 4"
  shows "coffset (set_size k q ctx) = coffset ctx" "others_kept k ctx v (set_size k q ctx) v"
  using set_size_meta [OF assms] by (simp_all add: others_kept_def set_size_def)

lemma put_others:
  assumes "put k q xs ctx v ctx' v'"
  shows "coffset ctx' = coffset ctx" "others_kept k ctx v ctx' v'"
  using assms by (simp_all add: put_def grown_def)

lemma put_file_bytes:
  assumes "put k q xs ctx v ctx' v'" "ptfs_ok (inode ctx')" "k < 4" "q \<le> msize (meta (inode ctx) ! k)"
  shows "file_bytes (set_size k (q + length xs) ctx') v' k = take q (file_bytes ctx v k) @ xs"
proof (rule nth_equalityI)
  note S = set_size_meta [OF assms(2,3)]
  show "length (file_bytes (set_size k (q + length xs) ctx') v' k) = length (take q (file_bytes ctx v k) @ xs)"
    using assms(4) S(1) by (simp add: file_bytes_def)
  fix i assume "i < length (file_bytes (set_size k (q + length xs) ctx') v' k)"
  then have i: "i < q + length xs" using S(1) by (simp add: file_bytes_def)
  have l: "file_bytes (set_size k (q + length xs) ctx') v' k ! i = v' (file_addr ctx' k i)"
    using i S(1,5) by (simp add: file_bytes_def)
  show "file_bytes (set_size k (q + length xs) ctx') v' k ! i = (take q (file_bytes ctx v k) @ xs) ! i"
  proof (cases "i < q")
    case True
    then show ?thesis unfolding l using assms(1,4) by (simp add: put_def nth_append file_bytes_def)
  next
    case False
    then obtain e where e: "i = q + e" "e < length xs" using i by (metis le_Suc_ex nat_add_left_cancel_less not_less)
    have "length (take q (file_bytes ctx v k)) = q" using assms(4) by (simp add: file_bytes_def)
    moreover have "v' (file_addr ctx' k (q + e)) = xs ! e" using assms(1) e(2) unfolding put_def by blast
    ultimately show ?thesis using l unfolding e(1) by (simp add: nth_append)
  qed
qed

context flash_disk
begin

lemma write_inside:
  assumes "blk_rep dd contents s v" "ptfs_ok (inode ctx)" "layout dd ctx" "pmeta f < 4"
    and "inside ctx (pmeta f) q start en" "buf \<noteq> []" "q + length buf \<le> 4096"
  defines "n \<equiv> min (1024 - q mod 1024) (length buf)"
  obtains s' v' where "blk_rep dd contents s' v'" "put (pmeta f) q (take n buf) ctx v ctx v'"
    "inside ctx (pmeta f) (q + n) (start + n) en \<or> at_end (q + n) (start + n) en" "0 < n"
    "pt_write_loop dd f buf start en q ctx s = pt_write_loop dd f (drop n buf) (start + n) en (q + n) ctx s'"
proof -
  note room = inside_room [OF assms(2,3,4,5)]
  have n: "0 < n" "n \<le> 1024 - q mod 1024" "length (take n buf) = n" using assms(6) by (auto simp: n_def)
  have st: "start = file_addr ctx (pmeta f) q" and q: "q div 1024 < cnt (inode ctx) (pmeta f)"
    using assms(5) by (auto simp: inside_def)
  have fit: "start + length (take n buf) \<le> dlen dd" using room(2,3) n by linarith
  obtain s' where s': "simple_blkdev_write dd (take n buf) start s = Some (int (length (take n buf)), s')"
      "blk_rep dd contents s' (mem_write v start (take n buf))"
    using simple_blkdev_write_rep [OF assms(1) fit] by blast
  have w: "w32 (start + n) = start + n" "w32 (q + n) = q + n" using room(4) fit n(3) assms(7) by (auto simp: n_def)
  have "q mod 1024 + length (take n buf) \<le> 1024" using n(2,3) mod_less_divisor [of 1024 q] by linarith
  then have "put (pmeta f) q (take n buf) ctx v ctx (mem_write v start (take n buf))"
    unfolding st by (rule put_write [OF assms(2,4) q])
  moreover have "pt_write_loop dd f buf start en q ctx s = pt_write_loop dd f (drop n buf) (start + n) en (q + n) ctx s'"
    using assms(6) n(1,3) s'(1) w room(1)
    by (subst pt_write_loop.simps) (simp add: Let_def n_def [symmetric])
  ultimately show ?thesis using that s'(2) n(1) inside_next [OF assms(5) room(2) n(2)] by blast
qed

lemma write_at_end:
  assumes "ptfs_ok (inode ctx)" "layout dd ctx" "pmeta f < 4" "at_end q start en" "buf \<noteq> []" "q < 4096"
    and "q \<le> 1024 * cnt (inode ctx) (pmeta f)" "cname (meta (inode ctx) ! pmeta f) \<noteq> []"
  shows "(\<exists>ctx'. pt_write_loop dd f buf start en q ctx s = Some (Some (- ENODATA), q, ctx', s) \<and>
        ptfs_ok (inode ctx') \<and> lost (pmeta f) ctx v ctx' v) \<or>
    (\<exists>ctx' start' en'. pt_write_loop dd f buf start en q ctx s = pt_write_loop dd f buf start' en' q ctx' s \<and>
        ptfs_ok (inode ctx') \<and> put (pmeta f) q [] ctx v ctx' v \<and> inside ctx' (pmeta f) q start' en')"
proof -
  have z: "min (w32 (en + 4294967296 - start)) (length buf) = 0" using assms(4) by (simp add: at_end_def)
  from space_cases [OF assms(1,2,3,7,6)] show ?thesis
  proof (elim disjE exE conjE)
    assume sp: "curr_avaliable_space ctx f q = Some (- ENODATA, 0, 0, ctx)"
    obtain ctx' where c: "file_metadata_clear_locked (pmeta f) ctx = Some ctx'" "ptfs_ok (inode ctx')" "cleared (pmeta f) ctx ctx'"
      using clear_ok [OF assms(1,3,8)] by blast
    have "pt_write_loop dd f buf start en q ctx s = Some (Some (- ENODATA), q, ctx', s)"
      using assms(5) sp c(1) z by (subst pt_write_loop.simps) (simp add: Let_def)
    then show ?thesis using c(2) lost_cleared [OF c(3) assms(1,3)] by blast
  next
    fix ctx' assume c: "curr_avaliable_space ctx f q =
        Some (0, file_addr ctx' (pmeta f) q, file_addr ctx' (pmeta f) q - q mod 1024 + 1024, ctx')"
      "ptfs_ok (inode ctx')" "grown (pmeta f) ctx ctx'" "q div 1024 < cnt (inode ctx') (pmeta f)"
    have "pt_write_loop dd f buf start en q ctx s =
        pt_write_loop dd f buf (file_addr ctx' (pmeta f) q) (file_addr ctx' (pmeta f) q - q mod 1024 + 1024) q ctx' s"
      using assms(5) c(1) z by (subst pt_write_loop.simps) (simp add: Let_def)
    then show ?thesis using c put_grown [OF c(3) assms(7)] unfolding inside_def by blast
  qed
qed

lemma write_result_put:
  assumes "write_result dd contents k (q + length xs) ys b v r" "put k q xs a u b v"
  shows "write_result dd contents k q (xs @ ys) a u r"
proof -
  obtain err q' ctx' s' v' where r: "r = Some (err, q', ctx', s')" "blk_rep dd contents s' v'" "ptfs_ok (inode ctx')"
    and c: "err = None \<and> q' = q + length xs + length ys \<and> put k (q + length xs) ys b v ctx' v' \<and> q' \<le> 1024 * cnt (inode ctx') k \<or>
        err = Some (- ENODATA) \<and> lost k b v ctx' v'"
    using assms(1) unfolding write_result_def by blast
  from c have "err = None \<and> q' = q + length (xs @ ys) \<and> put k q (xs @ ys) a u ctx' v' \<and> q' \<le> 1024 * cnt (inode ctx') k \<or>
      err = Some (- ENODATA) \<and> lost k a u ctx' v'"
    using put_append [OF assms(2)] lost_put [OF assms(2)] by auto
  then show ?thesis using r unfolding write_result_def by blast
qed

lemma put_cnt: "put k q xs a u b v \<Longrightarrow> cnt (inode a) k \<le> cnt (inode b) k"
  by (simp add: put_def grown_def)

lemma put_names: "put k q xs a u b v \<Longrightarrow> cname (meta (inode b) ! k) = cname (meta (inode a) ! k)"
  by (simp add: put_def grown_def cname_def)

lemma put_layout: "put k q xs a u b v \<Longrightarrow> layout dd a \<Longrightarrow> layout dd b"
  using grown_layout by (auto simp: put_def)

lemma write_loop_inside:
  assumes IH: "\<And>ys start en q ctx s v. length ys < length buf \<Longrightarrow> blk_rep dd contents s v \<Longrightarrow> ptfs_ok (inode ctx) \<Longrightarrow>
      layout dd ctx \<Longrightarrow> inside ctx (pmeta f) q start en \<or> at_end q start en \<Longrightarrow> q + length ys \<le> 4096 \<Longrightarrow>
      q \<le> 1024 * cnt (inode ctx) (pmeta f) \<Longrightarrow> cname (meta (inode ctx) ! pmeta f) \<noteq> [] \<Longrightarrow>
      write_result dd contents (pmeta f) q ys ctx v (pt_write_loop dd f ys start en q ctx s)"
    and f: "pmeta f < 4" and "buf \<noteq> []" "blk_rep dd contents s v" "ptfs_ok (inode ctx)" "layout dd ctx"
    and "inside ctx (pmeta f) q start en" "q + length buf \<le> 4096" "cname (meta (inode ctx) ! pmeta f) \<noteq> []"
  shows "write_result dd contents (pmeta f) q buf ctx v (pt_write_loop dd f buf start en q ctx s)"
proof -
  let ?n = "min (1024 - q mod 1024) (length buf)"
  obtain s' v' where w: "blk_rep dd contents s' v'" "put (pmeta f) q (take ?n buf) ctx v ctx v'"
      "inside ctx (pmeta f) (q + ?n) (start + ?n) en \<or> at_end (q + ?n) (start + ?n) en" "0 < ?n"
      "pt_write_loop dd f buf start en q ctx s = pt_write_loop dd f (drop ?n buf) (start + ?n) en (q + ?n) ctx s'"
    by (rule write_inside [OF assms(4,5,6) f assms(7,3,8)])
  have ln: "length (take ?n buf) = ?n" "length (drop ?n buf) = length buf - ?n" "?n \<le> length buf" by simp_all
  have "q div 1024 < cnt (inode ctx) (pmeta f)" using assms(7) by (simp add: inside_def)
  then have "1024 * (q div 1024) + 1024 \<le> 1024 * cnt (inode ctx) (pmeta f)" by linarith
  moreover have "q + ?n \<le> 1024 * (q div 1024) + 1024" using mod_less_divisor [of 1024 q] mult_div_mod_eq [of 1024 q] by linarith
  ultimately have c: "q + ?n \<le> 1024 * cnt (inode ctx) (pmeta f)" by linarith
  have "write_result dd contents (pmeta f) (q + ?n) (drop ?n buf) ctx v' (pt_write_loop dd f (drop ?n buf) (start + ?n) en (q + ?n) ctx s')"
    by (rule IH [OF _ w(1) assms(5,6) w(3) _ c assms(9)]) (use ln w(4) assms(8) in linarith)+
  then have "write_result dd contents (pmeta f) (q + length (take ?n buf)) (drop ?n buf) ctx v' (pt_write_loop dd f buf start en q ctx s)"
    unfolding w(5) ln(1) .
  from write_result_put [OF this w(2)] show ?thesis by simp
qed

lemma write_loop_put:
  assumes f: "pmeta f < 4"
  shows "blk_rep dd contents s v \<Longrightarrow> ptfs_ok (inode ctx) \<Longrightarrow> layout dd ctx \<Longrightarrow>
    inside ctx (pmeta f) q start en \<or> at_end q start en \<Longrightarrow> q + length buf \<le> 4096 \<Longrightarrow>
    q \<le> 1024 * cnt (inode ctx) (pmeta f) \<Longrightarrow> cname (meta (inode ctx) ! pmeta f) \<noteq> [] \<Longrightarrow>
    write_result dd contents (pmeta f) q buf ctx v (pt_write_loop dd f buf start en q ctx s)"
proof (induction "length buf" arbitrary: buf start en q ctx s v rule: less_induct)
  case less
  note ins = write_loop_inside [OF less.hyps f]
  show ?case
  proof (cases "buf = []")
    case True
    then show ?thesis using less.prems put_grown [OF grown_refl less.prems(6)]
      by (subst pt_write_loop.simps) (auto simp: write_result_def)
  next
    case False
    show ?thesis
    proof (cases "inside ctx (pmeta f) q start en")
      case True
      show ?thesis by (rule ins [OF _ _ _ _ _ _ _ _ False less.prems(1,2,3) True less.prems(5,7)])
    next
      case out: False
      then have ae: "at_end q start en" using less.prems(4) by blast
      have q: "q < 4096" using less.prems(5) False by (cases buf) auto
      from write_at_end [OF less.prems(2,3) f ae False q less.prems(6,7), of s v] show ?thesis
      proof (elim disjE exE conjE)
        fix ctx' assume "pt_write_loop dd f buf start en q ctx s = Some (Some (- ENODATA), q, ctx', s)"
          "ptfs_ok (inode ctx')" "lost (pmeta f) ctx v ctx' v"
        then show ?thesis using less.prems(1) unfolding write_result_def by blast
      next
        fix ctx' start' en'
        assume c: "pt_write_loop dd f buf start en q ctx s = pt_write_loop dd f buf start' en' q ctx' s"
          "ptfs_ok (inode ctx')" "put (pmeta f) q [] ctx v ctx' v" "inside ctx' (pmeta f) q start' en'"
        have "cname (meta (inode ctx') ! pmeta f) \<noteq> []" using put_names [OF c(3)] less.prems(7) by simp
        from ins [OF _ _ _ _ _ _ _ _ False less.prems(1) c(2) put_layout [OF c(3) less.prems(3)] c(4) less.prems(5) this]
        have "write_result dd contents (pmeta f) (q + length ([] :: u8 list)) buf ctx' v (pt_write_loop dd f buf start en q ctx s)"
          unfolding c(1) by simp
        from write_result_put [OF this c(3)] show ?thesis by simp
      qed
    qed
  qed
qed

lemma pt_write_cases:
  assumes "blk_rep dd contents s v" "ptfs_ok (inode ctx)" "layout dd ctx" "pmeta f < 4"
    and "cname (meta (inode ctx) ! pmeta f) \<noteq> []" "oflags f AND VFS_O_MASK \<noteq> VFS_O_RDONLY"
    and "rawofs f \<le> msize (meta (inode ctx) ! pmeta f)" "rawofs f < 4096" "rawofs f + length xs \<le> 4096"
  shows "\<exists>r f' ctx' s' v'. ptfile_ll_write dd xs f ctx s = Some (r, f', ctx', s') \<and> blk_rep dd contents s' v' \<and>
    ptfs_ok (inode ctx') \<and> coffset ctx' = coffset ctx \<and> others_kept (pmeta f) ctx v ctx' v' \<and>
    (r = int (length xs) \<and> f' = f\<lparr>rawofs := rawofs f + length xs, written := True\<rparr> \<and>
       file_bytes ctx' v' (pmeta f) = take (rawofs f) (file_bytes ctx v (pmeta f)) @ xs \<and>
       cname (meta (inode ctx') ! pmeta f) = cname (meta (inode ctx) ! pmeta f) \<or>
     r = - ENODATA \<and> (ctx' = ctx \<or> meta (inode ctx') ! pmeta f = zero_meta))"
proof -
  let ?k = "pmeta f" and ?q = "rawofs f"
  have q: "?q \<le> 1024 * cnt (inode ctx) ?k" using assms(7) ptfs_okD(4) [OF assms(2,4)] by linarith
  have acc: "ptfile_ll_write dd xs f ctx s = Option.bind (curr_avaliable_space ctx f ?q) (\<lambda>(ret, start, en, ctx).
      if ret < 0 then Some (ret, f, ctx, s)
      else Option.bind (pt_write_loop dd f xs start en ?q ctx s) (\<lambda>(err, offset, ctx, s).
        case err of Some ret \<Rightarrow> Some (ret, f\<lparr>rawofs := 0\<rparr>, ctx, s)
        | None \<Rightarrow> Some (int (length xs), f\<lparr>rawofs := offset, written := True\<rparr>, set_size ?k offset ctx, s)))"
    unfolding ptfile_ll_write_def set_size_def Let_def using assms(6) by (simp only: if_False)
  from space_cases [OF assms(2,3,4) q assms(8)] show ?thesis
  proof (elim disjE exE conjE)
    assume "curr_avaliable_space ctx f ?q = Some (- ENODATA, 0, 0, ctx)"
    then have "ptfile_ll_write dd xs f ctx s = Some (- ENODATA, f, ctx, s)" unfolding acc by simp
    then show ?thesis using assms(1,2) others_kept_grown [OF grown_refl] by blast
  next
    fix c assume c: "curr_avaliable_space ctx f ?q = Some (0, file_addr c ?k ?q, file_addr c ?k ?q - ?q mod 1024 + 1024, c)"
      "ptfs_ok (inode c)" "grown ?k ctx c" "?q div 1024 < cnt (inode c) ?k"
    let ?st = "file_addr c ?k ?q" and ?en = "file_addr c ?k ?q - ?q mod 1024 + 1024"
    have p0: "put ?k ?q [] ctx v c v" by (rule put_grown [OF c(3) q])
    have ins: "inside c ?k ?q ?st ?en" using c(4) by (simp add: inside_def)
    have qc: "?q \<le> 1024 * cnt (inode c) ?k" using q put_cnt [OF p0] by linarith
    have nm: "cname (meta (inode c) ! ?k) \<noteq> []" using put_names [OF p0] assms(5) by simp
    have "write_result dd contents ?k ?q xs c v (pt_write_loop dd f xs ?st ?en ?q c s)"
      by (rule write_loop_put [OF assms(4,1) c(2) put_layout [OF p0 assms(3)] disjI1 [OF ins] assms(9) qc nm])
    then have "write_result dd contents ?k (?q + length ([] :: u8 list)) xs c v (pt_write_loop dd f xs ?st ?en ?q c s)" by simp
    from write_result_put [OF this p0] obtain err q' ctx' s' v' where
      r: "pt_write_loop dd f xs ?st ?en ?q c s = Some (err, q', ctx', s')" "blk_rep dd contents s' v'" "ptfs_ok (inode ctx')"
      and cs: "err = None \<and> q' = ?q + length xs \<and> put ?k ?q xs ctx v ctx' v' \<and> q' \<le> 1024 * cnt (inode ctx') ?k \<or>
        err = Some (- ENODATA) \<and> lost ?k ctx v ctx' v'"
      unfolding write_result_def append_Nil by blast
    from cs show ?thesis
    proof (elim disjE conjE)
      assume a: "err = None" "q' = ?q + length xs" "put ?k ?q xs ctx v ctx' v'" "q' \<le> 1024 * cnt (inode ctx') ?k"
      have "ptfile_ll_write dd xs f ctx s =
          Some (int (length xs), f\<lparr>rawofs := q', written := True\<rparr>, set_size ?k q' ctx', s')"
        unfolding acc using c(1) r(1) a(1) by simp
      moreover have "ptfs_ok (inode (set_size ?k q' ctx'))" by (rule set_size_ok [OF r(3) assms(4) a(4)])
      moreover have "file_bytes (set_size ?k q' ctx') v' ?k = take ?q (file_bytes ctx v ?k) @ xs"
        unfolding a(2) by (rule put_file_bytes [OF a(3) r(3) assms(4,7)])
      moreover have "others_kept ?k ctx v (set_size ?k q' ctx') v'" "coffset (set_size ?k q' ctx') = coffset ctx"
        using others_kept_trans [OF put_others(2) [OF a(3)] set_size_others(2) [OF r(3) assms(4)]]
          set_size_others(1) [OF r(3) assms(4)] put_others(1) [OF a(3)] by simp_all
      moreover have "cname (meta (inode (set_size ?k q' ctx')) ! ?k) = cname (meta (inode ctx) ! ?k)"
        using put_names [OF a(3)] set_size_meta(6) [OF r(3) assms(4)] by simp
      ultimately show ?thesis using r(2) unfolding a(2) by blast
    next
      assume a: "err = Some (- ENODATA)" "lost ?k ctx v ctx' v'"
      have "ptfile_ll_write dd xs f ctx s = Some (- ENODATA, f\<lparr>rawofs := 0\<rparr>, ctx', s')"
        unfolding acc using c(1) r(1) a(1) by simp
      then show ?thesis using r(2,3) a(2) unfolding lost_def by blast
    qed
  qed
qed

lemma extofs_some: "p < 4096 \<Longrightarrow> \<exists>start en. extofs_to_inofs ctx f p = Some (start, en)"
proof -
  assume "p < 4096"
  then have "p div 1024 mod 256 < 4" by simp
  then show ?thesis by (auto simp: extofs_to_inofs_def Let_def split: prod.splits)
qed

lemma read_loop_bytes:
  assumes ok: "ptfs_ok (inode ctx)" and lay: "layout dd ctx" and f: "pmeta f < 4"
  shows "inside ctx (pmeta f) q start en \<or> at_end q start en \<Longrightarrow> q + sz \<le> 1024 * cnt (inode ctx) (pmeta f) \<Longrightarrow>
    pt_read_loop dd ctx f d sz start en q buf =
      Some (None, buf @ map (\<lambda>p. contents d (file_addr ctx (pmeta f) p)) [q..<q + sz], q + sz)"
proof (induction sz arbitrary: q start en buf rule: less_induct)
  case (less sz)
  let ?k = "pmeta f" and ?g = "\<lambda>p. contents d (file_addr ctx (pmeta f) p)"
  have c4: "1024 * cnt (inode ctx) ?k \<le> 4096" using ptfs_okD(3) [OF ok f] by linarith
  have step: "pt_read_loop dd ctx f d sz start en q buf = Some (None, buf @ map ?g [q..<q + sz], q + sz)"
    if ins: "inside ctx ?k q start en" and sz: "0 < sz" for start en
  proof -
    note room = inside_room [OF ok lay f ins]
    define n where "n = min (1024 - q mod 1024) sz"
    have n: "0 < n" "n \<le> 1024 - q mod 1024" "n \<le> sz" using sz by (auto simp: n_def)
    have st: "start = file_addr ctx ?k q" using ins by (simp add: inside_def)
    have fit: "start + n \<le> dlen dd" using room(2,3) n(2) by linarith
    have w: "w32 (start + n) = start + n" "w32 (q + n) = q + n" using fit room(4) n(3) less.prems(2) c4 by auto
    have mr: "mem_read (contents d) start n = map ?g [q..<q + n]"
    proof (rule nth_equalityI)
      fix i assume "i < length (mem_read (contents d) start n)"
      then have i: "i < n" by simp
      then have "file_addr ctx ?k (q + i) = start + i" unfolding st using n(2) by (intro file_addr_add) linarith
      then show "mem_read (contents d) start n ! i = map ?g [q..<q + n] ! i" using i by (simp add: nth_mem_read)
    qed simp
    have "pt_read_loop dd ctx f d sz start en q buf =
        pt_read_loop dd ctx f d (sz - n) (start + n) en (q + n) (buf @ mem_read (contents d) start n)"
      using sz n(1) w room(1) disk_read [OF fit, of d]
      by (subst pt_read_loop.simps) (simp add: Let_def n_def [symmetric])
    also have "\<dots> = Some (None, (buf @ map ?g [q..<q + n]) @ map ?g [q + n..<q + n + (sz - n)], q + n + (sz - n))"
      unfolding mr by (rule less.IH) (use n less.prems(2) inside_next [OF ins room(2) n(2)] in auto)
    finally show ?thesis using n(3) upt_add_eq_append [of q "q + n" "sz - n"] by simp
  qed
  show ?case
  proof (cases "sz = 0 \<or> inside ctx ?k q start en")
    case True
    then show ?thesis using step by (cases "sz = 0") (subst pt_read_loop.simps, simp_all)
  next
    case False
    then have sz: "0 < sz" and ae: "at_end q start en" using less.prems(1) by auto
    have q: "q div 1024 < cnt (inode ctx) ?k" using less.prems(2) sz by (intro less_mult_imp_div_less) linarith
    note ex = extofs_addr [OF ok lay f q]
    have ins: "inside ctx ?k q (file_addr ctx ?k q) (file_addr ctx ?k q - q mod 1024 + 1024)" using q by (simp add: inside_def)
    have "pt_read_loop dd ctx f d sz start en q buf =
        pt_read_loop dd ctx f d sz (file_addr ctx ?k q) (file_addr ctx ?k q - q mod 1024 + 1024) q buf"
      using sz ae ex by (subst pt_read_loop.simps) (simp add: Let_def at_end_def)
    then show ?thesis using step [OF ins sz] by simp
  qed
qed

lemma pt_read_bytes:
  assumes ok: "ptfs_ok (inode ctx)" and lay: "layout dd ctx" and f: "pmeta f < 4"
    and "oflags f AND VFS_O_MASK \<noteq> VFS_O_WRONLY" "rawofs f \<le> msize (meta (inode ctx) ! pmeta f)" "rawofs f < 4096"
  shows "\<exists>n. n = min sz (msize (meta (inode ctx) ! pmeta f) - rawofs f) \<and>
    ptfile_ll_read dd sz f ctx d =
      Some (int n, take n (drop (rawofs f) (file_bytes ctx (contents d) (pmeta f))), f\<lparr>rawofs := rawofs f + n\<rparr>)"
proof -
  let ?k = "pmeta f" and ?q = "rawofs f"
  let ?m = "msize (meta (inode ctx) ! pmeta f)"
  define n where "n = min sz (?m - ?q)"
  have m: "?m \<le> 1024 * cnt (inode ctx) ?k" "1024 * cnt (inode ctx) ?k \<le> 4096"
    using ptfs_okD(3,4) [OF ok f] by linarith+
  have "?m + 4294967296 - ?q = (?m - ?q) + 4294967296" using assms(5) by linarith
  then have "w32 (?m + 4294967296 - ?q) = w32 (?m - ?q)" by (simp only: mod_add_self2)
  also have "\<dots> = ?m - ?q" using m by simp
  finally have w: "min sz (w32 (?m + 4294967296 - ?q)) = n" by (simp add: n_def)
  obtain start en where ex: "extofs_to_inofs ctx f ?q = Some (start, en)" using extofs_some [OF assms(6)] by blast
  have bytes: "map (\<lambda>p. contents d (file_addr ctx ?k p)) [?q..<?q + n] = take n (drop ?q (file_bytes ctx (contents d) ?k))"
    using assms(5) by (simp add: file_bytes_def drop_map take_map n_def)
  have "pt_read_loop dd ctx f d n start en ?q [] = Some (None, take n (drop ?q (file_bytes ctx (contents d) ?k)), ?q + n)"
  proof (cases "n = 0")
    case True
    then show ?thesis by (subst pt_read_loop.simps) simp
  next
    case False
    have le: "?q + n \<le> 1024 * cnt (inode ctx) ?k" using m(1) assms(5) by (simp add: n_def)
    then have q: "?q div 1024 < cnt (inode ctx) ?k" using False by (intro less_mult_imp_div_less) linarith
    then have "inside ctx ?k ?q start en" using extofs_addr [OF ok lay f q] ex by (simp add: inside_def)
    then show ?thesis using read_loop_bytes [OF ok lay f disjI1 le] bytes by simp
  qed
  then have "ptfile_ll_read dd sz f ctx d =
      Some (int n, take n (drop ?q (file_bytes ctx (contents d) ?k)), f\<lparr>rawofs := ?q + n\<rparr>)"
    using assms(4) ex unfolding ptfile_ll_read_def Let_def w by simp
  then show ?thesis using n_def by blast
qed

end

lemma others_kept_bytes:
  assumes "others_kept k ctx v ctx' v'" "ptfs_ok (inode ctx)" "i < 4" "i \<noteq> k"
  shows "file_bytes ctx' v' i = file_bytes ctx v i" "cname (meta (inode ctx') ! i) = cname (meta (inode ctx) ! i)"
proof -
  have m: "meta (inode ctx') ! i = meta (inode ctx) ! i" using assms(1,3,4) by (simp add: others_kept_def)
  have "v' (file_addr ctx' i p) = v (file_addr ctx i p)" if "p < msize (meta (inode ctx) ! i)" for p
  proof -
    have "p < cnt (inode ctx) i * 1024" using that ptfs_okD(4) [OF assms(2,3)] by linarith
    then have "p div 1024 < cnt (inode ctx) i" by (rule less_mult_imp_div_less)
    then show ?thesis using assms(1,3,4) by (simp add: others_kept_def)
  qed
  then show "file_bytes ctx' v' i = file_bytes ctx v i" using m by (simp add: file_bytes_def)
  show "cname (meta (inode ctx') ! i) = cname (meta (inode ctx) ! i)" using m by simp
qed

lemma new_entry_ok:
  assumes ok: "ptfs_ok n" and k: "k < 4" and m: "i_count m = 0" "meta_ok m" "cname m \<noteq> [] \<longrightarrow> i_meta m = k + 1 \<and> bit u k"
    and u: "\<forall>y<4. y \<noteq> k \<longrightarrow> bit (f_bitmap n ! 0) y \<longrightarrow> bit u y"
  shows "ptfs_ok (n\<lparr>f_bitmap := [u], meta := (meta n)[k := m]\<rparr>)" (is "ptfs_ok ?n")
proof -
  note L = ptfs_ok_lengths [OF ok]
  have me: "meta ?n ! k = m" "i \<noteq> k \<Longrightarrow> meta ?n ! i = meta n ! i" for i using L(3) k by simp_all
  have keep: "i \<noteq> k \<and> j < cnt n i \<and> frag ?n i j = frag n i j" if "j < cnt ?n i" for i j
    using that me m(1) by (cases "i = k") auto
  show ?thesis
  proof (rule ptfs_okI [where w = "i_bitmap n ! 0"])
    show "i_bitmap ?n = [i_bitmap n ! 0]" using single_word [OF L(1)] by simp
    show "meta_ok (meta ?n ! i)" if "i < 4" for i using ok that me m(2) by (cases "i = k") (auto simp: ptfs_ok_def)
    show "2 \<le> frag ?n i j \<and> frag ?n i j \<le> 32 \<and> bit (i_bitmap n ! 0) (frag ?n i j - 1)" if "i < 4" "j < cnt ?n i" for i j
      using ptfs_okD(5-7) [OF ok that(1)] keep [OF that(2)] by simp
    show "i = i' \<and> j = j'" if "i < 4" "j < cnt ?n i" "i' < 4" "j' < cnt ?n i'" "frag ?n i j = frag ?n i' j'" for i j i' j'
    proof -
      have a: "j < cnt n i" "j' < cnt n i'" using keep that(2,4) by blast+
      have "frag n i j = frag n i' j'" using keep [OF that(2)] keep [OF that(4)] that(5) by metis
      then show ?thesis by (rule ptfs_okD(8) [OF ok that(1) a(1) that(3) a(2)])
    qed
    show "i_meta (meta ?n ! i) = i + 1 \<and> bit (f_bitmap ?n ! 0) i" if "i < 4" "cname (meta ?n ! i) \<noteq> []" for i
    proof (cases "i = k")
      case True
      then show ?thesis using that m(3) me(1) by simp
    next
      case False
      then show ?thesis using ptfs_okD(9,10) [OF ok that(1)] that me(2) [OF False] u by simp
    qed
  qed (use L in simp_all)
qed

lemma unat_of_char [simp]: "unat (of_char c :: u8) = of_char c"
proof -
  have "(of_char c :: u8) = of_nat (of_char c)" by (rule of_nat_of_char [symmetric])
  then show ?thesis by (simp only: unat_of_nat) (simp add: take_bit_eq_mod)
qed

lemma name_bytes:
  assumes "CHR 0x00 \<notin> set name"
  shows "cname (zero_meta\<lparr>i_meta := x, mname := map of_char name @ replicate n 0\<rparr>) = name"
proof -
  have nz: "(of_char c :: u8) \<noteq> 0" if "c \<in> set name" for c
  proof
    assume "(of_char c :: u8) = 0"
    then have "unat (of_char c :: u8) = 0" by simp
    then have "(of_char c :: nat) = of_char (CHR 0x00)" by simp
    then have "c = CHR 0x00" by (simp only: of_char_eq_iff)
    then show False using that assms by simp
  qed
  have "takeWhile (\<lambda>b. b \<noteq> 0) (map of_char name @ replicate n (0 :: u8)) = map of_char name"
    using nz by (subst takeWhile_append2) auto
  then show ?thesis by (simp add: cname_def comp_def)
qed

lemma pt_open_cases:
  assumes ok: "ptfs_ok (inode ctx)" and nz: "CHR 0x00 \<notin> set name"
  shows "\<exists>h err ctx'. ptfile_ll_open mem name mode ctx = Some (h, err, ctx') \<and> ptfs_ok (inode ctx') \<and>
    coffset ctx' = coffset ctx \<and> (h = None \<longleftrightarrow> err < 0) \<and>
    (\<forall>k<4. cname (meta (inode ctx) ! k) \<noteq> [] \<longrightarrow> meta (inode ctx') ! k = meta (inode ctx) ! k) \<and>
    (\<forall>f. h = Some f \<longrightarrow> pmeta f < 4 \<and> rawofs f = 0 \<and> cname (meta (inode ctx') ! pmeta f) \<in> {name, take 31 name})"
proof (cases "mem \<and> file_search (inode ctx) name = None \<and> mode AND VFS_O_CREAT \<noteq> 0")
  case False
  have found: "k < 4 \<and> cname (meta (inode ctx) ! k) = name" if "file_search (inode ctx) name = Some k" for k
    using that ptfs_ok_lengths(3) [OF ok] by (auto simp: file_search_def find_Some_iff)
  show ?thesis using False ok found
    by (auto simp: ptfile_ll_open_def Let_def split: option.splits)
next
  case True
  let ?n = "inode ctx"
  note L = ptfs_ok_lengths [OF ok]
  obtain r b where rb: "bitmap_allocate (f_bitmap ?n) = (r, b)" by fastforce
  have bw: "bitmap_allocate [f_bitmap ?n ! 0] = (r, b)" using rb single_word [OF L(2)] by simp
  have al: "fnode_allocate ?n = (r, ?n\<lparr>f_bitmap := b\<rparr>)" using rb by (simp add: fnode_allocate_def)
  from bitmap_allocate_word [OF bw] show ?thesis
  proof (elim disjE exE conjE)
    assume a: "r = 0" "b = [f_bitmap ?n ! 0]"
    then have "ctx\<lparr>inode := ?n\<lparr>f_bitmap := b\<rparr>\<rparr> = ctx" using single_word [OF L(2)] by simp
    then have "ptfile_ll_open mem name mode ctx = Some (None, - EBUSY, ctx)"
      using True a al by (simp add: ptfile_ll_open_def Let_def)
    then show ?thesis using ok by simp
  next
    fix i w assume w: "i < 32" "\<not> bit (f_bitmap ?n ! 0) i" "r = int i + 1" "b = [w]"
      "\<forall>y<32. bit w y \<longleftrightarrow> bit (f_bitmap ?n ! 0) y \<or> y = i"
    show ?thesis
    proof (cases "i < 4")
      case i4: True
      let ?m = "zero_meta\<lparr>i_meta := i + 1, mname := map of_char (take 31 name) @ replicate (32 - length (take 31 name)) 0\<rparr>"
      let ?c = "ctx\<lparr>inode := ?n\<lparr>f_bitmap := [w], meta := (meta ?n)[i := ?m]\<rparr>\<rparr>"
      have nm: "cname ?m = take 31 name" by (rule name_bytes) (use nz in_set_takeD in fast)
      have "ptfs_ok (inode ?c)"
        using new_entry_ok [OF ok i4, of ?m w] w(5) i4 by (simp add: zero_meta_def meta_ok_def)
      moreover have "cname (meta ?n ! i) = []" using ptfs_okD(10) [OF ok i4] w(2) by blast
      then have "\<forall>k<4. cname (meta ?n ! k) \<noteq> [] \<longrightarrow> meta (inode ?c) ! k = meta ?n ! k"
        using L(3) i4 by (auto simp: nth_list_update)
      moreover have "ptfile_ll_open mem name mode ctx =
          Some (Some \<lparr>pmeta = i, rawofs = 0, oflags = (mode AND VFS_O_MASK) OR PFLILE_O_FLAGS, written = False\<rparr>, 0, ?c)"
        using True al w(3,4) i4 by (simp add: ptfile_ll_open_def Let_def nat_add_distrib)
      ultimately show ?thesis using nm i4 L(3) by simp
    next
      case i4: False
      obtain u where u: "bitmap_free [w] (int (i + 1)) = Some [u]" "\<forall>y<32. bit u y \<longleftrightarrow> bit w y \<and> y \<noteq> i"
        using bitmap_free_word [of "i + 1" w] w(1) by auto
      have fu: "fnode_free r (?n\<lparr>f_bitmap := b\<rparr>) = Some (?n\<lparr>f_bitmap := [u]\<rparr>)"
        using u(1) w(3,4) by (simp add: fnode_free_def add.commute)
      have bits: "bit u y \<longleftrightarrow> bit (f_bitmap ?n ! 0) y" if "y < 32" for y using u(2) w(2,5) that by auto
      have "ptfs_ok (?n\<lparr>f_bitmap := [u]\<rparr>)"
        using ok bits single_word [OF L(1)] unfolding ptfs_ok_def by simp
      moreover have "ptfile_ll_open mem name mode ctx = Some (None, - ENFILE, ctx\<lparr>inode := ?n\<lparr>f_bitmap := [u]\<rparr>\<rparr>)"
        using True al w(3) i4 fu by (simp add: ptfile_ll_open_def Let_def)
      ultimately show ?thesis by simp
    qed
  qed
qed

lemma pt_unlink_cases:
  assumes ok: "ptfs_ok (inode ctx)"
  shows "\<exists>err ctx'. ptfile_ll_unlink (Some name) (Some ctx) = Some (err, Some ctx') \<and> ptfs_ok (inode ctx') \<and>
    (case file_search (inode ctx) name of None \<Rightarrow> err = - ENODATA \<and> ctx' = ctx | Some k \<Rightarrow> err = 0 \<and> cleared k ctx ctx')"
proof (cases "file_search (inode ctx) name")
  case None
  then show ?thesis using ok by (simp add: ptfile_ll_unlink_def)
next
  case (Some k)
  then have k: "k < 4" "cname (meta (inode ctx) ! k) \<noteq> []"
    using ptfs_ok_lengths(3) [OF ok] by (auto simp: file_search_def find_Some_iff)
  obtain ctx' where c: "file_metadata_clear_locked k ctx = Some ctx'" "ptfs_ok (inode ctx')" "cleared k ctx ctx'"
    using clear_ok [OF ok k] by blast
  have "inode (do_dirty (cdirty ctx') ctx') = inode ctx'" "coffset (do_dirty (cdirty ctx') ctx') = coffset ctx'"
    by (simp_all add: do_dirty_def)
  then show ?thesis using Some c by (simp add: ptfile_ll_unlink_def cleared_def)
qed

lemma reset_ok: "ptfs_ok (inode (ptfile_ll_reset ctx))"
  by (simp add: ptfile_ll_reset_def Let_def do_dirty_def ptfs_ok_def nth_Cons')

text \<open>The index on the disk: the fields have the sizes of their C types.\<close>

definition meta_fits :: "file_metadata \<Rightarrow> bool" where
  "meta_fits m \<longleftrightarrow> mtime m < 4294967296 \<and> (\<forall>x\<in>set (i_frag m). x < 65536) \<and> i_meta m < 256 \<and> mpad m < 256 \<and>
     chksum m < 65536 \<and> permision m < 65536"

definition inode_fits :: "ptfs_inode \<Rightarrow> bool" where
  "inode_fits n \<longleftrightarrow> imagic n < 4294967296 \<and> hcrc n < 65536 \<and> nfiles n < 65536 \<and> (\<forall>m\<in>set (meta n). meta_fits m)"

lemma unpack_pack_append: "list_all2 (\<lambda>w x. x < 256 ^ w) ws xs \<Longrightarrow> unpack ws (pack ws xs @ r) = xs"
  by (induction ws xs rule: list_all2_induct) (auto simp: le_nat_le_bytes)

lemma list_of_4: "length xs = 4 \<Longrightarrow> \<exists>a b c d. xs = [a, b, c, d]"
  by (auto simp: numeral_eq_Suc length_Suc_conv)

lemma meta_of_bytes_append:
  assumes "meta_ok m" "meta_fits m"
  shows "meta_of_bytes (meta_bytes m @ r) = m" "length (meta_bytes m) = 56"
proof -
  have "length (i_frag m) = 4" using assms(1) by (simp add: meta_ok_def)
  then obtain a b c d where f: "i_frag m = [a, b, c, d]" using list_of_4 by blast
  let ?ws = "[4, 4, 2, 2, 2, 2, 2, 1, 1, 2, 2] :: nat list"
  let ?xs = "[msize m, mtime m, a, b, c, d, i_count m, i_meta m, mpad m, chksum m, permision m]"
  have l: "length (mname m) = 32" using assms(1) by (simp add: meta_ok_def)
  have eqs: "meta_bytes m = mname m @ pack ?ws ?xs" by (simp add: meta_bytes_def f del: pack.simps)
  have "msize m < 4294967296" "i_count m < 65536" using assms(1) by (simp_all add: meta_ok_def)
  then have "list_all2 (\<lambda>w x. x < 256 ^ w) ?ws ?xs" using assms(2) f by (simp add: meta_fits_def)
  then have u: "unpack ?ws (pack ?ws ?xs @ r) = ?xs" by (rule unpack_pack_append)
  have "drop 32 (meta_bytes m @ r) = pack ?ws ?xs @ r" "take 32 (meta_bytes m @ r) = mname m"
    unfolding eqs using l by (simp_all del: pack.simps)
  then show "meta_of_bytes (meta_bytes m @ r) = m"
    unfolding meta_of_bytes_def Let_def by (simp only: u) (simp add: f)
  have "length (pack ?ws ?xs) = sum_list ?ws" by (rule length_pack) simp
  then show "length (meta_bytes m) = 56" unfolding eqs using l by (simp del: pack.simps)
qed

lemma inode_of_bytes_inverse:
  assumes "ptfs_ok n" "inode_fits n"
  shows "inode_of_bytes (inode_bytes n) = n" "length (inode_bytes n) = 240"
proof -
  note L = ptfs_ok_lengths [OF assms(1)]
  obtain a b c d where m: "meta n = [a, b, c, d]" using list_of_4 [OF L(3)] by blast
  have ok: "meta_ok a" "meta_ok b" "meta_ok c" "meta_ok d"
  proof -
    have "meta_ok (meta n ! i)" if "i < 4" for i using assms(1) that by (simp add: ptfs_ok_def)
    from this [of 0] this [of 1] this [of 2] this [of 3] show "meta_ok a" "meta_ok b" "meta_ok c" "meta_ok d"
      using m by simp_all
  qed
  have ft: "meta_fits a" "meta_fits b" "meta_fits c" "meta_fits d" using assms(2) m by (auto simp: inode_fits_def)
  let ?ws = "[4, 2, 2, 4, 4] :: nat list"
  let ?xs = "[imagic n, hcrc n, nfiles n, unat (i_bitmap n ! 0), unat (f_bitmap n ! 0)]"
  let ?p = "pack ?ws ?xs"
  have lp: "length ?p = 16" by (subst length_pack) simp_all
  have eqs: "inode_bytes n = ?p @ meta_bytes a @ meta_bytes b @ meta_bytes c @ meta_bytes d"
    by (simp add: inode_bytes_def m del: pack.simps)
  have "list_all2 (\<lambda>w x. x < 256 ^ w) ?ws ?xs"
    using assms(2) unat_less_2p32 [of "i_bitmap n ! 0"] unat_less_2p32 [of "f_bitmap n ! 0"] by (simp add: inode_fits_def)
  then have u: "unpack ?ws (inode_bytes n) = ?xs" unfolding eqs by (rule unpack_pack_append)
  note A = meta_of_bytes_append [OF ok(1) ft(1)] and B = meta_of_bytes_append [OF ok(2) ft(2)]
    and C = meta_of_bytes_append [OF ok(3) ft(3)] and D = meta_of_bytes_append [OF ok(4) ft(4)]
  have dr: "drop (16 + 56 * 0) (inode_bytes n) = meta_bytes a @ meta_bytes b @ meta_bytes c @ meta_bytes d"
    "drop (16 + 56 * 1) (inode_bytes n) = meta_bytes b @ meta_bytes c @ meta_bytes d"
    "drop (16 + 56 * 2) (inode_bytes n) = meta_bytes c @ meta_bytes d"
    "drop (16 + 56 * 3) (inode_bytes n) = meta_bytes d @ []"
    unfolding eqs using lp A(2) B(2) C(2) by (simp_all del: pack.simps)
  show "length (inode_bytes n) = 240" unfolding eqs using lp A(2) B(2) C(2) D(2) by (simp del: pack.simps)
  have "map (\<lambda>i. meta_of_bytes (drop (16 + 56 * i) (inode_bytes n))) [0, 1, 2, 3] = meta n"
    unfolding m list.map dr by (simp only: A(1) B(1) C(1) D(1))
  then show "inode_of_bytes (inode_bytes n) = n"
    unfolding inode_of_bytes_def Let_def u using single_word [OF L(1)] single_word [OF L(2)] by simp
qed

lemma index_keeps_files:
  assumes "ptfs_ok (inode ctx)" "layout dd ctx" "k < 4" "length xs \<le> 1024"
  shows "file_bytes ctx (mem_write v (coffset ctx) xs) k = file_bytes ctx v k"
proof -
  have "mem_write v (coffset ctx) xs (file_addr ctx k p) = v (file_addr ctx k p)" if "p < msize (meta (inode ctx) ! k)" for p
  proof -
    have "p < cnt (inode ctx) k * 1024" using that ptfs_okD(4) [OF assms(1,3)] by linarith
    then have "p div 1024 < cnt (inode ctx) k" by (rule less_mult_imp_div_less)
    from file_addr_bounds(1) [OF assms(1-3) this] show ?thesis using assms(4) by (intro mem_write_out) linarith
  qed
  then show ?thesis by (simp add: file_bytes_def)
qed

section \<open>Properties\<close>

text \<open>
  C15. The well-formedness of the index is kept by every operation that changes it on its own: blocks are owned
  once, are marked in the bitmap and never are the block of the index. Opening, unlinking and resetting return on every
  such index; opening keeps all files there are and gives a handle to the file of that name (cut to 31 characters
  where it is new), unlinking removes the first file of that name and no other.
\<close>

theorem ptfs_index_well_formed:
  assumes "ptfs_ok (inode ctx)" "CHR 0x00 \<notin> set name"
  shows "(\<exists>h err ctx'. ptfile_ll_open mem name mode ctx = Some (h, err, ctx') \<and> ptfs_ok (inode ctx') \<and>
      coffset ctx' = coffset ctx \<and> (h = None \<longleftrightarrow> err < 0) \<and>
      (\<forall>k<4. cname (meta (inode ctx) ! k) \<noteq> [] \<longrightarrow> meta (inode ctx') ! k = meta (inode ctx) ! k) \<and>
      (\<forall>f. h = Some f \<longrightarrow> pmeta f < 4 \<and> rawofs f = 0 \<and> cname (meta (inode ctx') ! pmeta f) \<in> {name, take 31 name})) \<and>
    (\<exists>err ctx'. ptfile_ll_unlink (Some name) (Some ctx) = Some (err, Some ctx') \<and> ptfs_ok (inode ctx') \<and>
      (case file_search (inode ctx) name of None \<Rightarrow> err = - ENODATA \<and> ctx' = ctx | Some k \<Rightarrow> err = 0 \<and> cleared k ctx ctx')) \<and>
    ptfs_ok (inode (ptfile_ll_reset ctx))"
  using pt_open_cases [OF assms] pt_unlink_cases [OF assms(1)] reset_ok by blast

text \<open>A context with the empty file \<open>a\<close>, open for reading and writing, on an erased virtual flash.\<close>

definition example_ctx :: ptfs_context where
  "example_ctx = \<lparr>inode = \<lparr>imagic = MESSAGE_MAGIC, hcrc = 0, nfiles = 0, i_bitmap = [1], f_bitmap = [1],
       meta = [zero_meta\<lparr>mname := 97 # replicate 31 0, i_meta := 1\<rparr>, zero_meta, zero_meta, zero_meta]\<rparr>,
     ptimer = None, coffset = 0, cdirty = True\<rparr>"

definition example_file :: ptfs_file where
  "example_file = \<lparr>pmeta = 0, rawofs = 0, oflags = 0x10002, written = False\<rparr>"

lemma example_ptfs:
  "cname (meta (inode example_ctx) ! 0) = ''a''" "ptfs_ok (inode example_ctx)" "layout vdisk example_ctx"
  "inode_fits (inode example_ctx)"
proof -
  have "char_of (97 :: nat) = CHR ''a''" by code_simp
  then show "cname (meta (inode example_ctx) ! 0) = ''a''" by (simp add: example_ctx_def cname_def)
  show "ptfs_ok (inode example_ctx)"
  proof (rule ptfs_okI [where w = 1])
    have m: "meta (inode example_ctx) ! k = (if k = 0 then zero_meta\<lparr>mname := 97 # replicate 31 0, i_meta := 1\<rparr> else zero_meta)"
      if "k < 4" for k using that by (auto simp: example_ctx_def nth_Cons')
    show "meta_ok (meta (inode example_ctx) ! k)" if "k < 4" for k using m [OF that] by (simp add: meta_ok_def zero_meta_def)
    show "2 \<le> frag (inode example_ctx) k j \<and> frag (inode example_ctx) k j \<le> 32 \<and> bit 1 (frag (inode example_ctx) k j - 1)"
      if "k < 4" "j < cnt (inode example_ctx) k" for k j using that m [OF that(1)] by (simp split: if_splits)
    show "k = k' \<and> j = j'" if "k < 4" "j < cnt (inode example_ctx) k" for k j k' j' using that m [OF that(1)] by (simp split: if_splits)
    show "i_meta (meta (inode example_ctx) ! k) = k + 1 \<and> bit (f_bitmap (inode example_ctx) ! 0) k"
      if "k < 4" "cname (meta (inode example_ctx) ! k) \<noteq> []" for k
      using that m [OF that(1)] by (simp add: example_ctx_def split: if_splits)
  qed (simp_all add: example_ctx_def)
  show "layout vdisk example_ctx" by (simp add: layout_def example_ctx_def vdisk_def)
  show "inode_fits (inode example_ctx)" by (simp add: inode_fits_def meta_fits_def example_ctx_def zero_meta_def)
qed

theorem ptfs_index_well_formed_witness:
  "\<exists>err ctx'. ptfile_ll_unlink (Some ''a'') (Some example_ctx) = Some (err, Some ctx') \<and> ptfs_ok (inode ctx')"
  using ptfs_index_well_formed [OF example_ptfs(2), of "''a''" True 2] by auto


lemma example_write:
  "pmeta example_file < 4" "cname (meta (inode example_ctx) ! pmeta example_file) \<noteq> []"
  "oflags example_file AND VFS_O_MASK \<noteq> VFS_O_RDONLY" "oflags example_file AND VFS_O_MASK \<noteq> VFS_O_WRONLY"
  "oflags example_file AND PFLILE_O_FLAGS \<noteq> 0" "rawofs example_file = 0"
  using example_ptfs(1) by (simp_all add: example_file_def)


lemma do_dirty_same [simp]: "inode (do_dirty b ctx) = inode ctx" "coffset (do_dirty b ctx) = coffset ctx"
  by (simp_all add: do_dirty_def)

lemma file_bytes_cong:
  "inode c = inode c' \<Longrightarrow> coffset c = coffset c' \<Longrightarrow> file_bytes c v k = file_bytes c' v k"
  by (simp add: file_bytes_def file_addr_def)

text \<open>
  C37. What is written is read back once the file has been closed: closing after a write that succeeded puts the
  cache on the disk, and a read of as many bytes from the same position, which goes to the disk directly, returns them.
\<close>

theorem ptfs_write_close_read:
  assumes "flash_disk dd contents" "blk_rep dd contents s v" "ptfs_ok (inode ctx)" "layout dd ctx" "pmeta f < 4"
    and "cname (meta (inode ctx) ! pmeta f) \<noteq> []" "oflags f AND VFS_O_MASK \<noteq> VFS_O_RDONLY"
    and "rawofs f \<le> msize (meta (inode ctx) ! pmeta f)" "rawofs f < 4096" "rawofs f + length xs \<le> 4096"
    and "ptfile_ll_write dd xs f ctx s = Some (int (length xs), f', ctx', s')" "oflags f AND PFLILE_O_FLAGS \<noteq> 0"
    and "pmeta g = pmeta f" "rawofs g = rawofs f" "oflags g AND VFS_O_MASK \<noteq> VFS_O_WRONLY"
  shows "\<exists>ctx2 s2. ptfile_ll_close dd (Some f') (Some ctx') s' = (0, Some ctx2, s2) \<and>
    ptfile_ll_read dd (length xs) g ctx2 (snd s2) = Some (int (length xs), xs, g\<lparr>rawofs := rawofs g + length xs\<rparr>)"
proof -
  let ?k = "pmeta f" and ?q = "rawofs f"
  obtain v' where w: "blk_rep dd contents s' v'" "ptfs_ok (inode ctx')" "coffset ctx' = coffset ctx"
      "f' = f\<lparr>rawofs := ?q + length xs, written := True\<rparr>" "file_bytes ctx' v' ?k = take ?q (file_bytes ctx v ?k) @ xs"
    using flash_disk.pt_write_cases [OF assms(1-10)] assms(11) by auto
  obtain b d where s': "s' = (b, d)" by (cases s')
  have "blk_rep dd contents (b, d) v'" using w(1) s' by simp
  from flash_disk.simple_blkdev_sync_rep [OF assms(1) this, of False] obtain b2 d2 where
    sy: "simple_blkdev_sync [(dd, b, d)] = ((if dirty_list b = [] then 0 else int (blk_size dd)), [(dd, b2, d2)])"
      "contents d2 = v'" unfolding simple_blkdev_sync_def by blast
  let ?c = "do_dirty (cdirty ctx') ctx'"
  have cl: "ptfile_ll_close dd (Some f') (Some ctx') s' = (0, Some ?c, (b2, d2))"
    using assms(12) sy(1) by (simp add: ptfile_ll_close_def w(4) s')
  have fb: "file_bytes ?c (contents d2) ?k = take ?q (file_bytes ctx v ?k) @ xs"
    using w(5) sy(2) file_bytes_cong [of ?c ctx' v' ?k] by simp
  have lq: "length (take ?q (file_bytes ctx v ?k)) = ?q" using assms(8) by (simp add: file_bytes_def)
  have sz: "msize (meta (inode ?c) ! ?k) = ?q + length xs"
    using arg_cong [OF fb, of length] lq by (simp add: file_bytes_def)
  have lay: "layout dd ?c" using assms(4) w(3) by (simp add: layout_def)
  have "ptfile_ll_read dd (length xs) g ?c d2 = Some (int (length xs),
      take (length xs) (drop ?q (file_bytes ?c (contents d2) ?k)), g\<lparr>rawofs := ?q + length xs\<rparr>)"
    using flash_disk.pt_read_bytes [OF assms(1) _ lay, of g "length xs" d2] w(2) sz assms(5,9,13,14,15) by simp
  then show ?thesis using cl fb lq assms(14) by simp
qed

lemma example_write_succeeds:
  "\<exists>f' ctx' s'. ptfile_ll_write vdisk [1, 2, 3] example_file example_ctx (example_bdev, \<lambda>_. 0xFF) = Some (3, f', ctx', s')"
proof -
  have al: "bitmap_allocate [1] = (2, [3])" by code_simp
  obtain c where c: "curr_avaliable_space example_ctx example_file 0 = Some (0, 1024, 2048, c)"
    by (auto simp: curr_avaliable_space_def inode_allocate_def extofs_to_inofs_def idx_to_offset_def Let_def al
        example_ctx_def example_file_def zero_meta_def)
  have "1024 + length [1, 2, 3 :: u8] \<le> dlen vdisk" by (simp add: vdisk_def)
  from vflash.simple_blkdev_write_rep [OF example_blk_rep this] obtain s' where
    s': "simple_blkdev_write vdisk [1, 2, 3] 1024 (example_bdev, \<lambda>_. 0xFF) = Some (3, s')" by auto
  have "pt_write_loop vdisk example_file [1, 2, 3] 1024 2048 0 c (example_bdev, \<lambda>_. 0xFF) = Some (None, 3, c, s')"
    by (subst pt_write_loop.simps, subst pt_write_loop.simps) (simp add: Let_def s')
  then show ?thesis using c example_write(3,6) by (simp add: ptfile_ll_write_def Let_def)
qed

theorem ptfs_write_close_read_witness:
  "\<exists>f' ctx' s' ctx2 s2.
     ptfile_ll_write vdisk [1, 2, 3] example_file example_ctx (example_bdev, \<lambda>_. 0xFF) = Some (3, f', ctx', s') \<and>
     ptfile_ll_close vdisk (Some f') (Some ctx') s' = (0, Some ctx2, s2) \<and>
     ptfile_ll_read vdisk 3 example_file ctx2 (snd s2) = Some (3, [1, 2, 3], example_file\<lparr>rawofs := 3\<rparr>)"
proof -
  obtain f' ctx' s' where w: "ptfile_ll_write vdisk [1, 2, 3] example_file example_ctx (example_bdev, \<lambda>_. 0xFF) =
      Some (3, f', ctx', s')" using example_write_succeeds by blast
  then have w3: "ptfile_ll_write vdisk [1, 2, 3] example_file example_ctx (example_bdev, \<lambda>_. 0xFF) =
      Some (int (length [1, 2, 3 :: u8]), f', ctx', s')" by simp
  have p: "rawofs example_file \<le> msize (meta (inode example_ctx) ! pmeta example_file)" "rawofs example_file < 4096"
    "rawofs example_file + length [1, 2, 3 :: u8] \<le> 4096" using example_write(6) by simp_all
  from ptfs_write_close_read [OF vflash.flash_disk_axioms example_blk_rep example_ptfs(2,3) example_write(1-3) p w3
      example_write(5) refl refl example_write(4)]
  show ?thesis using w example_write(6) by (auto simp: numeral_3_eq_3)
qed



text \<open>
  Blocks are not limited to the size of the file system: with four blocks in use the next one is behind its 4096 bytes.
\<close>

lemma ptfs_allocates_behind_region:
  assumes "i_bitmap (inode ctx) = [0xF]" "meta (inode ctx) ! pmeta f = zero_meta" "length (meta (inode ctx)) = 4"
    and "pmeta f < 4" "coffset ctx < 2147483648"
  shows "\<exists>ctx'. curr_avaliable_space ctx f 0 = Some (0, coffset ctx + 4096, coffset ctx + 5120, ctx')"
proof -
  have al: "bitmap_allocate [0xF] = (5, [0x1F])" by code_simp
  show ?thesis using assms
    by (simp add: curr_avaliable_space_def inode_allocate_def extofs_to_inofs_def idx_to_offset_def Let_def al zero_meta_def)
qed

end
