(* ===== verification/Ahash.thy ===== *)
theory Ahash
  imports Linked_List
begin

text \<open>
  The hash table of \<open>container/ahash.c\<close>: a fixed pool of nodes, chained into buckets by the hash lists of
  \<open>container/list.h\<close> while they are in use. The link of the free list is the first word of a node, which is the
  \<open>next\<close> of its list node. Addresses are 32-bit values and the buffer does not
  wrap around. None is a failed assertion, a NULL dereference, an undefined
  shift, or a loop that does not end. A visitor does not change the table.
\<close>

section \<open>Definitions\<close>

record ahash =
  slots :: ptr
  logsize :: nat
  logmask :: nat
  freelist :: ptr
  hsize :: nat
  freends :: ptr
  hmem :: hheap
  hkey :: "ptr \<Rightarrow> nat"

text \<open>The address of a bucket; a bucket has four bytes.\<close>

definition slot_addr :: "ahash \<Rightarrow> nat \<Rightarrow> ptr" where
  "slot_addr a i = slots a + 4 * i"

definition ahash_hash_key :: "ahash \<Rightarrow> nat \<Rightarrow> nat" where
  "ahash_hash_key a addr = (addr XOR drop_bit (logsize a) addr) AND logmask a"

definition node_alloc :: "ahash \<Rightarrow> (ptr \<times> ahash) option" where
  "node_alloc a =
     (let newnode = freelist a
      in if newnode = NULL then None else Some (newnode, a\<lparr>freelist := hnext (hmem a) newnode\<rparr>))"

definition node_free :: "ptr \<Rightarrow> ahash \<Rightarrow> ahash" where
  "node_free p a = a\<lparr>hmem := set_hlink (HNext p) (freelist a) (hmem a), freelist := p\<rparr>"

text \<open>The node is what is stored through \<open>pnode\<close>.\<close>

definition ahash_add :: "nat \<Rightarrow> ahash \<Rightarrow> (int \<times> ptr \<times> ahash) option" where
  "ahash_add key a =
     Option.bind (node_alloc a) (\<lambda>(newn, a).
       let ofs = ahash_hash_key a key
       in Some (0, newn, a\<lparr>hmem := rte_hlist_add_head newn (slot_addr a ofs) (hmem a), hkey := (hkey a)(newn := key)\<rparr>))"

partial_function (option) find_loop :: "nat \<Rightarrow> ptr \<Rightarrow> ahash \<Rightarrow> ptr option" where
  "find_loop key pos a =
     (if pos = NULL then Some NULL
      else if hkey a pos = key then Some pos
      else find_loop key (hnext (hmem a) pos) a)"

definition ahash_find :: "nat \<Rightarrow> ahash \<Rightarrow> ptr option" where
  "ahash_find key a = find_loop key (hfirst (hmem a) (slot_addr a (ahash_hash_key a key))) a"

definition ahash_del :: "ptr \<Rightarrow> ahash \<Rightarrow> ahash" where
  "ahash_del p a = node_free p (a\<lparr>hmem := rte_hlist_del p (hmem a)\<rparr>)"

text \<open>The visits of a bucket: the loop over it ends when the visitor returns false.\<close>

partial_function (option) visit_slot :: "(ptr \<Rightarrow> 'w \<Rightarrow> bool \<times> 'w) \<Rightarrow> ptr \<Rightarrow> ahash \<Rightarrow> 'w \<Rightarrow> 'w option" where
  "visit_slot visitor pos a w =
     (if pos = NULL then Some w
      else let (go, w) = visitor pos w in if \<not> go then Some w else visit_slot visitor (hnext (hmem a) pos) a w)"

fun visit_loop :: "(ptr \<Rightarrow> 'w \<Rightarrow> bool \<times> 'w) \<Rightarrow> nat list \<Rightarrow> ahash \<Rightarrow> 'w \<Rightarrow> 'w option" where
  "visit_loop visitor [] a w = Some w"
| "visit_loop visitor (i # is) a w =
     Option.bind (visit_slot visitor (hfirst (hmem a) (slot_addr a i)) a w) (visit_loop visitor is a)"

definition ahash_visit :: "(ptr \<Rightarrow> 'w \<Rightarrow> bool \<times> 'w) option \<Rightarrow> ahash option \<Rightarrow> 'w \<Rightarrow> 'w option" where
  "ahash_visit visitor header w =
     (case header of
        None \<Rightarrow> None
      | Some a \<Rightarrow>
          (case visitor of None \<Rightarrow> Some w | Some v \<Rightarrow> visit_loop v [0..<2 ^ logsize a] a w))"

text \<open>The free list over the nodes of the buffer, built by pushing every node.\<close>

fun init_loop :: "nat \<Rightarrow> nat \<Rightarrow> ptr \<Rightarrow> ahash \<Rightarrow> ptr \<times> ahash" where
  "init_loop node_size 0 p a = (p, a)"
| "init_loop node_size (Suc n) p a =
     init_loop node_size n (p + node_size) (a\<lparr>hmem := set_hlink (HNext p) (freelist a) (hmem a), freelist := p\<rparr>)"

text \<open>
  \<open>a\<close> has the memory before; \<open>memset\<close> clears the links of the buffer. A node has at least 12 bytes. The mask is a
  16-bit field.
\<close>

definition clear_mem :: "ptr \<Rightarrow> nat \<Rightarrow> hheap \<Rightarrow> hheap" where
  "clear_mem buffer sz h =
     (let inb = (\<lambda>p. buffer \<le> p \<and> p < buffer + sz)
      in \<lparr>hfirst = (\<lambda>p. if inb p then NULL else hfirst h p), hnext = (\<lambda>p. if inb p then NULL else hnext h p),
         hpprev = (\<lambda>p. if inb p then HNull else hpprev h p)\<rparr>)"

definition ahash_init :: "bool \<Rightarrow> ptr \<Rightarrow> nat \<Rightarrow> nat \<Rightarrow> nat \<Rightarrow> ahash \<Rightarrow> (int \<times> ahash) option" where
  "ahash_init header buffer sz node_size logsz a =
     (if \<not> header \<or> buffer = NULL then Some (- EINVAL, a)
      else if node_size < 12 then Some (- EINVAL, a)
      else
        let logsz = (if logsz = 0 then 4 else logsz)
        in if logsz AND (logsz - 1) \<noteq> 0 then Some (- EINVAL, a)
           else if logsz \<ge> 31 then None
           else
             let bsize = (2 ^ logsz * 4) mod 4294967296
             in if sz < (node_size + bsize) mod 4294967296 then Some (- EINVAL, a)
                else
                  let a = \<lparr>slots = NULL, logsize = 0, logmask = 0, freelist = NULL, hsize = 0, freends = NULL,
                        hmem = clear_mem buffer sz (hmem a), hkey = (\<lambda>p. if buffer \<le> p \<and> p < buffer + sz then 0 else hkey a p)\<rparr>;
                      maxitems = (sz - bsize) div node_size;
                      (p, a) = init_loop node_size maxitems buffer a
                  in Some (0, a\<lparr>freends := buffer, slots := p, hsize := maxitems, logsize := logsz mod 65536,
                       logmask := (2 ^ logsz - 1) mod 65536\<rparr>))"

section \<open>Lemmas\<close>

fun fchain :: "hheap \<Rightarrow> ptr \<Rightarrow> ptr list \<Rightarrow> bool" where
  "fchain h p [] = (p = NULL)"
| "fchain h p (x # xs) = (p = x \<and> x \<noteq> NULL \<and> fchain h (hnext h x) xs)"

text \<open>
  What a table means: \<open>tbl i\<close> are the nodes of bucket \<open>i\<close>, each with a key of that hash, and \<open>free\<close> those of the
  free list; they share no node.
\<close>

definition ahash_rep :: "ahash \<Rightarrow> (nat \<Rightarrow> ptr list) \<Rightarrow> ptr list \<Rightarrow> bool" where
  "ahash_rep a tbl free \<longleftrightarrow> logmask a = 2 ^ logsize a - 1 \<and>
     (\<forall>i<2 ^ logsize a. bucket (hmem a) (slot_addr a i) (tbl i) \<and> set (tbl i) \<inter> set free = {} \<and>
        (\<forall>n\<in>set (tbl i). ahash_hash_key a (hkey a n) = i) \<and>
        (\<forall>j<2 ^ logsize a. i \<noteq> j \<longrightarrow> set (tbl i) \<inter> set (tbl j) = {})) \<and>
     fchain (hmem a) (freelist a) free \<and> distinct free"

lemma hash_bound: "logmask a = 2 ^ logsize a - 1 \<Longrightarrow> ahash_hash_key a key < 2 ^ logsize a"
proof -
  assume "logmask a = 2 ^ logsize a - 1"
  then have "logmask a = mask (logsize a)" by (simp add: mask_eq_exp_minus_1)
  then have "ahash_hash_key a key = take_bit (logsize a) (key XOR drop_bit (logsize a) key)"
    by (simp add: ahash_hash_key_def take_bit_eq_mask)
  then show ?thesis by (simp only: take_bit_nat_less_exp)
qed

lemma fchain_frame:
  "fchain h p xs \<Longrightarrow> \<forall>x\<in>set xs. hnext h' x = hnext h x \<Longrightarrow> fchain h' p xs"
  by (induction xs arbitrary: p) auto

lemma fchain_NULL: "fchain h p xs \<Longrightarrow> NULL \<notin> set xs"
  by (induction xs arbitrary: p) auto

lemma bucket_frame:
  assumes "bucket h b xs" "hfirst h' b = hfirst h b"
    and "\<forall>x\<in>set xs. hnext h' x = hnext h x" "\<forall>x\<in>set xs. hpprev h' x = hpprev h x"
  shows "bucket h' b xs"
  using assms hchain_frame [of h "HFirst b" "hfirst h b" xs h'] by (simp add: bucket_def)

lemma bucket_first: "bucket h b xs \<Longrightarrow> hfirst h b \<noteq> NULL \<Longrightarrow> hfirst h b \<in> set xs"
  by (cases xs) (auto simp: bucket_def)

lemma add_head_other:
  "c \<noteq> b \<Longrightarrow> hfirst (rte_hlist_add_head n b h) c = hfirst h c"
  "x \<noteq> n \<Longrightarrow> hnext (rte_hlist_add_head n b h) x = hnext h x"
  "x \<noteq> n \<Longrightarrow> hfirst h b = NULL \<or> x \<noteq> hfirst h b \<Longrightarrow> hpprev (rte_hlist_add_head n b h) x = hpprev h x"
  by (auto simp: rte_hlist_add_head_def Let_def set_pprev_def)

lemma find_loop_chain:
  "hchain (hmem a) l pos xs \<Longrightarrow>
   find_loop key pos a = Some (case find (\<lambda>n. hkey a n = key) xs of None \<Rightarrow> NULL | Some n \<Rightarrow> n)"
proof (induction xs arbitrary: l pos)
  case Nil
  then show ?case by (subst find_loop.simps) simp
next
  case (Cons x xs)
  then show ?case by (subst find_loop.simps) auto
qed

lemma ahash_find_rep:
  assumes "ahash_rep a tbl free"
  shows "ahash_find key a = Some (case find (\<lambda>n. hkey a n = key) (tbl (ahash_hash_key a key)) of None \<Rightarrow> NULL | Some n \<Rightarrow> n)"
proof -
  have "ahash_hash_key a key < 2 ^ logsize a" using assms hash_bound by (simp add: ahash_rep_def)
  then have "bucket (hmem a) (slot_addr a (ahash_hash_key a key)) (tbl (ahash_hash_key a key))"
    using assms by (simp add: ahash_rep_def)
  then show ?thesis unfolding ahash_find_def bucket_def using find_loop_chain by blast
qed

lemma ahash_repD:
  assumes "ahash_rep a tbl free" "i < 2 ^ logsize a"
  shows "bucket (hmem a) (slot_addr a i) (tbl i)" "set (tbl i) \<inter> set free = {}"
    "n \<in> set (tbl i) \<Longrightarrow> ahash_hash_key a (hkey a n) = i"
    "j < 2 ^ logsize a \<Longrightarrow> i \<noteq> j \<Longrightarrow> set (tbl i) \<inter> set (tbl j) = {}"
  using assms unfolding ahash_rep_def by blast+

lemma ahash_repI:
  assumes "logmask a = 2 ^ logsize a - 1" "fchain (hmem a) (freelist a) free" "distinct free"
    and "\<And>i. i < 2 ^ logsize a \<Longrightarrow> bucket (hmem a) (slot_addr a i) (tbl i)"
    and "\<And>i. i < 2 ^ logsize a \<Longrightarrow> set (tbl i) \<inter> set free = {}"
    and "\<And>i n. i < 2 ^ logsize a \<Longrightarrow> n \<in> set (tbl i) \<Longrightarrow> ahash_hash_key a (hkey a n) = i"
    and "\<And>i j. i < 2 ^ logsize a \<Longrightarrow> j < 2 ^ logsize a \<Longrightarrow> i \<noteq> j \<Longrightarrow> set (tbl i) \<inter> set (tbl j) = {}"
  shows "ahash_rep a tbl free"
  using assms unfolding ahash_rep_def by blast

lemma slot_addr_inj: "slot_addr a i = slot_addr a j \<longleftrightarrow> i = j"
  by (simp add: slot_addr_def)

lemma ahash_add_rep:
  fixes key :: nat
  assumes rep: "ahash_rep a tbl (n # free)"
  defines "i \<equiv> ahash_hash_key a key"
  shows "\<exists>a'. ahash_add key a = Some (0, n, a') \<and> hkey a' = (hkey a)(n := key) \<and> logsize a' = logsize a \<and>
    logmask a' = logmask a \<and> ahash_rep a' (tbl(i := n # tbl i)) free"
proof -
  let ?N = "2 ^ logsize a :: nat" and ?h = "rte_hlist_add_head n (slot_addr a i) (hmem a)"
  have ch: "freelist a = n" "n \<noteq> NULL" "fchain (hmem a) (hnext (hmem a) n) free" "distinct (n # free)" and lm: "logmask a = ?N - 1"
    using rep by (auto simp: ahash_rep_def)
  have i: "i < ?N" unfolding i_def by (rule hash_bound [OF lm])
  note D = ahash_repD [OF rep]
  have nin: "n \<notin> set (tbl j)" if "j < ?N" for j using D(2) [OF that] by auto
  define a' where "a' = a\<lparr>freelist := hnext (hmem a) n, hmem := ?h, hkey := (hkey a)(n := key)\<rparr>"
  have f: "logsize a' = logsize a" "logmask a' = logmask a" "hmem a' = ?h" "hkey a' = (hkey a)(n := key)"
    "freelist a' = hnext (hmem a) n" "slot_addr a' = slot_addr a" "ahash_hash_key a' = ahash_hash_key a"
    by (simp_all add: a'_def slot_addr_def [abs_def] ahash_hash_key_def [abs_def])
  have add: "ahash_add key a = Some (0, n, a')"
    using ch by (simp add: ahash_add_def node_alloc_def Let_def a'_def i_def slot_addr_def ahash_hash_key_def)
  have b: "bucket ?h (slot_addr a j) ((tbl(i := n # tbl i)) j)" if j: "j < ?N" for j
  proof (cases "j = i")
    case True
    then show ?thesis using rte_hlist_add_head_bucket [OF D(1) [OF i] nin [OF i] ch(2)] by simp
  next
    case False
    have "\<forall>x\<in>set (tbl j). x \<noteq> n \<and> (hfirst (hmem a) (slot_addr a i) = NULL \<or> x \<noteq> hfirst (hmem a) (slot_addr a i))"
      using nin [OF j] bucket_first [OF D(1) [OF i]] D(4) [OF j i False] by blast
    then have "bucket ?h (slot_addr a j) (tbl j)"
      using False by (intro bucket_frame [OF D(1) [OF j]]) (simp_all add: add_head_other slot_addr_inj)
    then show ?thesis using False by simp
  qed
  have fr: "fchain ?h (hnext (hmem a) n) free"
  proof (rule fchain_frame [OF ch(3)], rule ballI)
    fix x assume "x \<in> set free"
    then have "x \<noteq> n" using ch(4) by auto
    then show "hnext ?h x = hnext (hmem a) x" by (rule add_head_other(2))
  qed
  have d: "set ((tbl(i := n # tbl i)) j) \<inter> set free = {}"
    "m \<in> set ((tbl(i := n # tbl i)) j) \<Longrightarrow> ahash_hash_key a (((hkey a)(n := key)) m) = j"
    "k < ?N \<Longrightarrow> j \<noteq> k \<Longrightarrow> set ((tbl(i := n # tbl i)) j) \<inter> set ((tbl(i := n # tbl i)) k) = {}" if j: "j < ?N" for j k m
  proof -
    show "set ((tbl(i := n # tbl i)) j) \<inter> set free = {}" using D(2) [OF j] ch(4) by auto
    show "ahash_hash_key a (((hkey a)(n := key)) m) = j" if "m \<in> set ((tbl(i := n # tbl i)) j)"
      using that nin [OF j] D(3) [OF j] i_def by (cases "m = n") (auto split: if_splits)
    show "set ((tbl(i := n # tbl i)) j) \<inter> set ((tbl(i := n # tbl i)) k) = {}" if "k < ?N" "j \<noteq> k"
      using D(4) [OF j that] nin [OF j] nin [OF that(1)] that(2) by (cases "j = i"; cases "k = i") auto
  qed
  have "ahash_rep a' (tbl(i := n # tbl i)) free"
  proof (rule ahash_repI)
    show "logmask a' = 2 ^ logsize a' - 1" using lm f(1,2) by simp
    show "fchain (hmem a') (freelist a') (free)" using fr f(3,5) by simp
    show "distinct (free)" using ch(4) by simp
    show "bucket (hmem a') (slot_addr a' j) ((tbl(i := n # tbl i)) j)" if "j < 2 ^ logsize a'" for j
      using b [of j] that unfolding f .
    show "set ((tbl(i := n # tbl i)) j) \<inter> set (free) = {}" if "j < 2 ^ logsize a'" for j
      using d(1) [of j] that unfolding f .
    show "ahash_hash_key a' (hkey a' m) = j" if "j < 2 ^ logsize a'" "m \<in> set ((tbl(i := n # tbl i)) j)" for j m
      using d(2) [of j m] that unfolding f .
    show "set ((tbl(i := n # tbl i)) j) \<inter> set ((tbl(i := n # tbl i)) k) = {}" if "j < 2 ^ logsize a'" "k < 2 ^ logsize a'" "j \<noteq> k" for j k
      using d(3) [of j k] that unfolding f .
  qed
  then show ?thesis using add f by blast
qed

lemma del_other:
  assumes "bucket h b (xs @ n # ys)"
  shows "c \<noteq> b \<Longrightarrow> hfirst (rte_hlist_del n h) c = hfirst h c"
    "x \<notin> set (xs @ n # ys) \<Longrightarrow> hnext (rte_hlist_del n h) x = hnext h x"
    "x \<notin> set (xs @ n # ys) \<Longrightarrow> hpprev (rte_hlist_del n h) x = hpprev h x"
proof -
  note p = bucket_pprev [OF assms]
  have nx: "hnext h n \<noteq> NULL \<Longrightarrow> hnext h n \<in> set ys" using p(4) by (cases ys) auto
  have g: "get_hlink (rte_hlist_del n h) k = (if k = HNext n then NULL else if k = hpprev h n then hnext h n else get_hlink h k)" for k
  proof -
    have "hpprev h n \<noteq> HNull" using p(1) by (simp split: if_splits)
    then show ?thesis
      by (simp only: rte_hlist_del_def get_hlink_pprev get_set_hlink hlist_del_in_links hlink.distinct simp_thms)
  qed
  show "hfirst (rte_hlist_del n h) c = hfirst h c" if "c \<noteq> b"
    using g [of "HFirst c"] p(1) that by (simp split: if_splits)
  show "hnext (rte_hlist_del n h) x = hnext h x" if "x \<notin> set (xs @ n # ys)"
  proof -
    have "HNext x \<noteq> HNext n" "HNext x \<noteq> hpprev h n" using that p(1) by (auto split: if_splits)
    then show ?thesis using g [of "HNext x"] by simp
  qed
  show "hpprev (rte_hlist_del n h) x = hpprev h x" if "x \<notin> set (xs @ n # ys)"
    using that nx by (auto simp: rte_hlist_del_def hlist_del_in_links)
qed

lemma ahash_del_rep:
  assumes rep: "ahash_rep a tbl free" and i: "i < 2 ^ logsize a" and t: "tbl i = xs @ n # ys"
  shows "ahash_rep (ahash_del n a) (tbl(i := xs @ ys)) (n # free)" "hkey (ahash_del n a) = hkey a"
    "logsize (ahash_del n a) = logsize a" "logmask (ahash_del n a) = logmask a"
proof -
  let ?N = "2 ^ logsize a :: nat" and ?g = "rte_hlist_del n (hmem a)"
  let ?h = "set_hlink (HNext n) (freelist a) ?g"
  note D = ahash_repD [OF rep]
  have bi: "bucket (hmem a) (slot_addr a i) (xs @ n # ys)" using D(1) [OF i] t by simp
  have lm: "logmask a = ?N - 1" and ch: "fchain (hmem a) (freelist a) free" "distinct free"
    using rep by (auto simp: ahash_rep_def)
  have f: "logsize (ahash_del n a) = logsize a" "logmask (ahash_del n a) = logmask a" "hmem (ahash_del n a) = ?h"
    "hkey (ahash_del n a) = hkey a" "freelist (ahash_del n a) = n" "slot_addr (ahash_del n a) = slot_addr a"
    "ahash_hash_key (ahash_del n a) = ahash_hash_key a"
    by (simp_all add: ahash_del_def node_free_def slot_addr_def [abs_def] ahash_hash_key_def [abs_def])
  have dn: "n \<notin> set (xs @ ys)" "distinct (xs @ ys)" "n \<noteq> NULL"
    using bi bucket_pprev(2) [OF bi] by (auto simp: bucket_def)
  have b: "bucket ?h (slot_addr a j) ((tbl(i := xs @ ys)) j)" if j: "j < ?N" for j
  proof (cases "j = i")
    case True
    have "bucket ?h (slot_addr a i) (xs @ ys)"
      using dn(1) by (intro bucket_frame [OF rte_hlist_del_bucket(1) [OF bi]]) auto
    then show ?thesis using True by simp
  next
    case False
    have "\<forall>x\<in>set (tbl j). x \<notin> set (xs @ n # ys)" using D(4) [OF j i False] t by auto
    then have "bucket ?h (slot_addr a j) (tbl j)"
      using False by (intro bucket_frame [OF D(1) [OF j]]) (auto simp: del_other [OF bi] slot_addr_inj)
    then show ?thesis using False by simp
  qed
  have "\<forall>x\<in>set free. x \<notin> set (xs @ n # ys)" using D(2) [OF i] t by auto
  then have fr: "fchain ?h (freelist a) free" "n \<notin> set free"
    by (intro fchain_frame [OF ch(1)], auto simp: del_other [OF bi])
  have d: "set ((tbl(i := xs @ ys)) j) \<inter> set (n # free) = {}"
    "m \<in> set ((tbl(i := xs @ ys)) j) \<Longrightarrow> ahash_hash_key a (hkey a m) = j"
    "k < ?N \<Longrightarrow> j \<noteq> k \<Longrightarrow> set ((tbl(i := xs @ ys)) j) \<inter> set ((tbl(i := xs @ ys)) k) = {}" if j: "j < ?N" for j k m
  proof -
    have sub: "set ((tbl(i := xs @ ys)) k) \<subseteq> set (tbl k)" for k using t by auto
    have "n \<notin> set ((tbl(i := xs @ ys)) j)" using dn(1) D(4) [OF j i] t by (cases "j = i") auto
    then show "set ((tbl(i := xs @ ys)) j) \<inter> set (n # free) = {}" using D(2) [OF j] sub [of j] by auto
    show "ahash_hash_key a (hkey a m) = j" if "m \<in> set ((tbl(i := xs @ ys)) j)" using D(3) [OF j] sub [of j] that by blast
    show "set ((tbl(i := xs @ ys)) j) \<inter> set ((tbl(i := xs @ ys)) k) = {}" if "k < ?N" "j \<noteq> k"
      using D(4) [OF j that] sub [of j] sub [of k] by blast
  qed
  show "ahash_rep (ahash_del n a) (tbl(i := xs @ ys)) (n # free)"
  proof (rule ahash_repI)
    show "logmask (ahash_del n a) = 2 ^ logsize (ahash_del n a) - 1" using lm f(1,2) by simp
    show "fchain (hmem (ahash_del n a)) (freelist (ahash_del n a)) (n # free)" unfolding f using fr(1) dn(3) by simp
    show "distinct (n # free)" using fr(2) ch(2) by simp
    show "bucket (hmem (ahash_del n a)) (slot_addr (ahash_del n a) j) ((tbl(i := xs @ ys)) j)" if "j < 2 ^ logsize (ahash_del n a)" for j
      using b [of j] that unfolding f .
    show "set ((tbl(i := xs @ ys)) j) \<inter> set (n # free) = {}" if "j < 2 ^ logsize (ahash_del n a)" for j
      using d(1) [of j] that unfolding f .
    show "ahash_hash_key (ahash_del n a) (hkey (ahash_del n a) m) = j" if "j < 2 ^ logsize (ahash_del n a)" "m \<in> set ((tbl(i := xs @ ys)) j)" for j m
      using d(2) [of j m] that unfolding f .
    show "set ((tbl(i := xs @ ys)) j) \<inter> set ((tbl(i := xs @ ys)) k) = {}" if "j < 2 ^ logsize (ahash_del n a)" "k < 2 ^ logsize (ahash_del n a)" "j \<noteq> k" for j k
      using d(3) [of j k] that unfolding f .
  qed
  show "hkey (ahash_del n a) = hkey a" "logsize (ahash_del n a) = logsize a" "logmask (ahash_del n a) = logmask a"
    using f by blast+
qed

lemma init_loop_chain:
  assumes "0 < node_size"
  shows "fchain (hmem a) (freelist a) free \<Longrightarrow> distinct free \<Longrightarrow> NULL < p \<Longrightarrow> \<forall>x\<in>set free. x < p \<Longrightarrow>
    \<exists>h. init_loop node_size n p a = (p + n * node_size, a\<lparr>hmem := h, freelist := freelist (snd (init_loop node_size n p a))\<rparr>) \<and>
      hfirst h = hfirst (hmem a) \<and>
      fchain h (freelist (snd (init_loop node_size n p a))) (rev (map (\<lambda>i. p + i * node_size) [0..<n]) @ free) \<and>
      distinct (rev (map (\<lambda>i. p + i * node_size) [0..<n]) @ free)"
proof (induction n arbitrary: p a free)
  case 0
  then show ?case by (intro exI [of _ "hmem a"]) simp
next
  case (Suc n)
  let ?a = "a\<lparr>hmem := set_hlink (HNext p) (freelist a) (hmem a), freelist := p\<rparr>"
  have "p \<notin> set free" using Suc.prems(4) by auto
  then have c: "fchain (hmem ?a) (freelist ?a) (p # free)" "distinct (p # free)"
    using Suc.prems(1-3) fchain_frame [OF Suc.prems(1), of "hmem ?a"] by auto
  have lt: "\<forall>x\<in>set (p # free). x < p + node_size" using Suc.prems(4) assms by auto
  have l: "rev (map (\<lambda>i. p + i * node_size) [0..<Suc n]) @ free =
      rev (map (\<lambda>i. p + node_size + i * node_size) [0..<n]) @ p # free"
    by (simp add: map_upt_Suc del: upt_Suc)
  have "NULL < p + node_size" using Suc.prems(3) by simp
  from Suc.IH [OF c this lt] obtain h where
    h: "init_loop node_size n (p + node_size) ?a = (p + node_size + n * node_size,
          ?a\<lparr>hmem := h, freelist := freelist (snd (init_loop node_size n (p + node_size) ?a))\<rparr>)"
      "hfirst h = hfirst (hmem ?a)"
      "fchain h (freelist (snd (init_loop node_size n (p + node_size) ?a)))
        (rev (map (\<lambda>i. p + node_size + i * node_size) [0..<n]) @ p # free)"
      "distinct (rev (map (\<lambda>i. p + node_size + i * node_size) [0..<n]) @ p # free)" by blast
  show ?case unfolding l using h by (intro exI [of _ h]) (simp add: add.assoc)
qed

lemma ahash_init_rep:
  assumes "buffer \<noteq> NULL" "12 \<le> node_size" "logsz \<in> {1, 2, 4, 8, 16}" "node_size + 2 ^ logsz * 4 \<le> sz" "sz < 4294967296"
  shows "\<exists>a' free. ahash_init True buffer sz node_size logsz a = Some (0, a') \<and> ahash_rep a' (\<lambda>_. []) free \<and>
    length free = (sz - 2 ^ logsz * 4) div node_size \<and> 0 < length free \<and> logsize a' = logsz"
proof -
  let ?b = "2 ^ logsz * 4 :: nat" and ?n = "(sz - 2 ^ logsz * 4) div node_size"
  have lg: "logsz AND (logsz - 1) = 0" "logsz < 31" "logsz \<noteq> 0" "?b < 4294967296" "logsz mod 65536 = logsz"
    "((2 :: nat) ^ logsz - 1) mod 65536 = 2 ^ logsz - 1"
    using assms(3) by auto
  define a0 where "a0 = \<lparr>slots = NULL, logsize = 0, logmask = 0, freelist = NULL, hsize = 0, freends = NULL,
    hmem = clear_mem buffer sz (hmem a), hkey = (\<lambda>p. if buffer \<le> p \<and> p < buffer + sz then 0 else hkey a p)\<rparr>"
  let ?l = "init_loop node_size ?n buffer a0" and ?free = "rev (map (\<lambda>i. buffer + i * node_size) [0..<?n]) @ []"
  have "0 < node_size" using assms(2) by simp
  from init_loop_chain [OF this, of a0 "[]" buffer ?n] assms(1) obtain h where
    h: "?l = (buffer + ?n * node_size, a0\<lparr>hmem := h, freelist := freelist (snd ?l)\<rparr>)" "hfirst h = hfirst (hmem a0)"
      "fchain h (freelist (snd ?l)) ?free" "distinct ?free" by (auto simp: a0_def)
  define a' where "a' = a0\<lparr>hmem := h, freelist := freelist (snd ?l), freends := buffer, slots := buffer + ?n * node_size,
    hsize := ?n, logsize := logsz, logmask := 2 ^ logsz - 1\<rparr>"
  have w: "(node_size + ?b) mod 4294967296 = node_size + ?b" "?b mod 4294967296 = ?b" using assms(4,5) by simp_all
  have init: "ahash_init True buffer sz node_size logsz a = Some (0, a')"
  proof -
    have "ahash_init True buffer sz node_size logsz a = (let (p, a) = ?l in Some (0, a\<lparr>freends := buffer, slots := p,
        hsize := ?n, logsize := logsz, logmask := 2 ^ logsz - 1\<rparr>))"
      using assms(1,2,4) lg w unfolding ahash_init_def a0_def by (simp only: Let_def) auto
    also have "\<dots> = Some (0, a')" unfolding a'_def by (subst h(1)) (simp add: a0_def)
    finally show ?thesis .
  qed
  have first: "hfirst h (slot_addr a' i) = NULL" if "i < 2 ^ logsz" for i
  proof -
    have "?n * node_size \<le> sz - ?b" by simp
    then have "?n * node_size + 4 * i < sz" using that assms(4) by linarith
    then show ?thesis using h(2) by (simp add: slot_addr_def a'_def a0_def clear_mem_def Let_def)
  qed
  have "ahash_rep a' (\<lambda>_. []) ?free"
    by (rule ahash_repI) (use h(3,4) first in \<open>simp_all add: a'_def bucket_def\<close>)
  moreover have "0 < ?n" using assms(2,4) by (simp add: div_greater_zero_iff)
  moreover have "length ?free = ?n" "logsize a' = logsz" by (simp_all add: a'_def)
  ultimately show ?thesis using init by metis
qed

text \<open>
  What a visit does: the visitor is called on the nodes of each bucket in order, and a false result skips the rest of
  that bucket only.
\<close>

fun until_false :: "(ptr \<Rightarrow> 'w \<Rightarrow> bool \<times> 'w) \<Rightarrow> ptr list \<Rightarrow> 'w \<Rightarrow> 'w" where
  "until_false v [] w = w"
| "until_false v (x # xs) w = (if fst (v x w) then until_false v xs (snd (v x w)) else snd (v x w))"

lemma visit_slot_chain: "hchain (hmem a) l pos xs \<Longrightarrow> visit_slot v pos a w = Some (until_false v xs w)"
proof (induction xs arbitrary: l pos w)
  case Nil
  then show ?case by (subst visit_slot.simps) simp
next
  case (Cons x xs)
  then show ?case by (subst visit_slot.simps) (auto split: prod.split)
qed

lemma visit_loop_buckets:
  "(\<And>i. i \<in> set is \<Longrightarrow> bucket (hmem a) (slot_addr a i) (tbl i)) \<Longrightarrow>
   visit_loop v is a w = Some (fold (\<lambda>i. until_false v (tbl i)) is w)"
proof (induction "is" arbitrary: w)
  case (Cons i "is")
  have "hchain (hmem a) (HFirst (slot_addr a i)) (hfirst (hmem a) (slot_addr a i)) (tbl i)"
    using Cons.prems [of i] by (simp add: bucket_def)
  note visit_slot_chain [OF this, of v w]
  then show ?case using Cons by simp
qed simp

lemma ahash_visit_rep:
  assumes "ahash_rep a tbl free"
  shows "ahash_visit (Some v) (Some a) w = Some (fold (\<lambda>i. until_false v (tbl i)) [0..<2 ^ logsize a] w)"
  unfolding ahash_visit_def by (simp, rule visit_loop_buckets) (rule ahash_repD(1) [OF assms], simp)

section \<open>Properties\<close>

text \<open>
  C14. The table refines a map from keys to nodes over its buckets. A lookup gives the newest node with the key.
  Adding takes the first free node, after which the key gives that node and every other key what it gave before;
  without a free node the assertion fails. Deleting a node takes exactly it out of its bucket and puts it on the
  free list, and keys it does not have give what they gave.
\<close>

theorem ahash_refines_buckets:
  assumes "ahash_rep a tbl free"
  shows "ahash_find key a =
      Some (case find (\<lambda>n. hkey a n = key) (tbl (ahash_hash_key a key)) of None \<Rightarrow> NULL | Some n \<Rightarrow> n) \<and>
    (free = [] \<longrightarrow> ahash_add key a = None) \<and>
    (\<forall>n fs. free = n # fs \<longrightarrow> (\<exists>a'. ahash_add key a = Some (0, n, a') \<and>
       ahash_rep a' (tbl(ahash_hash_key a key := n # tbl (ahash_hash_key a key))) fs \<and>
       ahash_find key a' = Some n \<and> (\<forall>k. k \<noteq> key \<longrightarrow> ahash_find k a' = ahash_find k a))) \<and>
    (\<forall>i xs n ys. i < 2 ^ logsize a \<and> tbl i = xs @ n # ys \<longrightarrow>
       ahash_rep (ahash_del n a) (tbl(i := xs @ ys)) (n # free) \<and>
       (\<forall>k. k \<noteq> hkey a n \<longrightarrow> ahash_find k (ahash_del n a) = ahash_find k a))"
proof (intro conjI impI allI)
  show "ahash_find key a =
      Some (case find (\<lambda>n. hkey a n = key) (tbl (ahash_hash_key a key)) of None \<Rightarrow> NULL | Some n \<Rightarrow> n)"
    by (rule ahash_find_rep [OF assms])
next
  assume "free = []"
  then have "freelist a = NULL" using assms by (simp add: ahash_rep_def)
  then show "ahash_add key a = None" by (simp add: ahash_add_def node_alloc_def Let_def)
next
  fix n fs assume "free = n # fs"
  then have rep: "ahash_rep a tbl (n # fs)" using assms by simp
  let ?i = "ahash_hash_key a key"
  from ahash_add_rep [OF rep, of key] obtain a' where a': "ahash_add key a = Some (0, n, a')" "hkey a' = (hkey a)(n := key)"
    "logsize a' = logsize a" "logmask a' = logmask a" "ahash_rep a' (tbl(?i := n # tbl ?i)) fs" by blast
  have hk: "ahash_hash_key a' = ahash_hash_key a" using a'(3,4) by (simp add: ahash_hash_key_def [abs_def])
  have "ahash_find k a' = ahash_find k a" if k: "k \<noteq> key" for k
  proof -
    let ?j = "ahash_hash_key a k"
    have "?j < 2 ^ logsize a" using assms hash_bound by (simp add: ahash_rep_def)
    then have "n \<notin> set (tbl ?j)" using ahash_repD(2) [OF rep] by fastforce
    then have "find (\<lambda>m. hkey a' m = k) ((tbl(?i := n # tbl ?i)) ?j) = find (\<lambda>m. hkey a m = k) (tbl ?j)"
      using k unfolding a'(2) by (auto intro!: find_cong)
    then show ?thesis unfolding ahash_find_rep [OF a'(5)] ahash_find_rep [OF assms] hk by simp
  qed
  moreover have "ahash_find key a' = Some n" unfolding ahash_find_rep [OF a'(5)] hk a'(2) by simp
  ultimately show "\<exists>a'. ahash_add key a = Some (0, n, a') \<and> ahash_rep a' (tbl(?i := n # tbl ?i)) fs \<and>
      ahash_find key a' = Some n \<and> (\<forall>k. k \<noteq> key \<longrightarrow> ahash_find k a' = ahash_find k a)" using a'(1,5) by blast
next
  fix i xs n ys assume t: "i < 2 ^ logsize a \<and> tbl i = xs @ n # ys"
  note d = ahash_del_rep [OF assms conjunct1 [OF t] conjunct2 [OF t]]
  show "ahash_rep (ahash_del n a) (tbl(i := xs @ ys)) (n # free)" by (rule d(1))
  fix k assume k: "k \<noteq> hkey a n"
  have hk: "ahash_hash_key (ahash_del n a) = ahash_hash_key a" using d(3,4) by (simp add: ahash_hash_key_def [abs_def])
  have "find (\<lambda>m. hkey a m = k) (xs @ ys) = find (\<lambda>m. hkey a m = k) (xs @ n # ys)" using k by (induction xs) auto
  then have "find (\<lambda>m. hkey a m = k) ((tbl(i := xs @ ys)) j) = find (\<lambda>m. hkey a m = k) (tbl j)" for j using t by simp
  then show "ahash_find k (ahash_del n a) = ahash_find k a"
    unfolding ahash_find_rep [OF d(1)] ahash_find_rep [OF assms] hk d(2) by simp
qed

text \<open>A table with two buckets and three nodes, freshly initialised.\<close>

theorem ahash_refines_buckets_witness:
  "\<exists>a n a'. ahash_init True 4096 44 12 1 \<lparr>slots = 0, logsize = 0, logmask = 0, freelist = 0, hsize = 0, freends = 0,
      hmem = \<lparr>hfirst = \<lambda>_. 0, hnext = \<lambda>_. 0, hpprev = \<lambda>_. HNull\<rparr>, hkey = \<lambda>_. 0\<rparr> = Some (0, a) \<and>
     ahash_add 7 a = Some (0, n, a') \<and> ahash_find 7 a' = Some n"
proof -
  obtain a free where a: "ahash_init True 4096 44 12 1 \<lparr>slots = 0, logsize = 0, logmask = 0, freelist = 0, hsize = 0,
      freends = 0, hmem = \<lparr>hfirst = \<lambda>_. 0, hnext = \<lambda>_. 0, hpprev = \<lambda>_. HNull\<rparr>, hkey = \<lambda>_. 0\<rparr> = Some (0, a)"
    "ahash_rep a (\<lambda>_. []) free" "0 < length free"
    using ahash_init_rep [of 4096 12 1 44] by fastforce
  then obtain n fs where n: "free = n # fs" by (cases free) auto
  note ops = ahash_refines_buckets [OF a(2), of 7]
  from ops [THEN conjunct2, THEN conjunct2, THEN conjunct1, THEN spec, THEN spec, THEN mp, OF n]
  obtain a' where "ahash_add 7 a = Some (0, n, a') \<and> ahash_find 7 a' = Some n" by (elim exE conjE) simp
  then show ?thesis using a(1) by (intro exI [of _ a] exI [of _ n] exI [of _ a'] conjI) simp_all
qed

end
