(* ===== verification/Blkdev_Lite.thy ===== *)
theory Blkdev_Lite
  imports Buffer_Io
begin

text \<open>
  The alternative block cache of \<open>dev/blkdev_lite.c\<close>: one erase block of 4096 bytes for all disks. \<open>tab\<close> gives the
  disk of a handle and \<open>ds\<close> the states of the disks. \<open>wrsize\<close> is \<open>CONFIG_BLKDEV_WRSIZE\<close>, 0 when it is not set. The
  mutex is free when it is taken. Over one disk the cache behaves as the buffer of \<open>Buffer_Io\<close>, from which its
  correctness follows; over two it does not keep them apart.
\<close>

section \<open>Definitions\<close>

abbreviation (input) BLKDEV_ERASE_BLKSZ :: nat where "BLKDEV_ERASE_BLKSZ \<equiv> 4096"
abbreviation (input) BLKDEV_BLKSZ_MASK :: nat where "BLKDEV_BLKSZ_MASK \<equiv> 4095"

record blkdev_wrbuffer =
  wdd :: nat
  wbuf :: "u8 list"
  woffset :: nat
  wdirty :: bool

text \<open>The loop is the one of \<open>dev/buffer_io.c\<close>, word for word.\<close>

definition lite_is_wrblock_dirty :: "u8 list \<Rightarrow> nat \<Rightarrow> nat \<Rightarrow> bool option" where
  "lite_is_wrblock_dirty buf offset sz =
     (let cnt = drop_bit 2 sz; n = (cnt + 16 - 1) div 16
      in wrblock_loop n 0xFFFFFFFF (if cnt AND 15 = 0 then 16 else cnt AND 15) (le_words (drop offset buf)))"

record line_region =
  rbeg :: nat
  rend :: nat

definition lite_region_intersect :: "line_region \<Rightarrow> line_region \<Rightarrow> bool \<times> line_region" where
  "lite_region_intersect a b =
     (let out = \<lparr>rbeg = max (rbeg a) (rbeg b), rend = min (rend a) (rend b)\<rparr> in (rbeg out \<le> rend out, out))"

definition lite_write_eraseable_block ::
  "(nat \<Rightarrow> 'd disk_device) \<Rightarrow> nat \<Rightarrow> u8 list \<Rightarrow> nat \<Rightarrow> nat \<Rightarrow> (nat \<Rightarrow> 'd) \<Rightarrow> int \<times> (nat \<Rightarrow> 'd)" where
  "lite_write_eraseable_block tab dd buf blksize offset ds =
     (let (err, d) = disk_device_erase (tab dd) offset blksize (ds dd); ds = ds(dd := d)
      in if err < 0 then (err, ds)
         else let (err, d) = disk_device_write (tab dd) (take blksize buf) offset (ds dd); ds = ds(dd := d)
              in if err < 0 then (err, ds) else (0, ds))"

text \<open>The write blocks of the buffer from \<open>ofs\<close> on; \<open>k\<close> are left.\<close>

fun flush_loop ::
  "nat \<Rightarrow> (nat \<Rightarrow> 'd disk_device) \<Rightarrow> nat \<Rightarrow> blkdev_wrbuffer \<Rightarrow> nat \<Rightarrow> nat \<Rightarrow> (nat \<Rightarrow> 'd) \<Rightarrow> (int \<times> (nat \<Rightarrow> 'd)) option" where
  "flush_loop wrsize tab dd bb 0 ofs ds = Some (0, ds)"
| "flush_loop wrsize tab dd bb (Suc k) ofs ds =
     Option.bind (lite_is_wrblock_dirty (wbuf bb) ofs wrsize) (\<lambda>wd.
       if wd then
         let (err, d) = disk_device_write (tab dd) (buf_read (wbuf bb) ofs wrsize) (w32 (woffset bb + ofs)) (ds dd);
             ds = ds(dd := d)
         in if err < 0 then Some (err, ds) else flush_loop wrsize tab dd bb k (ofs + wrsize) ds
       else flush_loop wrsize tab dd bb k (ofs + wrsize) ds)"

definition flush_cache_block ::
  "nat \<Rightarrow> (nat \<Rightarrow> 'd disk_device) \<Rightarrow> nat \<Rightarrow> blkdev_wrbuffer \<times> (nat \<Rightarrow> 'd) \<Rightarrow>
   (int \<times> blkdev_wrbuffer \<times> (nat \<Rightarrow> 'd)) option" where
  "flush_cache_block wrsize tab dd s =
     (let (bb, ds) = s
      in if wdirty bb then
           Option.bind
             (if wrsize > 0 then
                let (err, d) = disk_device_erase (tab dd) (woffset bb) BLKDEV_ERASE_BLKSZ (ds dd); ds = ds(dd := d)
                in if err < 0 then Some (err, ds)
                   else flush_loop wrsize tab dd bb (BLKDEV_ERASE_BLKSZ div wrsize) 0 ds
              else Some (lite_write_eraseable_block tab dd (wbuf bb) BLKDEV_ERASE_BLKSZ (woffset bb) ds))
             (\<lambda>(err, ds). if err < 0 then Some (err, bb, ds) else Some (0, bb\<lparr>wdirty := False\<rparr>, ds))
         else Some (0, bb, ds))"

definition lite_sync ::
  "nat \<Rightarrow> (nat \<Rightarrow> 'd disk_device) \<Rightarrow> bool \<Rightarrow> blkdev_wrbuffer \<times> (nat \<Rightarrow> 'd) \<Rightarrow>
   (int \<times> blkdev_wrbuffer \<times> (nat \<Rightarrow> 'd)) option" where
  "lite_sync wrsize tab invalid s =
     (if wdirty (fst s) then
        Option.bind (flush_cache_block wrsize tab (wdd (fst s)) s) (\<lambda>(err, bb, ds).
          let bb = (if invalid \<and> err = 0 then bb\<lparr>woffset := NO_OFFSET\<rparr> else bb);
              (_, _, d) = disk_device_ioctl (tab (wdd bb)) DISK_SYNC (ds (wdd bb))
          in Some (err, bb, ds(wdd bb := d)))
      else Some (0, s))"

definition lite_read ::
  "(nat \<Rightarrow> 'd disk_device) \<Rightarrow> nat \<Rightarrow> nat \<Rightarrow> nat \<Rightarrow> blkdev_wrbuffer \<times> (nat \<Rightarrow> 'd) \<Rightarrow> (int \<times> u8 list) option" where
  "lite_read tab dd sz offset s =
     (let (bb, ds) = s; (err, buf) = disk_device_read (tab dd) sz offset (ds dd)
      in if err < 0 then Some (err, buf)
         else if wdirty bb then
           let reader = \<lparr>rbeg = offset, rend = w32 (offset + sz + 4294967295)\<rparr>;
               cache = \<lparr>rbeg = woffset bb, rend = w32 (woffset bb + BLKDEV_ERASE_BLKSZ + 4294967295)\<rparr>;
               (meet, out) = lite_region_intersect reader cache;
               n = rend out - rbeg out + 1
           in if meet then
                if rbeg out - offset + n > sz \<or> rbeg out - rbeg cache + n > length (wbuf bb) then None
                else Some (int sz, buf_write buf (rbeg out - offset) (buf_read (wbuf bb) (rbeg out - rbeg cache) n))
              else Some (int sz, buf)
         else Some (int sz, buf))"

text \<open>Another block is in the buffer: it is written back, and the block at \<open>aligned_ofs\<close> is read into the buffer.\<close>

definition lite_load_block ::
  "nat \<Rightarrow> (nat \<Rightarrow> 'd disk_device) \<Rightarrow> nat \<Rightarrow> nat \<Rightarrow> blkdev_wrbuffer \<times> (nat \<Rightarrow> 'd) \<Rightarrow>
   (int \<times> blkdev_wrbuffer \<times> (nat \<Rightarrow> 'd)) option" where
  "lite_load_block wrsize tab dd aligned_ofs s =
     (if woffset (fst s) \<noteq> aligned_ofs then
        Option.bind (flush_cache_block wrsize tab dd s) (\<lambda>(ret, bb, ds).
          if ret \<noteq> 0 then Some (ret, bb, ds)
          else
            let (ret, bs) = disk_device_read (tab dd) BLKDEV_ERASE_BLKSZ aligned_ofs (ds dd);
                bb = bb\<lparr>wbuf := buf_write (wbuf bb) 0 bs\<rparr>
            in if ret < 0 then Some (ret, bb, ds) else Some (0, bb\<lparr>woffset := aligned_ofs\<rparr>, ds))
      else Some (0, s))"

text \<open>The write loop; \<open>offset & ~BLKDEV_BLKSZ_MASK\<close> is the offset without its low bits.\<close>

partial_function (option) lite_write_loop ::
  "nat \<Rightarrow> (nat \<Rightarrow> 'd disk_device) \<Rightarrow> nat \<Rightarrow> int \<Rightarrow> u8 list \<Rightarrow> nat \<Rightarrow> blkdev_wrbuffer \<times> (nat \<Rightarrow> 'd) \<Rightarrow>
   (int \<times> blkdev_wrbuffer \<times> (nat \<Rightarrow> 'd)) option" where
  "lite_write_loop wrsize tab dd bytes pbuf offset s =
     (if pbuf = [] then Some (bytes, s)
      else if offset AND BLKDEV_BLKSZ_MASK = 0 \<and> length pbuf \<ge> BLKDEV_ERASE_BLKSZ then
        let (ret, ds) = lite_write_eraseable_block tab dd pbuf BLKDEV_ERASE_BLKSZ offset (snd s)
        in if ret < 0 then Some (ret, fst s, ds)
           else lite_write_loop wrsize tab dd bytes (drop BLKDEV_ERASE_BLKSZ pbuf) (w32 (offset + BLKDEV_ERASE_BLKSZ)) (fst s, ds)
      else
        let blkin_ofs = offset AND BLKDEV_BLKSZ_MASK; aligned_ofs = offset - blkin_ofs
        in Option.bind (lite_load_block wrsize tab dd aligned_ofs s) (\<lambda>(ret, bb, ds).
             if ret \<noteq> 0 then Some (ret, bb, ds)
             else
               let remain = BLKDEV_ERASE_BLKSZ - blkin_ofs; cplen = min (length pbuf) remain;
                   bb = bb\<lparr>wbuf := buf_write (wbuf bb) blkin_ofs (take cplen pbuf), wdirty := True, wdd := dd\<rparr>
               in lite_write_loop wrsize tab dd bytes (drop cplen pbuf) (w32 (offset + cplen)) (bb, ds)))"

definition lite_write ::
  "nat \<Rightarrow> (nat \<Rightarrow> 'd disk_device) \<Rightarrow> nat \<Rightarrow> u8 list \<Rightarrow> nat \<Rightarrow> blkdev_wrbuffer \<times> (nat \<Rightarrow> 'd) \<Rightarrow>
   (int \<times> blkdev_wrbuffer \<times> (nat \<Rightarrow> 'd)) option" where
  "lite_write wrsize tab dd buf offset s = lite_write_loop wrsize tab dd (int (length buf)) buf offset s"

definition lite_blkdev_sync ::
  "nat \<Rightarrow> (nat \<Rightarrow> 'd disk_device) \<Rightarrow> blkdev_wrbuffer \<times> (nat \<Rightarrow> 'd) \<Rightarrow>
   (int \<times> blkdev_wrbuffer \<times> (nat \<Rightarrow> 'd)) option" where
  "lite_blkdev_sync wrsize tab s = lite_sync wrsize tab False s"

definition lite_blkdev_sync_invalid ::
  "nat \<Rightarrow> (nat \<Rightarrow> 'd disk_device) \<Rightarrow> blkdev_wrbuffer \<times> (nat \<Rightarrow> 'd) \<Rightarrow>
   (int \<times> blkdev_wrbuffer \<times> (nat \<Rightarrow> 'd)) option" where
  "lite_blkdev_sync_invalid wrsize tab s = lite_sync wrsize tab True s"

definition lite_blkdev_init :: "blkdev_wrbuffer \<Rightarrow> int \<times> blkdev_wrbuffer" where
  "lite_blkdev_init bb = (0, bb\<lparr>wdd := 0, wdirty := False, woffset := NO_OFFSET\<rparr>)"

section \<open>Lemmas\<close>

lemma and_15: "x AND 15 = x mod 16" for x :: nat
proof -
  have "(15 :: nat) = mask 4" by (simp add: mask_eq_exp_minus_1)
  then show ?thesis by (simp only: take_bit_eq_mask [symmetric] take_bit_eq_mod) simp
qed

lemma lite_dirty_same: "lite_is_wrblock_dirty = is_wrblock_dirty"
  by (intro ext) (simp add: lite_is_wrblock_dirty_def is_wrblock_dirty_def Let_def and_15 drop_bit_eq_div add.commute)

lemma lite_eraseable_same:
  "lite_write_eraseable_block tab dd buf n off ds =
     (let (r, d) = write_eraseable_block (tab dd) buf n off (ds dd) in (r, ds(dd := d)))"
  by (simp add: lite_write_eraseable_block_def write_eraseable_block_def Let_def split: prod.split)

text \<open>
  The cache as a buffer of \<open>Buffer_Io\<close> for the disk \<open>k\<close>. A clean cache belongs to no disk.
\<close>

definition as_bio :: "nat \<Rightarrow> nat \<Rightarrow> blkdev_wrbuffer \<Rightarrow> buffered_io" where
  "as_bio wrsize k bb = \<lparr>bdd = (if wdirty bb then wdd bb else k), boff = woffset bb, bsize = 4096, bmask = 4095,
     bdirty = wdirty bb, allocated = False, wrlimit = (0 < wrsize), panic = False, bbuf = wbuf bb\<rparr>"

lemma as_bio_simps [simp]:
  "boff (as_bio wrsize k bb) = woffset bb" "bsize (as_bio wrsize k bb) = 4096" "bmask (as_bio wrsize k bb) = 4095"
  "bdirty (as_bio wrsize k bb) = wdirty bb" "wrlimit (as_bio wrsize k bb) = (0 < wrsize)" "bbuf (as_bio wrsize k bb) = wbuf bb"
  by (simp_all add: as_bio_def)

text \<open>What an operation of the cache on disk \<open>k\<close> does to the buffer and to the state of that disk.\<close>

abbreviation via ::
  "nat \<Rightarrow> nat \<Rightarrow> (nat \<Rightarrow> 'd) \<Rightarrow> (int \<times> blkdev_wrbuffer \<times> (nat \<Rightarrow> 'd)) option \<Rightarrow>
   (int \<times> buffered_io \<times> 'd) option \<Rightarrow> bool" where
  "via wrsize k ds x y \<equiv>
     map_option (\<lambda>(r, bb, ds'). (r, as_bio wrsize k bb, ds')) x = map_option (\<lambda>(r, bio, d). (r, bio, ds(k := d))) y"

lemma viaD:
  assumes "via wrsize k ds (Some (r, bb, ds')) y"
  obtains d where "y = Some (r, as_bio wrsize k bb, d)" "ds' = ds(k := d)"
proof (cases y)
  case (Some a)
  obtain r' bio d where "a = (r', bio, d)" by (cases a)
  then show ?thesis using that [of d] assms Some by (simp del: fun_upd_apply)
qed (use assms in simp)

lemma flush_loop_same:
  assumes "0 < wrsize" "wrsize = 256"
  shows "flush_loop wrsize tab k bb n ofs ds =
    map_option (\<lambda>(r, d). (r, ds(k := d))) (wrlimit_loop (tab k) (as_bio wrsize k bb) n ofs (ds k))"
proof (induction n arbitrary: ofs ds)
  case (Suc n)
  show ?case
  proof (cases "is_wrblock_dirty (wbuf bb) ofs 256")
    case (Some wd)
    obtain r d where w: "disk_device_write (tab k) (buf_read (wbuf bb) ofs 256) (w32 (woffset bb + ofs)) (ds k) = (r, d)"
      by fastforce
    show ?thesis using Some w Suc [of "ofs + 256" ds] Suc [of "ofs + 256" "ds(k := d)"] assms(2)
      by (simp add: lite_dirty_same add: fun_upd_same del: fun_upd_apply)
  qed (simp add: lite_dirty_same assms(2))
qed simp

lemma flush_same:
  assumes "wrsize = 0 \<or> wrsize = 256" "wdirty bb \<longrightarrow> wdd bb = k"
  shows "via wrsize k ds (flush_cache_block wrsize tab k (bb, ds)) (buffered_flush_locked (tab k) (as_bio wrsize k bb, ds k))"
proof (cases "wdirty bb")
  case False
  then show ?thesis by (simp add: flush_cache_block_def buffered_flush_locked_def)
next
  case True
  have b: "as_bio wrsize k (bb\<lparr>wdirty := False\<rparr>) = (as_bio wrsize k bb)\<lparr>bdirty := False\<rparr>"
    using True assms(2) by (simp add: as_bio_def)
  show ?thesis
  proof (cases "wrsize = 0")
    case z: True
    obtain r d where w: "write_eraseable_block (tab k) (wbuf bb) 4096 (woffset bb) (ds k) = (r, d)" by fastforce
    show ?thesis using True z w b
      by (simp add: flush_cache_block_def buffered_flush_locked_def lite_eraseable_same add: fun_upd_same del: fun_upd_apply)
  next
    case nz: False
    then have wz: "wrsize = 256" using assms(1) by simp
    obtain r d where e: "disk_device_erase (tab k) (woffset bb) 4096 (ds k) = (r, d)" by fastforce
    have l: "flush_loop 256 tab k bb n ofs (ds(k := d)) =
        map_option (\<lambda>(r, d). (r, ds(k := d))) (wrlimit_loop (tab k) (as_bio 256 k bb) n ofs d)" for n ofs
      using flush_loop_same [of 256 tab k bb n ofs "ds(k := d)"] by (simp add: fun_upd_same del: fun_upd_apply)
    show ?thesis
    proof (cases "wrlimit_loop (tab k) (as_bio 256 k bb) 16 0 d")
      case None
      then show ?thesis using True e b l [of 16 0]
        by (simp add: flush_cache_block_def buffered_flush_locked_def wz add: fun_upd_same del: fun_upd_apply)
    next
      case (Some x)
      obtain r' d' where x: "x = (r', d')" by fastforce
      show ?thesis using True e b l [of 16 0] Some
        by (simp add: flush_cache_block_def buffered_flush_locked_def wz x add: fun_upd_same del: fun_upd_apply)
    qed
  qed
qed

lemma load_same:
  assumes "wrsize = 0 \<or> wrsize = 256" "wdirty bb \<longrightarrow> wdd bb = k"
  shows "via wrsize k ds (lite_load_block wrsize tab k a (bb, ds))
    (let bio = as_bio wrsize k bb; d = ds k
     in if boff bio \<noteq> a then
          Option.bind (buffered_flush_locked (tab k) (bio, d)) (\<lambda>(ret, bio, d).
            if ret \<noteq> 0 then Some (ret, bio, d)
            else
              let (ret, bs) = disk_device_read (tab k) (bsize bio) a d;
                  bio = bio\<lparr>bbuf := buf_write (bbuf bio) 0 bs\<rparr>
              in if ret < 0 then Some (ret, bio, d) else Some (0, bio\<lparr>boff := a\<rparr>, d))
        else Some (0, bio, d))"
proof (cases "woffset bb = a")
  case True
  then show ?thesis by (simp add: lite_load_block_def)
next
  case False
  note f = flush_same [OF assms, where ds = ds and tab = tab]
  show ?thesis
  proof (cases "flush_cache_block wrsize tab k (bb, ds)")
    case None
    then show ?thesis using f False by (simp add: lite_load_block_def)
  next
    case (Some x)
    obtain r bb' ds' where x: "x = (r, bb', ds')" by (cases x)
    obtain d where d: "buffered_flush_locked (tab k) (as_bio wrsize k bb, ds k) = Some (r, as_bio wrsize k bb', d)"
      "ds' = ds(k := d)"
      by (rule viaD [OF f [unfolded Some x]])
    obtain q bs where q: "disk_device_read (tab k) 4096 a d = (q, bs)" by fastforce
    have "as_bio wrsize k (bb'\<lparr>wbuf := buf_write (wbuf bb') 0 bs\<rparr>) = (as_bio wrsize k bb')\<lparr>bbuf := buf_write (wbuf bb') 0 bs\<rparr>"
      "as_bio wrsize k (bb'\<lparr>wbuf := buf_write (wbuf bb') 0 bs, woffset := a\<rparr>) =
       (as_bio wrsize k bb')\<lparr>bbuf := buf_write (wbuf bb') 0 bs, boff := a\<rparr>" by (simp_all add: as_bio_def)
    then show ?thesis using False Some x d q by (simp add: lite_load_block_def Let_def fun_upd_same del: fun_upd_apply)
  qed
qed

lemma and_4095: "x AND 4095 = x mod 4096" for x :: nat
proof -
  have "(4095 :: nat) = mask 12" by (simp add: mask_eq_exp_minus_1)
  then show ?thesis by (simp only: take_bit_eq_mask [symmetric] take_bit_eq_mod) simp
qed

text \<open>The buffered write with the iteration for a part of a block split as in the cache.\<close>

lemma buffered_loop_part:
  assumes "buf \<noteq> []" "\<not> (off AND bmask bio = 0 \<and> length buf \<ge> bsize bio)"
  shows "buffered_write_loop dd bytes buf off (bio, d) =
    Option.bind
      (let a = off - (off AND bmask bio)
       in if boff bio \<noteq> a then
          Option.bind (buffered_flush_locked dd (bio, d)) (\<lambda>(ret, bio, d).
            if ret \<noteq> 0 then Some (ret, bio, d)
            else
              let (ret, bs) = disk_device_read dd (bsize bio) a d;
                  bio = bio\<lparr>bbuf := buf_write (bbuf bio) 0 bs\<rparr>
              in if ret < 0 then Some (ret, bio, d) else Some (0, bio\<lparr>boff := a\<rparr>, d))
        else Some (0, bio, d))
      (\<lambda>(ret, bio', d).
        if ret \<noteq> 0 then Some (ret, bio', d)
        else
          let cplen = min (length buf) (bsize bio' - (off AND bmask bio));
              bio' = bio'\<lparr>bbuf := buf_write (bbuf bio') (off AND bmask bio) (take cplen buf), bdirty := True\<rparr>
          in buffered_write_loop dd bytes (drop cplen buf) (w32 (off + cplen)) (bio', d))"
  using assms by (subst buffered_write_loop.simps) (simp only: Let_def fst_conv snd_conv if_not_P if_False)

lemma load_owner:
  assumes "lite_load_block wrsize tab k a (bb, ds) = Some (r, bb', ds')" "wdirty bb \<longrightarrow> wdd bb = k"
  shows "wdirty bb' \<longrightarrow> wdd bb' = k"
  using assms by (auto simp: lite_load_block_def flush_cache_block_def Let_def bind_eq_Some_conv split: if_splits prod.splits)

lemma write_loop_same:
  assumes "wrsize = 0 \<or> wrsize = 256" "wdirty bb \<longrightarrow> wdd bb = k"
  shows "via wrsize k ds (lite_write_loop wrsize tab k bytes buf off (bb, ds))
    (buffered_write_loop (tab k) bytes buf off (as_bio wrsize k bb, ds k))"
  using assms(2)
proof (induction "length buf" arbitrary: buf off bb ds rule: less_induct)
  case less
  show ?case
  proof (cases "buf = []")
    case True
    then show ?thesis by (subst lite_write_loop.simps, subst buffered_write_loop.simps) simp
  next
    case ne: False
    show ?thesis
    proof (cases "off AND 4095 = 0 \<and> length buf \<ge> 4096")
      case True
      obtain r d where w: "write_eraseable_block (tab k) buf 4096 off (ds k) = (r, d)" by fastforce
      have "length (drop 4096 buf) < length buf" using True ne by simp
      from less.hyps [OF this less.prems, of "w32 (off + 4096)" "ds(k := d)"] show ?thesis
        using True ne w
        by (subst lite_write_loop.simps, subst buffered_write_loop.simps)
          (simp add: lite_eraseable_same Let_def fun_upd_same del: fun_upd_apply)
    next
      case False
      let ?i = "off AND 4095" and ?a = "off - (off AND 4095)"
      let ?c = "min (length buf) (4096 - ?i)"
      have F: "\<not> (off AND bmask (as_bio wrsize k bb) = 0 \<and> length buf \<ge> bsize (as_bio wrsize k bb))" using False by simp
      note P = buffered_loop_part [OF ne F, where dd = "tab k" and bytes = bytes and d = "ds k"]
      note L = load_same [OF assms(1) less.prems, where a = ?a and ds = ds and tab = tab]
      have cl: "length (drop ?c buf) < length buf" using ne by (simp add: and_4095)
      have W: "lite_write_loop wrsize tab k bytes buf off (bb, ds) =
          Option.bind (lite_load_block wrsize tab k ?a (bb, ds)) (\<lambda>(ret, bb, ds).
            if ret \<noteq> 0 then Some (ret, bb, ds)
            else lite_write_loop wrsize tab k bytes (drop ?c buf) (w32 (off + ?c))
              (bb\<lparr>wbuf := buf_write (wbuf bb) ?i (take ?c buf), wdirty := True, wdd := k\<rparr>, ds))"
        using ne False by (subst lite_write_loop.simps) (simp only: Let_def if_False if_not_P)
      show ?thesis
      proof (cases "lite_load_block wrsize tab k ?a (bb, ds)")
        case None
        then show ?thesis unfolding W P using L by (simp add: Let_def)
      next
        case (Some x)
        obtain r bb' ds' where x: "x = (r, bb', ds')" by (cases x)
        note S = Some [unfolded x]
        obtain d where y: "(let bio = as_bio wrsize k bb; d = ds k
            in if boff bio \<noteq> ?a then
                 Option.bind (buffered_flush_locked (tab k) (bio, d)) (\<lambda>(ret, bio, d).
                   if ret \<noteq> 0 then Some (ret, bio, d)
                   else
                     let (ret, bs) = disk_device_read (tab k) (bsize bio) ?a d;
                         bio = bio\<lparr>bbuf := buf_write (bbuf bio) 0 bs\<rparr>
                     in if ret < 0 then Some (ret, bio, d) else Some (0, bio\<lparr>boff := ?a\<rparr>, d))
               else Some (0, bio, d)) = Some (r, as_bio wrsize k bb', d)" "ds' = ds(k := d)"
          by (rule viaD [OF L [unfolded S]])
        show ?thesis
        proof (cases "r = 0")
          case False
          then show ?thesis unfolding W P S using y by (simp add: Let_def del: fun_upd_apply)
        next
          case True
          let ?bb = "bb'\<lparr>wbuf := buf_write (wbuf bb') ?i (take ?c buf), wdirty := True, wdd := k\<rparr>"
          have "wdirty bb' \<longrightarrow> wdd bb' = k" by (rule load_owner [OF S less.prems])
          then have b: "as_bio wrsize k ?bb =
              (as_bio wrsize k bb')\<lparr>bbuf := buf_write (wbuf bb') ?i (take ?c buf), bdirty := True\<rparr>"
            by (simp add: as_bio_def)
          have "wdirty ?bb \<longrightarrow> wdd ?bb = k" by simp
          from less.hyps [OF cl this, of "w32 (off + ?c)" "ds(k := d)"] show ?thesis
            unfolding W P S using y True b by (simp add: Let_def fun_upd_same del: fun_upd_apply)
        qed
      qed
    qed
  qed
qed

lemma write_loop_owner:
  "lite_write_loop wrsize tab k bytes buf off (bb, ds) = Some (r, bb', ds') \<Longrightarrow> wdirty bb \<longrightarrow> wdd bb = k \<Longrightarrow>
   wdirty bb' \<longrightarrow> wdd bb' = k"
proof (induction "length buf" arbitrary: buf off bb ds rule: less_induct)
  case less
  show ?case
  proof (cases "buf = []")
    case True
    then show ?thesis using less.prems by (subst (asm) lite_write_loop.simps) simp
  next
    case ne: False
    show ?thesis
    proof (cases "off AND 4095 = 0 \<and> length buf \<ge> 4096")
      case True
      have l: "length (drop 4096 buf) < length buf" using True ne by simp
      obtain q ds1 where "lite_write_eraseable_block tab k buf 4096 off ds = (q, ds1)" by fastforce
      then have "(if q < 0 then Some (q, bb, ds1)
          else lite_write_loop wrsize tab k bytes (drop 4096 buf) (w32 (off + 4096)) (bb, ds1)) = Some (r, bb', ds')"
        using less.prems(1) True ne by (subst (asm) lite_write_loop.simps) (auto split: if_splits)
      then show ?thesis using less.hyps [OF l _ less.prems(2)] less.prems(2) by (cases "q < 0") auto
    next
      case False
      let ?i = "off AND 4095" and ?a = "off - (off AND 4095)"
      let ?c = "min (length buf) (4096 - ?i)"
      have l: "length (drop ?c buf) < length buf" using ne by (simp add: and_4095)
      obtain q bb1 ds1 where x: "lite_load_block wrsize tab k ?a (bb, ds) = Some (q, bb1, ds1)"
          "(if q \<noteq> 0 then Some (q, bb1, ds1)
            else lite_write_loop wrsize tab k bytes (drop ?c buf) (w32 (off + ?c))
              (bb1\<lparr>wbuf := buf_write (wbuf bb1) ?i (take ?c buf), wdirty := True, wdd := k\<rparr>, ds1)) = Some (r, bb', ds')"
        using less.prems(1) ne False
        by (subst (asm) lite_write_loop.simps) (simp only: Let_def if_False if_not_P bind_eq_Some_conv, auto)
      show ?thesis
      proof (cases "q = 0")
        case True
        show ?thesis by (rule less.hyps [OF l x(2) [unfolded True simp_thms if_False]]) simp
      next
        case False
        then show ?thesis using x(2) load_owner [OF x(1) less.prems(2)] by simp
      qed
    qed
  qed
qed

lemma lite_read_same: "lite_read tab k n off (bb, ds) = buffered_read (tab k) n off (as_bio wrsize k' bb, ds k)"
proof -
  obtain r bs where "disk_device_read (tab k) n off (ds k) = (r, bs)" by fastforce
  then show ?thesis by (simp add: lite_read_def buffered_read_def lite_region_intersect_def region_intersect_def Let_def)
qed

text \<open>\<open>v\<close> are the bytes of disk \<open>k\<close> with the cached block over them; a dirty block is one of disk \<open>k\<close>.\<close>

definition lite_rep ::
  "nat \<Rightarrow> (nat \<Rightarrow> 'd disk_device) \<Rightarrow> ('d \<Rightarrow> mem) \<Rightarrow> nat \<Rightarrow> blkdev_wrbuffer \<times> (nat \<Rightarrow> 'd) \<Rightarrow> mem \<Rightarrow> bool" where
  "lite_rep wrsize tab contents k s v \<longleftrightarrow> (wdirty (fst s) \<longrightarrow> wdd (fst s) = k) \<and>
     bio_rep (tab k) contents (as_bio wrsize k (fst s), snd s k) v"

lemma lite_init_rep:
  assumes "blk_size (tab k) dvd 4096" "4096 dvd dlen (tab k)" "length (wbuf bb) = 4096"
  shows "lite_rep wrsize tab contents k (snd (lite_blkdev_init bb), ds) (contents (ds k))"
proof -
  have "\<exists>j. (4096 :: nat) = 2 ^ j" by (rule exI [of _ 12]) simp
  then show ?thesis using assms by (simp add: lite_rep_def lite_blkdev_init_def bio_rep_def bio_ok_def)
qed

lemma lite_write_rep:
  assumes "flash_disk (tab k) contents" "wrsize = 0 \<or> wrsize = 256" "lite_rep wrsize tab contents k (bb, ds) v"
    and "off + length xs \<le> dlen (tab k)"
    and "\<forall>a. 4096 dvd a \<longrightarrow> off \<le> a \<longrightarrow> a + 4096 \<le> off + length xs \<longrightarrow> woffset bb \<noteq> a"
  obtains bb' d' where "lite_write wrsize tab k xs off (bb, ds) = Some (int (length xs), bb', ds(k := d'))"
    "lite_rep wrsize tab contents k (bb', ds(k := d')) (mem_write v off xs)"
proof -
  have own: "wdirty bb \<longrightarrow> wdd bb = k" and rep: "bio_rep (tab k) contents (as_bio wrsize k bb, ds k) v"
    using assms(3) by (simp_all add: lite_rep_def)
  have c: "\<forall>a. bsize (as_bio wrsize k bb) dvd a \<longrightarrow> off \<le> a \<longrightarrow>
      a + bsize (as_bio wrsize k bb) \<le> off + length xs \<longrightarrow> boff (as_bio wrsize k bb) \<noteq> a" using assms(5) by simp
  obtain bio' d' where w: "buffered_write_loop (tab k) (int (length xs)) xs off (as_bio wrsize k bb, ds k) =
      Some (int (length xs), bio', d')" "bio_rep (tab k) contents (bio', d') (mem_write v off xs)"
    using flash_disk.write_loop_bytes [OF assms(1) rep assms(4) c, of "int (length xs)"] by fast
  note S = write_loop_same [OF assms(2) own, where tab = tab and bytes = "int (length xs)" and buf = xs and off = off and ds = ds]
  then obtain bb' where b: "lite_write_loop wrsize tab k (int (length xs)) xs off (bb, ds) =
      Some (int (length xs), bb', ds(k := d'))" "as_bio wrsize k bb' = bio'"
    unfolding w(1) by (auto simp del: fun_upd_apply)
  have "wdirty bb' \<longrightarrow> wdd bb' = k" by (rule write_loop_owner [OF b(1) own])
  then have "lite_rep wrsize tab contents k (bb', ds(k := d')) (mem_write v off xs)"
    using w(2) b(2) by (simp add: lite_rep_def)
  then show ?thesis using that b(1) by (simp add: lite_write_def)
qed

lemma bio_rep_contents: "bio_rep dd contents (bio, d) v \<Longrightarrow> contents d' = contents d \<Longrightarrow> bio_rep dd contents (bio, d') v"
  unfolding bio_rep_def fst_conv snd_conv by (elim conjE, intro conjI, assumption) (simp only:)

lemma lite_sync_rep:
  assumes "flash_disk (tab k) contents" "wrsize = 0 \<or> wrsize = 256" "lite_rep wrsize tab contents k (bb, ds) v"
  obtains bb' d' where "lite_sync wrsize tab invalid (bb, ds) = Some (0, bb', ds(k := d'))"
    "\<not> wdirty bb'" "contents d' = v" "lite_rep wrsize tab contents k (bb', ds(k := d')) v"
proof (cases "wdirty bb")
  case False
  then have "lite_sync wrsize tab invalid (bb, ds) = Some (0, bb, ds(k := ds k))" by (simp add: lite_sync_def)
  moreover have "contents (ds k) = v" using assms(3) False by (auto simp: lite_rep_def bio_rep_def split: if_splits)
  ultimately show ?thesis using that [of bb "ds k"] False assms(3) by simp
next
  case True
  have own: "wdd bb = k" and rep: "bio_rep (tab k) contents (as_bio wrsize k bb, ds k) v"
    using assms(3) True by (simp_all add: lite_rep_def)
  obtain d where d: "buffered_flush_locked (tab k) (as_bio wrsize k bb, ds k) = Some (0, (as_bio wrsize k bb)\<lparr>bdirty := False\<rparr>, d)"
      "bio_rep (tab k) contents ((as_bio wrsize k bb)\<lparr>bdirty := False\<rparr>, d) v" "contents d = v"
    using flash_disk.flush_rep [OF assms(1) rep] by auto
  note S = flush_same [OF assms(2), of bb k, where ds = ds and tab = tab]
  obtain bb1 where b: "flush_cache_block wrsize tab k (bb, ds) = Some (0, bb1, ds(k := d))"
      "as_bio wrsize k bb1 = (as_bio wrsize k bb)\<lparr>bdirty := False\<rparr>"
    using S own unfolding d(1) by (auto simp del: fun_upd_apply)
  have wd: "\<not> wdirty bb1" "wdd bb1 = k"
    using b(1) True own by (auto simp: flush_cache_block_def bind_eq_Some_conv split: prod.splits if_splits)
  let ?bb = "if invalid then bb1\<lparr>woffset := NO_OFFSET\<rparr> else bb1"
  obtain r y d' where i: "disk_device_ioctl (tab k) DISK_SYNC d = (r, y, d')" by (cases "disk_device_ioctl (tab k) DISK_SYNC d")
  have c: "contents d' = v" using i d(3) flash_disk.io [OF assms(1), of DISK_SYNC d]
    by (auto simp: disk_device_ioctl_def split: prod.splits)
  have "lite_sync wrsize tab invalid (bb, ds) = Some (0, ?bb, ds(k := d'))"
    using True own b(1) wd i by (simp add: lite_sync_def fun_upd_same del: fun_upd_apply)
  moreover have "lite_rep wrsize tab contents k (?bb, ds(k := d')) v"
  proof -
    have r: "bio_rep (tab k) contents (as_bio wrsize k bb1, d') v"
      by (rule bio_rep_contents [OF d(2) [folded b(2)]]) (simp only: c d(3))
    moreover have "as_bio wrsize k (bb1\<lparr>woffset := NO_OFFSET\<rparr>) = (as_bio wrsize k bb1)\<lparr>boff := NO_OFFSET\<rparr>"
      by (simp add: as_bio_def)
    moreover have "bio_rep (tab k) contents ((as_bio wrsize k bb1)\<lparr>boff := NO_OFFSET\<rparr>, d') v"
      using r wd(1) c [symmetric] by (simp add: bio_rep_def bio_ok_def)
    ultimately show ?thesis using wd(1) by (simp add: lite_rep_def)
  qed
  ultimately show ?thesis using that c wd by simp
qed

section \<open>Properties\<close>

text \<open>
  C17. Over one disk that meets the flash contract, the cache is a byte store as long as no block that the write covers
  wholly is the one in the buffer: the write returns its length and changes exactly its bytes, every later read that is
  not empty returns them, and a synchronisation, whether it invalidates the buffer or not, puts them on the disk. No
  other disk is touched.
\<close>

theorem blkdev_lite_is_byte_store:
  assumes "flash_disk (tab k) contents" "wrsize = 0 \<or> wrsize = 256" "lite_rep wrsize tab contents k (bb, ds) v"
    and "off + length xs \<le> dlen (tab k)"
    and "\<forall>a. 4096 dvd a \<longrightarrow> off \<le> a \<longrightarrow> a + 4096 \<le> off + length xs \<longrightarrow> woffset bb \<noteq> a"
  shows "\<exists>bb' d'. lite_write wrsize tab k xs off (bb, ds) = Some (int (length xs), bb', ds(k := d')) \<and>
    lite_rep wrsize tab contents k (bb', ds(k := d')) (mem_write v off xs) \<and>
    (\<forall>p n. 0 < n \<and> p + n \<le> dlen (tab k) \<longrightarrow>
       lite_read tab k n p (bb', ds(k := d')) = Some (int n, mem_read (mem_write v off xs) p n)) \<and>
    (\<exists>b2 d2. lite_blkdev_sync wrsize tab (bb', ds(k := d')) = Some (0, b2, ds(k := d2)) \<and> \<not> wdirty b2 \<and>
       contents d2 = mem_write v off xs) \<and>
    (\<exists>b2 d2. lite_blkdev_sync_invalid wrsize tab (bb', ds(k := d')) = Some (0, b2, ds(k := d2)) \<and> \<not> wdirty b2 \<and>
       contents d2 = mem_write v off xs)"
proof -
  obtain bb' d' where w: "lite_write wrsize tab k xs off (bb, ds) = Some (int (length xs), bb', ds(k := d'))"
      "lite_rep wrsize tab contents k (bb', ds(k := d')) (mem_write v off xs)"
    by (rule lite_write_rep [OF assms])
  have r: "lite_read tab k n p (bb', ds(k := d')) = Some (int n, mem_read (mem_write v off xs) p n)"
    if "0 < n \<and> p + n \<le> dlen (tab k)" for p n
    using w(2) that flash_disk.buffered_read_rep [OF assms(1)]
    unfolding lite_rep_def lite_read_same [where wrsize = wrsize and k' = k] by simp
  have y: "\<exists>b2 d2. lite_sync wrsize tab invalid (bb', ds(k := d')) = Some (0, b2, ds(k := d2)) \<and> \<not> wdirty b2 \<and>
      contents d2 = mem_write v off xs" for invalid
    by (rule lite_sync_rep [OF assms(1,2) w(2), of invalid]) (simp only: fun_upd_upd, blast)
  show ?thesis unfolding lite_blkdev_sync_def lite_blkdev_sync_invalid_def
    by (rule exI [of _ bb'], rule exI [of _ d'], rule conjI [OF w(1)], rule conjI [OF w(2)], rule conjI, intro allI impI,
      rule r, assumption, rule conjI [OF y y])
qed

text \<open>The cache after start-up, over two erased virtual flashes.\<close>

definition example_cache :: blkdev_wrbuffer where
  "example_cache = snd (lite_blkdev_init \<lparr>wdd = 0, wbuf = replicate 4096 0, woffset = 0, wdirty = False\<rparr>)"

lemma example_cache_rep: "lite_rep 256 (\<lambda>_. vdisk) (\<lambda>m. m) k (example_cache, \<lambda>_ _. 0xFF) (\<lambda>_. 0xFF)"
  unfolding example_cache_def by (rule lite_init_rep) (simp_all add: vdisk_def)

theorem blkdev_lite_is_byte_store_witness:
  "\<exists>s. lite_write 256 (\<lambda>_. vdisk) 1 [1, 2, 3] 4095 (example_cache, \<lambda>_ _. 0xFF) = Some (3, s) \<and>
     lite_read (\<lambda>_. vdisk) 1 3 4095 s = Some (3, [1, 2, 3])"
proof -
  have r: "4095 + length [1, 2, 3 :: u8] \<le> dlen vdisk" by (simp add: vdisk_def)
  have h: "\<forall>a. 4096 dvd a \<longrightarrow> 4095 \<le> a \<longrightarrow> a + 4096 \<le> 4095 + length [1, 2, 3 :: u8] \<longrightarrow> woffset example_cache \<noteq> a"
    by simp
  obtain b d where
    s: "lite_write 256 (\<lambda>_. vdisk) 1 [1, 2, 3] 4095 (example_cache, \<lambda>_ _. 0xFF) =
        Some (int (length [1, 2, 3 :: u8]), b, (\<lambda>_ _. 0xFF)(1 := d))"
    "\<forall>p n. 0 < n \<and> p + n \<le> dlen vdisk \<longrightarrow>
       lite_read (\<lambda>_. vdisk) 1 n p (b, (\<lambda>_ _. 0xFF)(1 := d)) = Some (int n, mem_read (mem_write (\<lambda>_. 0xFF) 4095 [1, 2, 3]) p n)"
    using blkdev_lite_is_byte_store
      [OF vflash.flash_disk_axioms disjI2 [OF refl] example_cache_rep r h, where k = 1] by (elim exE conjE) (rule that)
  have "lite_read (\<lambda>_. vdisk) 1 (length [1, 2, 3 :: u8]) 4095 (b, (\<lambda>_ _. 0xFF)(1 := d)) =
      Some (int (length [1, 2, 3 :: u8]), mem_read (mem_write (\<lambda>_. 0xFF) 4095 [1, 2, 3]) 4095 (length [1, 2, 3 :: u8]))"
    using s(2) r by (simp del: fun_upd_apply)
  then show ?thesis using s(1) by (simp add: mem_read_write_same numeral_3_eq_3 del: fun_upd_apply)
qed

text \<open>
  C39. The cache does not keep disks apart. With a dirty block of another disk in the buffer, a read of disk \<open>j\<close> in the
  range of that block returns the bytes of the other disk. A write to \<open>j\<close> there goes into the block, and the next
  synchronisation writes all of it to \<open>j\<close>: \<open>j\<close> gets the bytes of the other disk, which are lost for that one.
\<close>

theorem blkdev_lite_mixes_disks:
  assumes "flash_disk (tab j) contents" "wrsize = 0 \<or> wrsize = 256"
    and "wdirty bb" "wdd bb = k" "j \<noteq> k" "length (wbuf bb) = 4096" "4096 dvd woffset bb"
    and "blk_size (tab j) dvd 4096" "4096 dvd dlen (tab j)" "woffset bb + 4096 \<le> dlen (tab j)"
    and "xs \<noteq> []" "length xs < 4096" "i + length xs \<le> 4096"
  shows "lite_read tab j (length xs) (woffset bb + i) (bb, ds) = Some (int (length xs), buf_read (wbuf bb) i (length xs)) \<and>
    (\<exists>bb' b2 d2. lite_write wrsize tab j xs (woffset bb + i) (bb, ds) = Some (int (length xs), bb', ds) \<and>
       lite_blkdev_sync wrsize tab (bb', ds) = Some (0, b2, ds(j := d2)) \<and> \<not> wdirty b2 \<and>
       contents d2 = mem_write (contents (ds j)) (woffset bb) (buf_write (wbuf bb) i xs))"
proof -
  have p: "\<exists>e. (4096 :: nat) = 2 ^ e" by (rule exI [of _ 12]) simp
  have rep: "bio_rep (tab j) contents (as_bio wrsize j b, ds j) (mem_write (contents (ds j)) (woffset b) (wbuf b))"
    if "wdirty b" "woffset b = woffset bb" "length (wbuf b) = 4096" for b
    using that assms(7-10) p flash_disk.len_int [OF assms(1)] by (simp add: bio_rep_def bio_ok_def)
  have fit: "woffset bb + i + length xs \<le> dlen (tab j)" using assms(10,13) by simp
  have rd: "mem_read (mem_write (contents (ds j)) (woffset bb) (wbuf bb)) (woffset bb + i) (length xs) =
      buf_read (wbuf bb) i (length xs)"
    using assms(6,13) by (intro nth_equalityI) (simp_all add: nth_mem_read nth_buf_read mem_write_def)
  have "lite_read tab j (length xs) (woffset bb + i) (bb, ds) = Some (int (length xs), buf_read (wbuf bb) i (length xs))"
    unfolding lite_read_same [where wrsize = wrsize and k' = j] rd [symmetric]
    using assms(11) by (intro flash_disk.buffered_read_rep [OF assms(1) rep fit] assms(3,6)) simp_all
  moreover
  have i: "i < 4096" using assms(11,13) by (cases xs) auto
  have a: "(woffset bb + i) AND 4095 = i" using assms(7) i by (simp add: and_4095 dvd_imp_mod_0 mod_add_left_eq [symmetric])
  let ?bb = "bb\<lparr>wbuf := buf_write (wbuf bb) i xs, wdirty := True, wdd := j\<rparr>"
  have "lite_write wrsize tab j xs (woffset bb + i) (bb, ds) = Some (int (length xs), ?bb, ds)"
    using assms(11-13) unfolding lite_write_def
    by (subst lite_write_loop.simps) (simp add: a lite_load_block_def Let_def, subst lite_write_loop.simps, simp)
  moreover have "lite_rep wrsize tab contents j (?bb, ds) (mem_write (contents (ds j)) (woffset bb) (buf_write (wbuf bb) i xs))"
    using rep [of ?bb] assms(6,13) by (simp add: lite_rep_def)
  then obtain b2 d2 where "lite_sync wrsize tab False (?bb, ds) = Some (0, b2, ds(j := d2))" "\<not> wdirty b2"
      "contents d2 = mem_write (contents (ds j)) (woffset bb) (buf_write (wbuf bb) i xs)"
    by (rule lite_sync_rep [where tab = tab and k = j, OF assms(1,2)])
  ultimately show ?thesis unfolding lite_blkdev_sync_def by blast
qed

text \<open>Zeros written to the start of disk 1, still in the buffer, and a byte written to disk 2 at the same place.\<close>

theorem blkdev_lite_mixes_disks_witness:
  "\<exists>b2 d2 s. lite_write 0 (\<lambda>_. vdisk) 2 [7] 1
       (\<lparr>wdd = 1, wbuf = replicate 4096 0, woffset = 0, wdirty = True\<rparr>, \<lambda>_ _. 0xFF) = Some (1, s) \<and>
     lite_blkdev_sync 0 (\<lambda>_. vdisk) s = Some (0, b2, (\<lambda>_ _. 0xFF)(2 := d2)) \<and>
     d2 = mem_write (\<lambda>_. 0xFF) 0 (buf_write (replicate 4096 0) 1 [7])"
proof -
  let ?bb = "\<lparr>wdd = 1, wbuf = replicate 4096 0, woffset = 0, wdirty = True\<rparr>"
  have "flash_disk ((\<lambda>_. vdisk) 2) (\<lambda>m. m)" by (rule vflash.flash_disk_axioms)
  from blkdev_lite_mixes_disks [of "\<lambda>_. vdisk" 2 "\<lambda>m. m" 0 ?bb 1 "[7]" 1 "\<lambda>_ _. 0xFF", OF this]
  show ?thesis by (simp add: vdisk_def del: fun_upd_apply) blast
qed

end
