(* ===== verification/Libenv.thy ===== *)
theory Libenv
  imports Prelude
begin

text \<open>
  The environment variables of \<open>lib/libenv.c\<close>: a table of pointers to strings \<open>name=value\<close>, ended by NULL. A string is
  the characters before its terminating zero. The table is shared by all contexts, so that a context matters only for
  its mutex, which is free when it is taken, and for its allocator; whether an allocation succeeds is a parameter. None
  is an access outside the table or through NULL, the reallocation of memory that was not allocated, or a loop that
  does not end.
\<close>

section \<open>Definitions\<close>

text \<open>
  \<open>environ\<close> is the table (NULL after a failed reallocation), \<open>heaped\<close> whether it is memory of the allocator and not
  \<open>initial_env\<close>; \<open>alloced\<close> is the static variable of \<open>__setenv\<close>.
\<close>

record libenv =
  environ :: "string option list option"
  alloced :: bool
  heaped :: bool

text \<open>The program starts with the table \<open>initial_env\<close>.\<close>

definition env_start :: libenv where
  "env_start = \<lparr>environ = Some [None], alloced = False, heaped = False\<rparr>"

text \<open>The loop over the table: the index and the text behind \<open>name=\<close> of the first entry that starts so.\<close>

fun findenv_loop :: "string \<Rightarrow> nat \<Rightarrow> string option list \<Rightarrow> (nat \<times> string) option option" where
  "findenv_loop name i [] = None"
| "findenv_loop name i (None # tbl) = Some None"
| "findenv_loop name i (Some p # tbl) =
     (if take (length name) p = name \<and> length name < length p \<and> p ! length name = CHR ''=''
      then Some (Some (i, drop (length name + 1) p))
      else findenv_loop name (i + 1) tbl)"

definition findenv :: "string \<Rightarrow> libenv \<Rightarrow> (nat \<times> string) option option" where
  "findenv name s =
     (case environ s of
        None \<Rightarrow> Some None
      | Some tbl \<Rightarrow> if CHR ''='' \<in> set name then Some None else findenv_loop name 0 tbl)"

definition getenv :: "string \<Rightarrow> libenv \<Rightarrow> string option option" where
  "getenv name s = map_option (map_option snd) (findenv name s)"

text \<open>The number of entries before NULL.\<close>

fun env_count :: "string option list \<Rightarrow> nat option" where
  "env_count [] = None"
| "env_count (None # tbl) = Some 0"
| "env_count (Some p # tbl) = map_option Suc (env_count tbl)"

text \<open>The new entry of slot \<open>offset\<close>; \<open>str_ok\<close> is whether the memory for it is there.\<close>

definition store_entry :: "string \<Rightarrow> string \<Rightarrow> bool \<Rightarrow> nat \<Rightarrow> libenv \<Rightarrow> (int \<times> libenv) option" where
  "store_entry name val str_ok offset s =
     (case environ s of
        None \<Rightarrow> None
      | Some tbl \<Rightarrow>
          if offset \<ge> length tbl then None
          else if \<not> str_ok then Some (- 1, s\<lparr>environ := Some (tbl[offset := None])\<rparr>)
          else Some (0, s\<lparr>environ := Some (tbl[offset := Some (name @ CHR ''='' # val)])\<rparr>))"

text \<open>The table with one more slot behind the entries, and the index of that slot, or an error.\<close>

definition new_slot :: "bool \<Rightarrow> libenv \<Rightarrow> ((int + nat) \<times> libenv) option" where
  "new_slot tbl_ok s =
     Option.bind (environ s) (\<lambda>tbl. Option.bind (env_count tbl) (\<lambda>cnt.
       if alloced s then
         if \<not> heaped s then None
         else if \<not> tbl_ok then Some (Inl (- 1), s\<lparr>environ := None\<rparr>)
         else Some (Inr cnt, s\<lparr>environ := Some (take (cnt + 1) tbl @ [None])\<rparr>)
       else
         let s = s\<lparr>alloced := True\<rparr>
         in if \<not> tbl_ok then Some (Inl (- 1), s)
            else Some (Inr cnt, s\<lparr>environ := Some (take cnt tbl @ [None, None]), heaped := True\<rparr>)))"

definition setenv :: "string \<Rightarrow> string \<Rightarrow> int \<Rightarrow> bool \<Rightarrow> bool \<Rightarrow> libenv \<Rightarrow> (int \<times> libenv) option" where
  "setenv name val rewrite tbl_ok str_ok s =
     (if CHR ''='' \<in> set name then Some (- EINVAL, s)
      else
        Option.bind (findenv name s) (\<lambda>found.
          case found of
            Some (offset, C) \<Rightarrow>
              if rewrite = 0 then Some (0, s)
              else if length C \<ge> length val then
                Some (0, s\<lparr>environ := map_option (\<lambda>tbl. tbl[offset := map_option (\<lambda>p. take (length p - length C) p @ val) (tbl ! offset)])
                       (environ s)\<rparr>)
              else store_entry name val str_ok offset s
          | None \<Rightarrow>
              Option.bind (new_slot tbl_ok s) (\<lambda>(r, s).
                case r of Inl err \<Rightarrow> Some (err, s) | Inr offset \<Rightarrow> store_entry name val str_ok offset s)))"

text \<open>The entries behind the first move down by one, up to NULL.\<close>

fun shift_loop :: "string option list \<Rightarrow> string option list option" where
  "shift_loop (x # y # tbl) = (if y = None then Some (y # y # tbl) else map_option (Cons y) (shift_loop (y # tbl)))"
| "shift_loop _ = None"

partial_function (option) unset_loop :: "string \<Rightarrow> libenv \<Rightarrow> libenv option" where
  "unset_loop name s =
     Option.bind (findenv name s) (\<lambda>found.
       case found of
         None \<Rightarrow> Some s
       | Some (offset, C) \<Rightarrow>
           Option.bind (environ s) (\<lambda>tbl. Option.bind (shift_loop (drop offset tbl)) (\<lambda>tl.
             unset_loop name (s\<lparr>environ := Some (take offset tbl @ tl)\<rparr>))))"

definition unsetenv :: "string option \<Rightarrow> libenv \<Rightarrow> (int \<times> libenv) option" where
  "unsetenv name s =
     (case name of
        None \<Rightarrow> Some (- EINVAL, s)
      | Some n \<Rightarrow>
          if n = [] \<or> CHR ''='' \<in> set n then Some (- EINVAL, s)
          else map_option (Pair 0) (unset_loop n s))"

text \<open>
  The contexts, each with its allocator when it is in use; \<open>valid\<close> is whether the allocator has its three functions.
  The result is the index of the context.
\<close>

fun alloc_loop :: "'a \<Rightarrow> nat \<Rightarrow> 'a option list \<Rightarrow> nat option \<times> 'a option list" where
  "alloc_loop al i [] = (None, [])"
| "alloc_loop al i (None # cs) = (Some i, Some al # cs)"
| "alloc_loop al i (Some c # cs) = (let (r, cs) = alloc_loop al (i + 1) cs in (r, Some c # cs))"

definition allocenv :: "'a option \<Rightarrow> bool \<Rightarrow> 'a option list \<Rightarrow> nat option \<times> 'a option list" where
  "allocenv allocator valid cs =
     (case allocator of
        None \<Rightarrow> (None, cs)
      | Some al \<Rightarrow> if \<not> valid then (None, cs) else alloc_loop al 0 cs)"

section \<open>Lemmas\<close>

text \<open>
  \<open>env_ok s es\<close>: the table holds the entries \<open>es\<close> before its NULL, and it belongs to the allocator once one was
  asked for.
\<close>

definition env_ok :: "libenv \<Rightarrow> string list \<Rightarrow> bool" where
  "env_ok s es \<longleftrightarrow> (\<exists>rest. environ s = Some (map Some es @ None # rest)) \<and> (alloced s \<longrightarrow> heaped s)"

definition is_var :: "string \<Rightarrow> string \<Rightarrow> bool" where
  "is_var name p \<longleftrightarrow> take (length name) p = name \<and> length name < length p \<and> p ! length name = CHR ''=''"

lemma is_var_iff: "is_var name p \<longleftrightarrow> (\<exists>v. p = name @ CHR ''='' # v)"
proof
  assume v: "is_var name p"
  then have "drop (length name) p = CHR ''='' # drop (Suc (length name)) p"
    using Cons_nth_drop_Suc [of "length name" p] by (simp add: is_var_def)
  then have "p = name @ CHR ''='' # drop (Suc (length name)) p"
    using v append_take_drop_id [of "length name" p] by (simp add: is_var_def)
  then show "\<exists>v. p = name @ CHR ''='' # v" ..
qed (auto simp: is_var_def)

lemma is_var_unique:
  assumes "is_var n p" "is_var m p" "CHR ''='' \<notin> set n" "CHR ''='' \<notin> set m"
  shows "n = m"
proof -
  have t: "takeWhile (\<lambda>c. c \<noteq> CHR ''='') (k @ CHR ''='' # u) = k" if "CHR ''='' \<notin> set k" for k u
    using that by (subst takeWhile_append2) auto
  obtain u v where "p = n @ CHR ''='' # u" "p = m @ CHR ''='' # v" using assms(1,2) unfolding is_var_iff by blast
  then show ?thesis using t [OF assms(3), of u] t [OF assms(4), of v] by simp
qed

text \<open>The value of a variable in a list of entries: that of the first one.\<close>

fun env_lookup :: "string \<Rightarrow> string list \<Rightarrow> string option" where
  "env_lookup name [] = None"
| "env_lookup name (p # ps) = (if is_var name p then Some (drop (length name + 1) p) else env_lookup name ps)"

lemma env_lookup_append:
  "env_lookup name (ps @ qs) = (case env_lookup name ps of None \<Rightarrow> env_lookup name qs | Some v \<Rightarrow> Some v)"
  by (induction ps) auto

lemma env_lookup_None: "env_lookup name ps = None \<longleftrightarrow> (\<forall>p\<in>set ps. \<not> is_var name p)"
  by (induction ps) auto

lemma env_lookup_new [simp]: "env_lookup name ((name @ CHR ''='' # v) # ps) = Some v"
  by (simp add: is_var_def)

lemma findenv_loop_entries:
  "findenv_loop name i (map Some es @ None # rest) =
     Some (case env_lookup name es of None \<Rightarrow> None | Some v \<Rightarrow> Some (i + length (takeWhile (\<lambda>p. \<not> is_var name p) es), v))"
  by (induction es arbitrary: i) (auto simp: is_var_def split: option.splits)

lemma env_count_entries: "env_count (map Some es @ None # rest) = Some (length es)"
  by (induction es) auto

lemma findenv_ok:
  assumes "env_ok s es" "CHR ''='' \<notin> set name"
  shows "findenv name s =
    Some (case env_lookup name es of None \<Rightarrow> None | Some v \<Rightarrow> Some (length (takeWhile (\<lambda>p. \<not> is_var name p) es), v))"
  using assms findenv_loop_entries [of name 0 es] by (auto simp: findenv_def env_ok_def split: option.splits)

lemma getenv_ok: "env_ok s es \<Longrightarrow> CHR ''='' \<notin> set name \<Longrightarrow> getenv name s = Some (env_lookup name es)"
  by (simp add: getenv_def findenv_ok split: option.split)

lemma env_lookup_split:
  assumes "env_lookup name es = Some v"
  obtains xs ys where "es = xs @ (name @ CHR ''='' # v) # ys" "env_lookup name xs = None"
    "length (takeWhile (\<lambda>p. \<not> is_var name p) es) = length xs"
proof -
  have "\<exists>xs ys. es = xs @ (name @ CHR ''='' # v) # ys \<and> env_lookup name xs = None \<and>
      length (takeWhile (\<lambda>p. \<not> is_var name p) es) = length xs"
    using assms
  proof (induction es)
    case (Cons p es)
    show ?case
    proof (cases "is_var name p")
      case True
      then obtain u where "p = name @ CHR ''='' # u" using is_var_iff by auto
      then show ?thesis using Cons.prems True by (intro exI [of _ "[]"] exI [of _ es]) simp
    next
      case False
      then obtain xs ys where "es = xs @ (name @ CHR ''='' # v) # ys" "env_lookup name xs = None"
          "length (takeWhile (\<lambda>p. \<not> is_var name p) es) = length xs" using Cons by auto
      then show ?thesis using False by (intro exI [of _ "p # xs"] exI [of _ ys]) simp
    qed
  qed simp
  then show ?thesis using that by blast
qed

lemma env_lookup_other:
  assumes "CHR ''='' \<notin> set n" "CHR ''='' \<notin> set m" "n \<noteq> m"
  shows "env_lookup m (xs @ (n @ CHR ''='' # v) # ys) = env_lookup m (xs @ ys)"
proof -
  have "is_var n (n @ CHR ''='' # v)" by (simp add: is_var_def)
  then have "\<not> is_var m (n @ CHR ''='' # v)" using is_var_unique assms by blast
  then show ?thesis by (simp add: env_lookup_append split: option.split)
qed

lemma store_entry_ok:
  assumes "environ s = Some (map Some xs @ y # map Some ys @ None # rest)" "alloced s \<longrightarrow> heaped s"
  shows "\<exists>s'. store_entry name v True (length xs) s = Some (0, s') \<and> env_ok s' (xs @ (name @ CHR ''='' # v) # ys)"
  using assms by (simp add: store_entry_def env_ok_def list_update_append)

lemma new_slot_ok:
  assumes "env_ok s es"
  shows "\<exists>s' x. new_slot True s = Some (Inr (length es), s') \<and>
    environ s' = Some (map Some es @ x # map Some [] @ None # []) \<and> (alloced s' \<longrightarrow> heaped s')"
proof -
  obtain rest where "environ s = Some (map Some es @ None # rest)" "alloced s \<longrightarrow> heaped s"
    using assms by (auto simp: env_ok_def)
  then show ?thesis by (simp add: new_slot_def env_count_entries)
qed

lemma setenv_ok:
  assumes "env_ok s es" "CHR ''='' \<notin> set name"
  obtains s' es' where "setenv name v rewrite True True s = Some (0, s')" "env_ok s' es'"
    "env_lookup name es' = (if rewrite = 0 \<and> env_lookup name es \<noteq> None then env_lookup name es else Some v)"
    "\<forall>m. CHR ''='' \<notin> set m \<and> m \<noteq> name \<longrightarrow> env_lookup m es' = env_lookup m es"
proof (cases "env_lookup name es")
  case None
  obtain s1 x where s1: "new_slot True s = Some (Inr (length es), s1)"
      "environ s1 = Some (map Some es @ x # map Some [] @ None # [])" "alloced s1 \<longrightarrow> heaped s1"
    using new_slot_ok [OF assms(1)] by blast
  obtain s' where s': "store_entry name v True (length es) s1 = Some (0, s')" "env_ok s' (es @ [name @ CHR ''='' # v])"
    using store_entry_ok [OF s1(2,3)] by auto
  show ?thesis
  proof (rule that [OF _ s'(2)])
    show "setenv name v rewrite True True s = Some (0, s')"
      using None s1(1) s'(1) assms(2) findenv_ok [OF assms] by (simp add: setenv_def)
    show "env_lookup name (es @ [name @ CHR ''='' # v]) =
        (if rewrite = 0 \<and> env_lookup name es \<noteq> None then env_lookup name es else Some v)"
      using None by (simp add: env_lookup_append del: env_lookup.simps)
    show "\<forall>m. CHR ''='' \<notin> set m \<and> m \<noteq> name \<longrightarrow> env_lookup m (es @ [name @ CHR ''='' # v]) = env_lookup m es"
      using env_lookup_other [OF assms(2), of _ es v "[]"] by auto
  qed
next
  case (Some u)
  obtain xs ys where e: "es = xs @ (name @ CHR ''='' # u) # ys" "env_lookup name xs = None"
      "length (takeWhile (\<lambda>p. \<not> is_var name p) es) = length xs" by (rule env_lookup_split [OF Some])
  have f: "findenv name s = Some (Some (length xs, u))" using findenv_ok [OF assms] Some e(3) by simp
  obtain rest where t: "environ s = Some (map Some es @ None # rest)" "alloced s \<longrightarrow> heaped s"
    using assms(1) by (auto simp: env_ok_def)
  show ?thesis
  proof (cases "rewrite = 0")
    case True
    then have "setenv name v rewrite True True s = Some (0, s)" using f assms(2) by (simp add: setenv_def)
    then show ?thesis using that assms(1) True Some by simp
  next
    case False
    let ?es = "xs @ (name @ CHR ''='' # v) # ys"
    have "\<exists>s'. setenv name v rewrite True True s = Some (0, s') \<and> env_ok s' ?es"
    proof (cases "length v \<le> length u")
      case True
      then show ?thesis using f t e(1) False assms(2)
        by (simp add: setenv_def env_ok_def list_update_append nth_append)
    next
      case long: False
      have "environ s = Some (map Some xs @ Some (name @ CHR ''='' # u) # map Some ys @ None # rest)" using t(1) e(1) by simp
      from store_entry_ok [OF this t(2)] show ?thesis using f False long assms(2) by (simp add: setenv_def)
    qed
    then obtain s' where s': "setenv name v rewrite True True s = Some (0, s')" "env_ok s' ?es" by blast
    show ?thesis
    proof (rule that [OF s'])
      show "env_lookup name ?es = (if rewrite = 0 \<and> env_lookup name es \<noteq> None then env_lookup name es else Some v)"
        using e(2) False by (simp add: env_lookup_append del: env_lookup.simps)
      show "\<forall>m. CHR ''='' \<notin> set m \<and> m \<noteq> name \<longrightarrow> env_lookup m ?es = env_lookup m es"
        unfolding e(1) using env_lookup_other [OF assms(2)] by auto
    qed
  qed
qed

lemma shift_loop_entries:
  "shift_loop (x # map Some ys @ None # rest) = Some (map Some ys @ None # None # rest)"
  by (induction ys arbitrary: x) auto

lemma unset_loop_ok:
  assumes "env_ok s es" "CHR ''='' \<notin> set name"
  shows "\<exists>s'. unset_loop name s = Some s' \<and> env_ok s' (filter (\<lambda>p. \<not> is_var name p) es)"
  using assms(1)
proof (induction "length es" arbitrary: es s rule: less_induct)
  case less
  show ?case
  proof (cases "env_lookup name es")
    case None
    then have "filter (\<lambda>p. \<not> is_var name p) es = es" by (simp add: env_lookup_None filter_True)
    moreover have "unset_loop name s = Some s"
      using None findenv_ok [OF less.prems assms(2)] by (subst unset_loop.simps) simp
    ultimately show ?thesis using less.prems by simp
  next
    case (Some u)
    obtain xs ys where e: "es = xs @ (name @ CHR ''='' # u) # ys" "env_lookup name xs = None"
        "length (takeWhile (\<lambda>p. \<not> is_var name p) es) = length xs" by (rule env_lookup_split [OF Some])
    obtain rest where t: "environ s = Some (map Some es @ None # rest)" "alloced s \<longrightarrow> heaped s"
      using less.prems by (auto simp: env_ok_def)
    let ?s = "s\<lparr>environ := Some (map Some xs @ map Some ys @ None # None # rest)\<rparr>"
    have "findenv name s = Some (Some (length xs, u))" using findenv_ok [OF less.prems assms(2)] Some e(3) by simp
    then have l: "unset_loop name s = unset_loop name ?s"
      using t(1) e(1) by (subst unset_loop.simps) (simp add: shift_loop_entries)
    have "env_ok ?s (xs @ ys)" using t(2) by (simp add: env_ok_def)
    moreover have "length (xs @ ys) < length es" using e(1) by simp
    ultimately have "\<exists>s'. unset_loop name ?s = Some s' \<and> env_ok s' (filter (\<lambda>p. \<not> is_var name p) (xs @ ys))"
      using less.hyps by blast
    moreover have "is_var name (name @ CHR ''='' # u)" by (simp add: is_var_def)
    ultimately show ?thesis unfolding l e(1) by simp
  qed
qed

lemma env_lookup_filter:
  assumes "CHR ''='' \<notin> set n" "CHR ''='' \<notin> set m"
  shows "env_lookup m (filter (\<lambda>p. \<not> is_var n p) es) = (if m = n then None else env_lookup m es)"
proof (induction es)
  case (Cons p es)
  then show ?case using is_var_unique [OF _ _ assms, of p] by auto
qed simp

lemma env_start_ok: "env_ok env_start []"
  by (simp add: env_start_def env_ok_def)

section \<open>Properties\<close>

text \<open>
  C18. With memory for the table and the entry, setting a variable succeeds: it then has the value, or the old one when
  it was set and is not to be rewritten, and every other variable keeps its value. Removing a variable succeeds, leaves
  it unset however often it was set, and the others as they were.
\<close>

theorem libenv_is_map:
  assumes "env_ok s es" "CHR ''='' \<notin> set name"
  shows "(\<exists>s' es'. setenv name v rewrite True True s = Some (0, s') \<and> env_ok s' es' \<and>
      getenv name s' = (if rewrite = 0 \<and> getenv name s \<noteq> Some None then getenv name s else Some (Some v)) \<and>
      (\<forall>m. CHR ''='' \<notin> set m \<and> m \<noteq> name \<longrightarrow> getenv m s' = getenv m s)) \<and>
    (name \<noteq> [] \<longrightarrow> (\<exists>s' es'. unsetenv (Some name) s = Some (0, s') \<and> env_ok s' es' \<and> getenv name s' = Some None \<and>
      (\<forall>m. CHR ''='' \<notin> set m \<and> m \<noteq> name \<longrightarrow> getenv m s' = getenv m s)))"
proof (intro conjI impI)
  note g = getenv_ok [OF assms(1)]
  obtain s' es' where s: "setenv name v rewrite True True s = Some (0, s')" "env_ok s' es'"
    "env_lookup name es' = (if rewrite = 0 \<and> env_lookup name es \<noteq> None then env_lookup name es else Some v)"
    "\<forall>m. CHR ''='' \<notin> set m \<and> m \<noteq> name \<longrightarrow> env_lookup m es' = env_lookup m es" by (rule setenv_ok [OF assms, of v rewrite])
  then show "\<exists>s' es'. setenv name v rewrite True True s = Some (0, s') \<and> env_ok s' es' \<and>
      getenv name s' = (if rewrite = 0 \<and> getenv name s \<noteq> Some None then getenv name s else Some (Some v)) \<and>
      (\<forall>m. CHR ''='' \<notin> set m \<and> m \<noteq> name \<longrightarrow> getenv m s' = getenv m s)"
    using g getenv_ok [OF s(2)] assms(2) by (intro exI [of _ s'] exI [of _ es']) simp
  assume "name \<noteq> []"
  obtain s' where u: "unset_loop name s = Some s'" "env_ok s' (filter (\<lambda>p. \<not> is_var name p) es)"
    using unset_loop_ok [OF assms] by blast
  then show "\<exists>s' es'. unsetenv (Some name) s = Some (0, s') \<and> env_ok s' es' \<and> getenv name s' = Some None \<and>
      (\<forall>m. CHR ''='' \<notin> set m \<and> m \<noteq> name \<longrightarrow> getenv m s' = getenv m s)"
    using g getenv_ok [OF u(2)] assms(2) \<open>name \<noteq> []\<close> env_lookup_filter [OF assms(2)]
    by (intro exI [of _ s'] exI) (auto simp: unsetenv_def)
qed

theorem libenv_is_map_witness:
  "\<exists>s. setenv ''PATH'' ''/bin'' 1 True True env_start = Some (0, s) \<and> getenv ''PATH'' s = Some (Some ''/bin'')"
proof -
  have "CHR ''='' \<notin> set ''PATH''" by simp
  from libenv_is_map [OF env_start_ok this, of "''/bin''" 1] show ?thesis by auto
qed



end
