(* ===== verification/Spec2Isabelle.thy ===== *)
theory Spec2Isabelle
  imports Bitops Crc Kfifo Idr Observer Timer_List Linked_List Run_Queue Fsm Disk Blkdev Partition Gpt Disklog
    Msg_Storage Radix_Tree Buffer_Io Fnmatch Itoa Ptfs Ahash Blkdev_Lite Libenv
begin

text \<open>
  A verification of \<^emph>\<open>zbase\<close>, a library of containers, services and storage layers for firmware.

  \<^bold>\<open>The parts and how they interact.\<close> Containers (\<open>container/\<close>, \<open>idr.c\<close>) are used by services (\<open>rq.c\<close>, \<open>fsm.c\<close>,
  \<open>lib/timer/\<close>); the storage stack is a disk with its driver (\<open>dev/disk.c\<close>), a block cache over it
  (\<open>dev/blkdev.c\<close>) or a single buffer (\<open>dev/buffer_io.c\<close>), partitions (\<open>dev/partition.c\<close>, \<open>dev/gpt.c\<close>), and its
  clients: the disk log (\<open>lib/disklog.c\<close>), the message database (\<open>lib/msg_storage.c\<close>) and a file system
  (\<open>dev/ptfs.c\<close>).

  \<^bold>\<open>Theories.\<close> Each has its definitions first, in the order of the code and under its names, then the lemmas,
  then the properties, which carry their numbers C1, C2, and so on.
  \<^item> \<open>Prelude\<close>: C types and errno values, byte memories and buffers, structure layouts.
  \<^item> \<open>Bitops\<close> (\<open>lib/bitops.c\<close>): the bitmap searches find the first and the next set or clear bit.
  \<^item> \<open>Crc\<close> (\<open>lib/libcrc16.c\<close>, \<open>lib/libcrc32.c\<close>, the checksum of \<open>boot/boot.c\<close>): the tables compute the shift
    registers of the polynomials, checksums compose over chunks, bursts are detected.
  \<^item> \<open>Kfifo\<close> (\<open>container/kfifo.c\<close>): the ring with wrapping indices refines a bounded queue of bytes, and of
    records. Locale \<open>bounded_fifo\<close>, interpreted as \<open>byte_fifo\<close>.
  \<^item> \<open>Idr\<close> (\<open>idr.c\<close>): identifiers are allocated, found and released through the free list inside the table.
  \<^item> \<open>Radix_Tree\<close> (\<open>container/radix-tree.c\<close>): the tree refines a map from 32-bit indices. Locale \<open>index_map\<close>,
    interpreted as \<open>radix\<close>.
  \<^item> \<open>Linked_List\<close> (\<open>container/list.h\<close>): the intrusive lists on a heap of links represent lists of nodes. Locale
    \<open>node_lists\<close>, interpreted as \<open>lists\<close>.
  \<^item> \<open>Ahash\<close> (\<open>container/ahash.c\<close>, over the hash lists): the table refines its buckets and its free list, and an
    initialised table has empty buckets and every node free.
  \<^item> \<open>Observer\<close> (\<open>container/observer.c\<close>): chains stay sorted by priority, notification follows that order.
  \<^item> \<open>Timer_List\<close> (\<open>lib/timer/timer_list.c\<close>): the list of differences represents absolute deadlines, and due
    timers fire.
  \<^item> \<open>Run_Queue\<close> (\<open>rq.c\<close>, over the lists): nodes and wake-ups are not lost, work starts in its order.
  \<^item> \<open>Fsm\<close> (\<open>fsm.c\<close>): order of the entry and exit actions, bubbling of events, termination.
  \<^item> \<open>Disk\<close> (\<open>dev/disk.c\<close>, \<open>os/posix/os_vflash_impl.cc\<close>): the registry and the checked accesses. Locale
    \<open>flash_disk\<close> is the contract of a driver; \<open>vflash\<close> interprets it on the virtual flash (5 MB, pages of 256
    bytes).
  \<^item> \<open>Blkdev\<close> (\<open>dev/blkdev.c\<close>): the cache over any such driver is a byte store (locale \<open>byte_store\<close>, a
    sublocale of \<open>flash_disk\<close>), and a forced synchronisation writes it back.
  \<^item> \<open>Buffer_Io\<close> (\<open>dev/buffer_io.c\<close>): the buffer over any such driver is a byte store for writes that do not cover
    the buffered block wholly; a write that does, with the buffer dirty, is lost.
  \<^item> \<open>Blkdev_Lite\<close> (\<open>dev/blkdev_lite.c\<close>): over one disk the cache with a single block does what \<open>Buffer_Io\<close> does,
    and so is a byte store in the same sense; over two disks it mixes their blocks.
  \<^item> \<open>Partition\<close> (\<open>dev/partition.c\<close>) and \<open>Gpt\<close> (\<open>dev/gpt.c\<close>): accesses stay inside their partition, and a
    partition is a \<open>byte_store\<close> again (interpretation \<open>part\<close>); a table that is loaded has no overlaps.
  \<^item> \<open>Disklog\<close> (\<open>lib/disklog.c\<close>): the log keeps the newest bytes, uploads them in order and survives a restart.
    Locale \<open>synced_store\<close> extends \<open>byte_store\<close>; interpretation \<open>vlog\<close>, and a sublocale of \<open>flash_disk\<close>.
  \<^item> \<open>Msg_Storage\<close> (\<open>lib/msg_storage.c\<close>, \<open>lib/msg_partition_backend.c\<close>): writing keeps the newest messages,
    removal takes out one, the database survives a restart. Locale \<open>msg_backend\<close>, interpreted on the partition
    backend as \<open>part_msg\<close>.
  \<^item> \<open>Ptfs\<close> (\<open>dev/ptfs.c\<close>, over the block cache): the index stays well formed (\<open>ptfs_ok\<close>: no block is owned twice), a
    write changes its file as it should and no other, files are read back after closing and survive a restart.
  \<^item> \<open>Fnmatch\<close> (\<open>lib/fnmatch.c\<close>): the matcher agrees with a reference on the tokens of a pattern.
  \<^item> \<open>Libenv\<close> (\<open>lib/libenv.c\<close>): the environment is a map from names to values as long as memory is there; what is
    lost when it is not.
  \<^item> \<open>Itoa\<close> (\<open>lib/libitoa.c\<close>): the printed digits stand for the number and fit into 33 bytes.

  \<^bold>\<open>Conventions.\<close> The target is ILP32. Machine integers are words, or natural numbers with \<open>w32\<close> (the remainder
  modulo \<open>2^32\<close>) where an operation may wrap. Errors are negated errno values. None is undefined behaviour, a failed
  assertion, or a loop that does not end. Callbacks, the operating system and the driver are parameters.

  \<^bold>\<open>Bounds.\<close> Loops that may run forever are partial functions into option, without fuel; that they return is part of
  the theorems about them. The limit of 64 nested calls in \<open>fnmatch\<close> is that of the code. An insertion into the
  radix tree that finds sixteen free nodes never runs out of memory: at most eight levels (\<open>32 / 4\<close>) are added on
  top and eight nodes on the path to the item. The message database has its default ten messages and fifty types.
  The file system has its default four files of up to four blocks of 1024 bytes. A disk is smaller than
  \<open>2^31\<close> bytes, so that lengths fit the C return type.

  \<^bold>\<open>Not modelled.\<close> Concurrency: an operation runs alone, and a mutex is free when it is taken.
  \<^item> Not modelled yet: the file systems \<open>dev/xipfs.c\<close> and \<open>dev/ptfs_ext.c\<close>, \<open>dev/fifofs.c\<close>,
    \<open>lib/iovprintf.c\<close>, and \<open>boot/boot.c\<close> but for its checksum.
  \<^item> The layers over operating systems and hardware (\<open>os/\<close>, \<open>arch/\<close>, \<open>atomic.h\<close>), logging, graphics, the update and
    host tools, and the tables the linker collects (\<open>module.c\<close>, \<open>system.c\<close>): what they do is mostly done by code that
    is not part of the repository.
  \<^item> \<open>dev/bcache.c\<close> (tasks and condition variables), the DPDK ring and graph, the BSD macros, and \<open>thirdparty/\<close>:
    copies of other projects.
\<close>

end
